theory Spec2Isabelle
  imports Main "HOL-Library.Multiset"
begin

section \<open>External merge sort: run file, buffers, loser tree, run generator, merger\<close>

text \<open>
  The element type is the one the programs instantiate the templates at
  (\<^verbatim>\<open>typedef int T;\<close>). Elements are only copied and compared, never computed with,
  so they are modelled as \<^typ>\<open>int\<close>; run ids, counts and byte offsets are \<^typ>\<open>int\<close>
  as well. Two computations on 32-bit quantities depend on the range of \<^verbatim>\<open>int\<close>: the
  run id of the replacement selection, which the loop compares with \<open>INT_MAX\<close>, and the
  sum \<^verbatim>\<open>playerIndex + k\<close> from which the loser tree takes the parent of a leaf. The
  comparison is part of the model, and the sum is modelled with its wrap-around
  (\<open>parent_of\<close>).

  Exceptions are values of \<open>error\<close>. \<open>OutsideModel\<close> is not an exception of the
  program: it marks a stream transfer that the element-level file model below has no
  counterpart for (see \<open>read_elems\<close>, \<open>write_elems\<close>, \<open>open_rf\<close>), and the one
  place where the program applies \<^verbatim>\<open>top()\<close> to an empty queue.
\<close>

datatype error =
    OutOfRange        \<comment> \<open>\<^verbatim>\<open>std::out_of_range\<close>\<close>
  | RuntimeError      \<comment> \<open>\<^verbatim>\<open>std::runtime_error\<close>\<close>
  | LengthError       \<comment> \<open>\<^verbatim>\<open>std::length_error\<close> of a vector sized with a negative int\<close>
  | InvalidArgument   \<comment> \<open>\<^verbatim>\<open>std::invalid_argument\<close>\<close>
  | OutsideModel      \<comment> \<open>undefined in C++, or not covered by the file model\<close>

text \<open>Sequencing of steps that may throw: the first exception ends the computation.\<close>

definition bind_err :: "error + 'a \<Rightarrow> ('a \<Rightarrow> error + 'b) \<Rightarrow> error + 'b" where
  "bind_err m f = (case m of Inl e \<Rightarrow> Inl e | Inr x \<Rightarrow> f x)"

definition INT_MAX :: int where
  "INT_MAX = 2147483647"

definition T_MAX :: int where
  "T_MAX = 2147483647"

definition sizeof_T :: int where
  "sizeof_T = 4"

definition sizeof_RunFileHeader :: int where
  "sizeof_RunFileHeader = 12"

definition sizeof_RunMetadata :: int where
  "sizeof_RunMetadata = 24"

subsection \<open>RunFile.h\<close>

record RunMetadata =
  startOffset :: int
  elementCount :: int
  isUsed :: bool

definition RunMetadata_init :: RunMetadata where
  "RunMetadata_init = \<lparr>startOffset = 0, elementCount = 0, isUsed = False\<rparr>"

record RunFileHeader =
  magic :: string
  maxRuns :: int
  currentRunCount :: int

definition RunFileHeader_init :: "int \<Rightarrow> RunFileHeader" where
  "RunFileHeader_init max_runs = \<lparr>magic = ''RUNS'', maxRuns = max_runs, currentRunCount = 0\<rparr>"

text \<open>
  The file on disk, at the granularity of the objects that are written to it: the header,
  the directory entries that follow it, and the elements that follow the directory.
\<close>

record disk_file =
  f_header :: RunFileHeader
  f_directory :: "RunMetadata list"
  f_data :: "int list"

definition data_base :: "disk_file \<Rightarrow> int" where
  "data_base d = sizeof_RunFileHeader + int (length (f_directory d)) * sizeof_RunMetadata"

definition file_size :: "disk_file \<Rightarrow> int" where
  "file_size d = data_base d + int (length (f_data d)) * sizeof_T"

text \<open>
  The \<^verbatim>\<open>std::fstream\<close> member: closed, open and good, or open with \<^verbatim>\<open>failbit\<close> set
  (every transfer on such a stream is a no-op). A successful \<^verbatim>\<open>open\<close> clears the
  state, so a closed stream needs no flag.
\<close>

datatype stream_state = Closed | Good | Failed

record RunFile =
  disk :: "disk_file option"     \<comment> \<open>the file called \<^verbatim>\<open>filename\<close>; \<open>None\<close>: no such file\<close>
  stream :: stream_state         \<comment> \<open>\<^verbatim>\<open>file\<close>\<close>
  header :: RunFileHeader
  directory :: "RunMetadata list"

definition RunFile_init :: "disk_file option \<Rightarrow> RunFile" where
  "RunFile_init fs = \<lparr>disk = fs, stream = Closed, header = RunFileHeader_init 0, directory = []\<rparr>"

text \<open>
  \<^verbatim>\<open>writeMetadataToDisk\<close>: one directory entry is copied from memory to its slot in
  the file.
\<close>

definition writeMetadataToDisk :: "RunFile \<Rightarrow> int \<Rightarrow> RunFile" where
  "writeMetadataToDisk rf runId =
     (if stream rf = Closed \<or> runId < 0 \<or> runId \<ge> maxRuns (header rf) then rf
      else (case disk rf of
              None \<Rightarrow> rf
            | Some d \<Rightarrow>
                if stream rf = Good
                then rf\<lparr>disk := Some (d\<lparr>f_directory :=
                          (f_directory d)[nat runId := directory rf ! nat runId]\<rparr>)\<rparr>
                else rf))"

text \<open>
  \<^verbatim>\<open>create\<close>. The path is taken to be writable, so opening a closed stream for output
  succeeds; opening a stream that is already open fails and sets \<^verbatim>\<open>failbit\<close>, after
  which the writes do nothing. A negative \<open>maxRuns\<close> makes \<^verbatim>\<open>directory.assign\<close>
  throw after the header has been written. The result pairs what the call returns or
  throws with the object as the call leaves it.
\<close>

definition create :: "RunFile \<Rightarrow> int \<Rightarrow> (error + bool) \<times> RunFile" where
  "create rf max_runs =
     (let rf1 = rf\<lparr>header := RunFileHeader_init max_runs\<rparr>;
          rf2 = (if stream rf1 = Closed
                 then rf1\<lparr>stream := Good,
                          disk := Some \<lparr>f_header = header rf1, f_directory = [], f_data = []\<rparr>\<rparr>
                 else rf1\<lparr>stream := Failed\<rparr>)
      in if max_runs < 0 then (Inl LengthError, rf2)
         else
           let rf3 = rf2\<lparr>directory := replicate (nat max_runs) RunMetadata_init\<rparr>;
               rf4 = (case disk rf3 of
                        None \<Rightarrow> rf3
                      | Some d \<Rightarrow>
                          if stream rf3 = Good
                          then rf3\<lparr>disk := Some (d\<lparr>f_directory := directory rf3\<rparr>)\<rparr>
                          else rf3)
           in (Inr True, rf4\<lparr>stream := Closed\<rparr>))"

text \<open>
  \<^verbatim>\<open>open\<close>. A file whose directory does not have the \<open>maxRuns\<close> entries its header
  announces is not a file that \<open>create\<close> wrote; reading its directory is outside the
  model.
\<close>

definition resize_dir :: "nat \<Rightarrow> RunMetadata list \<Rightarrow> RunMetadata list" where
  "resize_dir n xs = take n xs @ replicate (n - length xs) RunMetadata_init"

definition open_rf :: "RunFile \<Rightarrow> (error + bool) \<times> RunFile" where
  "open_rf rf =
     (if stream rf \<noteq> Closed then
        \<comment> \<open>already open: \<^verbatim>\<open>file.open\<close> fails, the reads fail, the members keep their values\<close>
        (let rf1 = rf\<lparr>stream := Failed\<rparr>
         in if magic (header rf1) \<noteq> ''RUNS'' then (Inr False, rf1\<lparr>stream := Closed\<rparr>)
            else if maxRuns (header rf1) < 0 then (Inl LengthError, rf1)
            else (Inr True,
                  rf1\<lparr>directory := resize_dir (nat (maxRuns (header rf1))) (directory rf1)\<rparr>))
      else
        (case disk rf of
           None \<Rightarrow> (Inr False, rf)
         | Some d \<Rightarrow>
             let rf1 = rf\<lparr>stream := Good, header := f_header d\<rparr>
             in if magic (header rf1) \<noteq> ''RUNS'' then (Inr False, rf1\<lparr>stream := Closed\<rparr>)
                else if maxRuns (header rf1) < 0 then (Inl LengthError, rf1)
                else if length (f_directory d) \<noteq> nat (maxRuns (header rf1))
                then (Inl OutsideModel, rf1)
                else (Inr True, rf1\<lparr>directory := f_directory d\<rparr>)))"

definition close_rf :: "RunFile \<Rightarrow> RunFile" where
  "close_rf rf = (if stream rf \<noteq> Closed then rf\<lparr>stream := Closed\<rparr> else rf)"

text \<open>
  \<^verbatim>\<open>allocateNewRun\<close>: the first slot below \<open>maxRuns\<close> that is not in use, or \<open>-1\<close>.
\<close>

definition allocateNewRun :: "RunFile \<Rightarrow> int \<times> RunFile" where
  "allocateNewRun rf =
     (case List.find (\<lambda>i. \<not> isUsed (directory rf ! i)) [0..<nat (maxRuns (header rf))] of
        None \<Rightarrow> (- 1, rf)
      | Some i \<Rightarrow>
          let rf1 = rf\<lparr>directory := (directory rf)
                        [i := (directory rf ! i)\<lparr>isUsed := True, startOffset := 0, elementCount := 0\<rparr>]\<rparr>;
              rf2 = writeMetadataToDisk rf1 (int i)
          in (int i, rf2\<lparr>header := (header rf2)\<lparr>currentRunCount := currentRunCount (header rf2) + 1\<rparr>\<rparr>))"

text \<open>
  \<^verbatim>\<open>updateRunMetadata\<close>: the first component is the exception, if one is thrown, the
  second the object afterwards.
\<close>

definition updateRunMetadata :: "RunFile \<Rightarrow> int \<Rightarrow> int \<Rightarrow> int \<Rightarrow> error option \<times> RunFile" where
  "updateRunMetadata rf runId start_offset element_count =
     (if runId < 0 \<or> runId \<ge> maxRuns (header rf) then (Some OutOfRange, rf)
      else
        let rf1 = rf\<lparr>directory := (directory rf)
                      [nat runId := (directory rf ! nat runId)
                          \<lparr>startOffset := start_offset, elementCount := element_count\<rparr>]\<rparr>
        in (None, writeMetadataToDisk rf1 runId))"

definition getRunMetadata :: "RunFile \<Rightarrow> int \<Rightarrow> error + RunMetadata" where
  "getRunMetadata rf runId =
     (if runId < 0 \<or> runId \<ge> maxRuns (header rf) then Inl OutOfRange
      else Inr (directory rf ! nat runId))"

text \<open>
  \<^verbatim>\<open>getAppendOffset\<close>: \<^verbatim>\<open>tellp\<close> after seeking to the end; \<open>-1\<close> on a stream that is
  not good.
\<close>

definition getAppendOffset :: "RunFile \<Rightarrow> int" where
  "getAppendOffset rf =
     (case disk rf of
        None \<Rightarrow> - 1
      | Some d \<Rightarrow> if stream rf = Good then file_size d else - 1)"

text \<open>
  Transfers of elements through \<^verbatim>\<open>getStream()\<close>, as the buffers and the output worker
  make them: seek to a byte offset, then read or write whole elements. Offsets that
  address the elements of the data area, and for a write also its end, are modelled;
  anything else (an offset inside the header or directory, one that is not a multiple of
  the element size away from the data area, a read that runs past the end of the file)
  is \<open>OutsideModel\<close>. A write on a stream that is not good does nothing.
\<close>

definition elem_index :: "disk_file \<Rightarrow> int \<Rightarrow> nat option" where
  "elem_index d off =
     (if off \<ge> data_base d \<and> (off - data_base d) mod sizeof_T = 0
      then Some (nat ((off - data_base d) div sizeof_T)) else None)"

definition read_elems :: "RunFile \<Rightarrow> int \<Rightarrow> nat \<Rightarrow> error + int list" where
  "read_elems rf off n =
     (case disk rf of
        None \<Rightarrow> Inl OutsideModel
      | Some d \<Rightarrow>
          if stream rf \<noteq> Good then Inl OutsideModel
          else (case elem_index d off of
                  None \<Rightarrow> Inl OutsideModel
                | Some i \<Rightarrow>
                    if i + n \<le> length (f_data d) then Inr (take n (drop i (f_data d)))
                    else Inl OutsideModel))"

definition write_elems :: "RunFile \<Rightarrow> int \<Rightarrow> int list \<Rightarrow> error + RunFile" where
  "write_elems rf off xs =
     (case disk rf of
        None \<Rightarrow> Inr rf
      | Some d \<Rightarrow>
          if stream rf \<noteq> Good then Inr rf
          else (case elem_index d off of
                  None \<Rightarrow> Inl OutsideModel
                | Some i \<Rightarrow>
                    if i \<le> length (f_data d)
                    then Inr (rf\<lparr>disk := Some (d\<lparr>f_data :=
                                take i (f_data d) @ xs @ drop (i + length xs) (f_data d)\<rparr>)\<rparr>)
                    else Inl OutsideModel))"

text \<open>
  An open run file whose memory copy agrees with the file: what \<open>create\<close> followed by
  \<open>open_rf\<close> establishes, and what the mutators keep.
\<close>

definition rf_ok :: "RunFile \<Rightarrow> bool" where
  "rf_ok rf =
     (stream rf = Good \<and>
      map_option f_directory (disk rf) = Some (directory rf) \<and>
      map_option (\<lambda>d. maxRuns (f_header d)) (disk rf) = Some (maxRuns (header rf)) \<and>
      map_option (\<lambda>d. magic (f_header d)) (disk rf) = Some ''RUNS'' \<and>
      0 \<le> maxRuns (header rf) \<and>
      length (directory rf) = nat (maxRuns (header rf)))"

definition used_count :: "RunMetadata list \<Rightarrow> nat" where
  "used_count dir = length (filter isUsed dir)"

subsection \<open>Properties of the run file\<close>


lemma find_first_free:
  "List.find (\<lambda>i. \<not> isUsed (dir ! i)) [0..<n] = Some i \<Longrightarrow> i < n \<and> \<not> isUsed (dir ! i)"
  by (auto simp: find_Some_iff)

lemma writeMetadataToDisk_Good:
  assumes "stream rf = Good" "disk rf = Some d" "0 \<le> i" "i < maxRuns (header rf)"
  shows "writeMetadataToDisk rf i =
           rf\<lparr>disk := Some (d\<lparr>f_directory := (f_directory d)[nat i := directory rf ! nat i]\<rparr>)\<rparr>"
  using assms by (simp add: writeMetadataToDisk_def)

lemma rf_ok_disk: "rf_ok rf \<Longrightarrow> \<exists>d. disk rf = Some d \<and> f_directory d = directory rf
    \<and> maxRuns (f_header d) = maxRuns (header rf) \<and> magic (f_header d) = ''RUNS''"
  by (auto simp: rf_ok_def)

lemma writeMetadataToDisk_after_update:
  assumes "rf_ok rf" "0 \<le> runId" "runId < maxRuns (header rf)"
  shows "rf_ok (writeMetadataToDisk (rf\<lparr>directory := (directory rf)[nat runId := m]\<rparr>) runId)"
proof -
  obtain d where d: "disk rf = Some d" "f_directory d = directory rf"
    "maxRuns (f_header d) = maxRuns (header rf)" "magic (f_header d) = ''RUNS''"
    using rf_ok_disk[OF assms(1)] by blast
  have g: "stream rf = Good" "length (directory rf) = nat (maxRuns (header rf))"
    using assms(1) by (simp_all add: rf_ok_def)
  show ?thesis
    using assms d g
    by (simp add: writeMetadataToDisk_Good[where d=d] rf_ok_def)
qed

lemma rf_ok_header_update:
  "rf_ok (rf\<lparr>header := (header rf)\<lparr>currentRunCount := c\<rparr>\<rparr>) = rf_ok rf"
  by (simp add: rf_ok_def)

lemma rf_ok_allocateNewRun: "rf_ok rf \<Longrightarrow> rf_ok (snd (allocateNewRun rf))"
proof (cases "List.find (\<lambda>i. \<not> isUsed (directory rf ! i)) [0..<nat (maxRuns (header rf))]")
  case None
  assume "rf_ok rf"
  with None show ?thesis by (simp add: allocateNewRun_def)
next
  case (Some i)
  assume ok: "rf_ok rf"
  from Some have i: "i < nat (maxRuns (header rf))" by (auto dest: find_first_free)
  let ?m = "(directory rf ! i)\<lparr>isUsed := True, startOffset := 0, elementCount := 0\<rparr>"
  have "rf_ok (writeMetadataToDisk (rf\<lparr>directory := (directory rf)[nat (int i) := ?m]\<rparr>) (int i))"
    using i by (intro writeMetadataToDisk_after_update[OF ok]) auto
  then have *: "rf_ok (writeMetadataToDisk (rf\<lparr>directory := (directory rf)[i := ?m]\<rparr>) (int i))"
    by simp
  have "rf_ok (writeMetadataToDisk (rf\<lparr>directory := (directory rf)[i := ?m]\<rparr>) (int i)
          \<lparr>header := (header (writeMetadataToDisk (rf\<lparr>directory := (directory rf)[i := ?m]\<rparr>) (int i)))
             \<lparr>currentRunCount := currentRunCount (header (writeMetadataToDisk (rf\<lparr>directory := (directory rf)[i := ?m]\<rparr>) (int i))) + 1\<rparr>\<rparr>)"
    using * by (simp only: rf_ok_header_update)
  then show ?thesis
    using Some by (simp add: allocateNewRun_def Let_def)
qed

lemma rf_ok_updateRunMetadata: "rf_ok rf \<Longrightarrow> rf_ok (snd (updateRunMetadata rf i so ec))"
  using writeMetadataToDisk_after_update[of rf i]
  by (auto simp: updateRunMetadata_def Let_def)

lemma rf_ok_write_elems: "rf_ok rf \<Longrightarrow> write_elems rf off xs = Inr rf' \<Longrightarrow> rf_ok rf'"
  by (auto simp: write_elems_def rf_ok_def split: option.splits if_splits)

lemma rf_ok_create_open:
  assumes "stream rf0 = Closed" "create rf0 n = (Inr True, rf1)" "open_rf rf1 = (Inr True, rf2)"
  shows "rf_ok rf2"
  using assms
  by (auto simp: create_def open_rf_def Let_def rf_ok_def RunFileHeader_init_def split: if_splits option.splits)



text \<open>
  The states of a run file in use: created, opened, and then changed by allocating
  runs, writing elements through the stream, and sealing runs.
\<close>

inductive opened :: "RunFile \<Rightarrow> bool" where
  o_fresh: "stream rf0 = Closed \<Longrightarrow> create rf0 n = (Inr True, rf1) \<Longrightarrow>
          open_rf rf1 = (Inr True, rf2) \<Longrightarrow> opened rf2"
| o_allocate: "opened rf \<Longrightarrow> opened (snd (allocateNewRun rf))"
| o_write: "opened rf \<Longrightarrow> write_elems rf off xs = Inr rf' \<Longrightarrow> opened rf'"
| o_seal: "opened rf \<Longrightarrow> opened (snd (updateRunMetadata rf runId so ec))"

lemma opened_rf_ok: "opened rf \<Longrightarrow> rf_ok rf"
  by (induction rule: opened.induct)
     (auto intro: rf_ok_create_open rf_ok_allocateNewRun rf_ok_write_elems rf_ok_updateRunMetadata)

lemma reopen_rf_ok:
  assumes "rf_ok rf"
  shows "fst (open_rf (close_rf rf)) = Inr True"
    and "directory (snd (open_rf (close_rf rf))) = directory rf"
    and "disk (snd (open_rf (close_rf rf))) = disk rf"
    and "stream (snd (open_rf (close_rf rf))) = Good"
  using assms
  by (auto simp: open_rf_def close_rf_def rf_ok_def Let_def split: option.splits)

text \<open>
  Claim C7 (run-file round trip). After create, open, and any number of
  \<open>allocateNewRun\<close>, element writes and \<open>updateRunMetadata\<close>, closing the file and
  opening it again succeeds, loads a directory equal to the one in memory before the
  close (which is also the directory on disk), and leaves the data area as it was.
\<close>

theorem runfile_roundtrip:
  assumes "opened rf"
  shows "fst (open_rf (close_rf rf)) = Inr True \<and>
         directory (snd (open_rf (close_rf rf))) = directory rf \<and>
         map_option f_directory (disk (snd (open_rf (close_rf rf)))) = Some (directory rf) \<and>
         map_option f_data (disk (snd (open_rf (close_rf rf)))) = map_option f_data (disk rf)"
  using reopen_rf_ok[OF opened_rf_ok[OF assms]] opened_rf_ok[OF assms]
  by (simp add: rf_ok_def)

definition roundtrip_example :: RunFile where
  "roundtrip_example =
     (let rf1 = snd (create (RunFile_init None) 2);
          rf2 = snd (open_rf rf1);
          rf3 = snd (allocateNewRun rf2);
          off = getAppendOffset rf3
      in case write_elems rf3 off [5, 7, 9] of
           Inl e \<Rightarrow> rf3
         | Inr rf4 \<Rightarrow> snd (updateRunMetadata rf4 0 off 3))"

lemma upt_2: "[0..<2] = [0, 1]" by (simp add: upt_rec)

lemma roundtrip_example_eq:
  "roundtrip_example =
    \<lparr>disk = Some \<lparr>f_header = \<lparr>magic = ''RUNS'', maxRuns = 2, currentRunCount = 0\<rparr>,
                  f_directory = [\<lparr>startOffset = 60, elementCount = 3, isUsed = True\<rparr>,
                                 \<lparr>startOffset = 0, elementCount = 0, isUsed = False\<rparr>],
                  f_data = [5, 7, 9]\<rparr>,
     stream = Good,
     header = \<lparr>magic = ''RUNS'', maxRuns = 2, currentRunCount = 1\<rparr>,
     directory = [\<lparr>startOffset = 60, elementCount = 3, isUsed = True\<rparr>,
                  \<lparr>startOffset = 0, elementCount = 0, isUsed = False\<rparr>]\<rparr>"
  by (simp add: roundtrip_example_def create_def open_rf_def allocateNewRun_def RunFile_init_def
      RunFileHeader_init_def RunMetadata_init_def writeMetadataToDisk_def getAppendOffset_def
      file_size_def data_base_def sizeof_T_def sizeof_RunFileHeader_def sizeof_RunMetadata_def
      write_elems_def elem_index_def updateRunMetadata_def Let_def upt_2 numeral_2_eq_2)

lemma roundtrip_example_opened: "opened roundtrip_example"
proof -
  let ?rf0 = "RunFile_init None"
  let ?rf1 = "snd (create ?rf0 2)"
  let ?rf2 = "snd (open_rf ?rf1)"
  let ?rf3 = "snd (allocateNewRun ?rf2)"
  have c: "create ?rf0 2 = (Inr True, ?rf1)"
    by (simp add: create_def RunFile_init_def Let_def)
  have o: "open_rf ?rf1 = (Inr True, ?rf2)"
    by (simp add: create_def open_rf_def RunFile_init_def RunFileHeader_init_def Let_def)
  have "opened ?rf2"
    by (rule opened.o_fresh[OF _ c o]) (simp add: RunFile_init_def)
  then have o3: "opened ?rf3" by (rule opened.o_allocate)
  obtain rf4 where w: "write_elems ?rf3 (getAppendOffset ?rf3) [5, 7, 9] = Inr rf4"
    by (simp add: create_def open_rf_def allocateNewRun_def RunFile_init_def
      RunFileHeader_init_def RunMetadata_init_def writeMetadataToDisk_def getAppendOffset_def
      file_size_def data_base_def sizeof_T_def sizeof_RunFileHeader_def sizeof_RunMetadata_def
      write_elems_def elem_index_def Let_def upt_2 numeral_2_eq_2)
  have "opened rf4" by (rule opened.o_write[OF o3 w])
  then have "opened (snd (updateRunMetadata rf4 0 (getAppendOffset ?rf3) 3))" by (rule opened.o_seal)
  then show ?thesis using w by (simp add: roundtrip_example_def Let_def)
qed

theorem runfile_roundtrip_witness:
  "opened roundtrip_example \<and>
   fst (open_rf (close_rf roundtrip_example)) = Inr True \<and>
   directory (snd (open_rf (close_rf roundtrip_example))) = directory roundtrip_example \<and>
   map_option f_directory (disk (snd (open_rf (close_rf roundtrip_example)))) =
     Some [\<lparr>startOffset = 60, elementCount = 3, isUsed = True\<rparr>,
           \<lparr>startOffset = 0, elementCount = 0, isUsed = False\<rparr>] \<and>
   map_option f_data (disk (snd (open_rf (close_rf roundtrip_example)))) = Some [5, 7, 9]"
  using runfile_roundtrip[OF roundtrip_example_opened] roundtrip_example_opened
  by (simp add: roundtrip_example_eq)

text \<open>
  The header is written by \<open>create\<close> only: \<open>allocateNewRun\<close> counts in memory,
  and \<open>open_rf\<close> reads the count back from the file.
\<close>

definition reopened_example :: RunFile where
  "reopened_example =
     (let rf1 = snd (create (RunFile_init None) 2);
          rf2 = snd (open_rf rf1);
          rf3 = snd (allocateNewRun rf2);
          rf4 = close_rf rf3
      in snd (open_rf rf4))"

text \<open>
  Claim C8 (\<open>currentRunCount\<close> equals the number of used slots in every state of the
  lifecycle, a reopen included). The code at create(2), open, allocateNewRun, close, open:
  the run file is open again with one slot in use and a \<open>currentRunCount\<close> of 0.
\<close>

theorem reopen_forgets_currentRunCount:
  "currentRunCount (header reopened_example) = 0 \<and> used_count (directory reopened_example) = 1
   \<and> stream reopened_example = Good"
  by (simp add: reopened_example_def create_def open_rf_def allocateNewRun_def RunFile_init_def
      RunFileHeader_init_def RunMetadata_init_def writeMetadataToDisk_def close_rf_def
      used_count_def Let_def upt_2 numeral_2_eq_2)

text \<open>
  Claim C9 (\<open>updateRunMetadata\<close>). On an open run file the call throws
  \<^verbatim>\<open>std::out_of_range\<close> exactly when \<open>runId < 0\<close> or \<open>runId \<ge> maxRuns\<close>, and then
  leaves the object as it was; otherwise it throws nothing, the entry \<open>runId\<close> gets the
  new offset and count in memory and on disk, and the other entries, the header and the
  data area are unchanged.
\<close>

theorem updateRunMetadata_spec:
  assumes "rf_ok rf"
  shows "(fst (updateRunMetadata rf runId so ec) = Some OutOfRange
            \<longleftrightarrow> runId < 0 \<or> runId \<ge> maxRuns (header rf)) \<and>
         (runId < 0 \<or> runId \<ge> maxRuns (header rf)
            \<longrightarrow> snd (updateRunMetadata rf runId so ec) = rf) \<and>
         (\<not> (runId < 0 \<or> runId \<ge> maxRuns (header rf)) \<longrightarrow>
            fst (updateRunMetadata rf runId so ec) = None \<and>
            directory (snd (updateRunMetadata rf runId so ec)) =
              (directory rf)[nat runId := (directory rf ! nat runId)
                                           \<lparr>startOffset := so, elementCount := ec\<rparr>] \<and>
            header (snd (updateRunMetadata rf runId so ec)) = header rf \<and>
            stream (snd (updateRunMetadata rf runId so ec)) = stream rf \<and>
            map_option f_directory (disk (snd (updateRunMetadata rf runId so ec))) =
              Some ((directory rf)[nat runId := (directory rf ! nat runId)
                                           \<lparr>startOffset := so, elementCount := ec\<rparr>]) \<and>
            map_option f_header (disk (snd (updateRunMetadata rf runId so ec))) =
              map_option f_header (disk rf) \<and>
            map_option f_data (disk (snd (updateRunMetadata rf runId so ec))) =
              map_option f_data (disk rf))"
proof -
  obtain d where d: "disk rf = Some d" "f_directory d = directory rf"
    using rf_ok_disk[OF assms] by blast
  have g: "stream rf = Good" "length (directory rf) = nat (maxRuns (header rf))"
    using assms by (simp_all add: rf_ok_def)
  show ?thesis
    using d g
    by (auto simp: updateRunMetadata_def Let_def writeMetadataToDisk_def)
qed


definition update_example :: RunFile where
  "update_example = snd (allocateNewRun (snd (open_rf (snd (create (RunFile_init None) 2)))))"

lemma update_example_eq:
  "update_example =
    \<lparr>disk = Some \<lparr>f_header = \<lparr>magic = ''RUNS'', maxRuns = 2, currentRunCount = 0\<rparr>,
                  f_directory = [\<lparr>startOffset = 0, elementCount = 0, isUsed = True\<rparr>,
                                 \<lparr>startOffset = 0, elementCount = 0, isUsed = False\<rparr>],
                  f_data = []\<rparr>,
     stream = Good,
     header = \<lparr>magic = ''RUNS'', maxRuns = 2, currentRunCount = 1\<rparr>,
     directory = [\<lparr>startOffset = 0, elementCount = 0, isUsed = True\<rparr>,
                  \<lparr>startOffset = 0, elementCount = 0, isUsed = False\<rparr>]\<rparr>"
  by (simp add: update_example_def create_def open_rf_def allocateNewRun_def RunFile_init_def
      RunFileHeader_init_def RunMetadata_init_def writeMetadataToDisk_def Let_def upt_2 numeral_2_eq_2)

theorem updateRunMetadata_spec_witness:
  "rf_ok update_example \<and>
   fst (updateRunMetadata update_example 0 60 3) = None \<and>
   directory (snd (updateRunMetadata update_example 0 60 3)) =
     [\<lparr>startOffset = 60, elementCount = 3, isUsed = True\<rparr>,
      \<lparr>startOffset = 0, elementCount = 0, isUsed = False\<rparr>] \<and>
   map_option f_directory (disk (snd (updateRunMetadata update_example 0 60 3))) =
     Some [\<lparr>startOffset = 60, elementCount = 3, isUsed = True\<rparr>,
           \<lparr>startOffset = 0, elementCount = 0, isUsed = False\<rparr>] \<and>
   header (snd (updateRunMetadata update_example 0 60 3)) = header update_example \<and>
   fst (updateRunMetadata update_example 2 60 3) = Some OutOfRange \<and>
   snd (updateRunMetadata update_example 2 60 3) = update_example \<and>
   fst (updateRunMetadata update_example (- 1) 60 3) = Some OutOfRange"
proof -
  have ok: "rf_ok update_example"
    by (simp add: update_example_eq rf_ok_def)
  have h: "maxRuns (header update_example) = 2" "directory update_example =
     [\<lparr>startOffset = 0, elementCount = 0, isUsed = True\<rparr>,
                  \<lparr>startOffset = 0, elementCount = 0, isUsed = False\<rparr>]"
    by (simp_all add: update_example_eq)
  show ?thesis
    using ok updateRunMetadata_spec[OF ok, of 0 60 3] updateRunMetadata_spec[OF ok, of 2 60 3]
      updateRunMetadata_spec[OF ok, of "- 1" 60 3]
    by (simp add: h)
qed

subsection \<open>LoserTree.h\<close>

record RunNode =
  "value" :: int
  runID :: int

text \<open>The default constructor of \<^verbatim>\<open>RunNode\<close>, which is also the member \<^verbatim>\<open>SENTINEL\<close>.\<close>

definition SENTINEL :: RunNode where
  "SENTINEL = \<lparr>value = T_MAX, runID = INT_MAX\<rparr>"

text \<open>
  The entries of \<^verbatim>\<open>tree\<close> are leaf numbers between \<open>0\<close> and \<open>k\<close>, and the positions in
  \<^verbatim>\<open>tree\<close> and \<^verbatim>\<open>leaves\<close> that the class reads and writes are not negative, so both
  are natural numbers here. Indexing a vector out of range is undefined in C++; the
  lemmas on \<open>lt_wf\<close> below show when the class stays in range.
\<close>

record LoserTree =
  tree :: "nat list"
  leaves :: "RunNode list"
  lt_k :: nat

definition isLoser :: "RunNode \<Rightarrow> RunNode \<Rightarrow> bool" where
  "isLoser playerA playerB =
     (if runID playerA \<noteq> runID playerB then runID playerA > runID playerB
      else value playerA > value playerB)"

definition LoserTree_init :: "int \<Rightarrow> error + LoserTree" where
  "LoserTree_init k0 =
     (if k0 \<le> 0 then Inl InvalidArgument
      else Inr \<lparr>tree = replicate (nat k0) 0,
                leaves = (replicate (nat k0 + 1) SENTINEL)[nat k0 := SENTINEL],
                lt_k = nat k0\<rparr>)"

text \<open>
  The parent of a leaf, \<^verbatim>\<open>int parent = (playerIndex + k) / 2\<close>, is computed in 32-bit
  \<^verbatim>\<open>int\<close>. The sum is above \<open>INT_MAX\<close> for the upper leaves of a tree with more than
  \<open>2^30\<close> leaves. Signed overflow is undefined in C++; the model takes what
  two's-complement hardware computes, the sum wrapped around into the range of
  \<^verbatim>\<open>int\<close>. The division truncates towards zero.
\<close>

definition int32 :: "int \<Rightarrow> int" where
  "int32 x = (x + 2147483648) mod 4294967296 - 2147483648"

definition parent_of :: "nat \<Rightarrow> nat \<Rightarrow> int" where
  "parent_of playerIndex kk =
     (let s = int32 (int playerIndex + int kk)
      in if s < 0 then - ((- s) div 2) else s div 2)"

text \<open>
  The loop of \<^verbatim>\<open>replay\<close>: \<open>parent\<close> and \<open>currentWinner\<close> are its variables, the result
  is \<^verbatim>\<open>tree\<close> and \<open>currentWinner\<close> when the loop ends.
\<close>

function replay_loop :: "RunNode list \<Rightarrow> nat list \<Rightarrow> nat \<Rightarrow> nat \<Rightarrow> nat list \<times> nat" where
  "replay_loop lv tr parent currentWinner =
     (if parent > 0 then
        (if isLoser (lv ! currentWinner) (lv ! (tr ! parent))
         then replay_loop lv (tr[parent := currentWinner]) (parent div 2) (tr ! parent)
         else replay_loop lv tr (parent div 2) currentWinner)
      else (tr, currentWinner))"
  by pat_completeness auto
termination
  by (relation "measure (\<lambda>(lv, tr, parent, currentWinner). parent)") auto

text \<open>
  \<^verbatim>\<open>replay\<close>. A parent that is negative ends the loop before its first round, as the
  parent \<open>0\<close> does that \<open>nat\<close> makes of it.
\<close>

definition replay :: "LoserTree \<Rightarrow> nat \<Rightarrow> LoserTree" where
  "replay t playerIndex =
     (case replay_loop (leaves t) (tree t) (nat (parent_of playerIndex (lt_k t))) playerIndex of
        (tr, currentWinner) \<Rightarrow> t\<lparr>tree := tr[0 := currentWinner]\<rparr>)"

text \<open>
  The inner loop of \<^verbatim>\<open>initialize\<close> for one leaf, with the assignment to \<^verbatim>\<open>tree[0]\<close>
  that follows it when the loop has run up to the root (\<^verbatim>\<open>if (parent == 0)\<close>). It is
  entered with a parent that is not negative.
\<close>

function build_walk :: "RunNode list \<Rightarrow> nat \<Rightarrow> nat list \<Rightarrow> nat \<Rightarrow> nat \<Rightarrow> nat list" where
  "build_walk lv kk tr parent current =
     (if parent > 0 then
        (if tr ! parent = kk then tr[parent := current]
         else
           (if isLoser (lv ! current) (lv ! (tr ! parent))
            then build_walk lv kk (tr[parent := current]) (parent div 2) (tr ! parent)
            else build_walk lv kk tr (parent div 2) current))
      else tr[0 := current])"
  by pat_completeness auto
termination
  by (relation "measure (\<lambda>(lv, kk, tr, parent, current). parent)") auto

text \<open>
  \<^verbatim>\<open>initialize\<close>. For a leaf whose parent comes out negative the loop is not entered and
  \<^verbatim>\<open>tree[0]\<close> is not assigned: the leaf does not enter the tournament.
\<close>

definition initialize :: "LoserTree \<Rightarrow> int list \<Rightarrow> LoserTree" where
  "initialize t initialData =
     (let lv = map (\<lambda>i. if i < length initialData
                          then \<lparr>value = initialData ! i, runID = 1\<rparr>
                          else SENTINEL) [0..<lt_k t] @ [SENTINEL];
          tr0 = replicate (lt_k t) (lt_k t);
          tr = fold (\<lambda>i tr. let parent = parent_of i (lt_k t)
                              in if parent < 0 then tr
                                 else build_walk lv (lt_k t) tr (nat parent) i)
                 (rev [0..<lt_k t]) tr0
      in t\<lparr>tree := tr, leaves := lv\<rparr>)"

definition getWinner :: "LoserTree \<Rightarrow> RunNode" where
  "getWinner t = leaves t ! (tree t ! 0)"

definition replaceWinner :: "LoserTree \<Rightarrow> int \<Rightarrow> int \<Rightarrow> LoserTree" where
  "replaceWinner t newValue newRunID =
     (let idx = tree t ! 0;
          t1 = t\<lparr>leaves := (leaves t)[idx := (leaves t ! idx)\<lparr>value := newValue, runID := newRunID\<rparr>]\<rparr>
      in replay t1 idx)"

definition setWinnerToSentinel :: "LoserTree \<Rightarrow> LoserTree" where
  "setWinnerToSentinel t =
     (let idx = tree t ! 0;
          t1 = t\<lparr>leaves := (leaves t)[idx := SENTINEL]\<rparr>
      in replay t1 idx)"

subsection \<open>Correctness of the loser tree\<close>


subsection \<open>The order of the tournament\<close>

definition nle :: "RunNode \<Rightarrow> RunNode \<Rightarrow> bool" where
  "nle a b = (\<not> isLoser a b)"

lemma nle_refl: "nle a a"
  by (simp add: nle_def isLoser_def)

lemma nle_total: "nle a b \<or> nle b a"
  by (auto simp: nle_def isLoser_def)

lemma nle_trans: "nle a b \<Longrightarrow> nle b c \<Longrightarrow> nle a c"
  by (auto simp: nle_def isLoser_def split: if_splits)

lemma nle_antisym: "nle a b \<Longrightarrow> nle b a \<Longrightarrow> a = (b::RunNode)"
  by (cases a, cases b) (auto simp: nle_def isLoser_def split: if_splits)

lemma isLoser_nle: "isLoser a b \<Longrightarrow> nle b a"
  by (auto simp: nle_def isLoser_def split: if_splits)

subsection \<open>Ancestors in the implicit tree\<close>

definition anc :: "nat \<Rightarrow> nat \<Rightarrow> bool" where
  "anc j m = (\<exists>n. m div 2 ^ n = j)"

lemma div_pow_Suc: "(m::nat) div 2 ^ Suc n = m div 2 ^ n div 2"
  by (simp only: power_Suc2 div_mult2_eq)

lemma div_pow_add: "(m::nat) div 2 ^ (a + b) = m div 2 ^ a div 2 ^ b"
  by (simp only: power_add div_mult2_eq)

lemma anc_refl: "anc m m"
  unfolding anc_def by (rule exI[of _ 0]) simp

lemma anc_half: "anc c m \<Longrightarrow> anc (c div 2) m"
proof -
  assume "anc c m"
  then obtain n where "m div 2 ^ n = c" by (auto simp: anc_def)
  then have "m div 2 ^ Suc n = c div 2"
    by (simp only: div_pow_Suc)
  then show ?thesis unfolding anc_def by blast
qed

lemma anc_trans: "anc a b \<Longrightarrow> anc b c \<Longrightarrow> anc a c"
proof -
  assume "anc a b" "anc b c"
  then obtain n1 n2 where "b div 2 ^ n1 = a" "c div 2 ^ n2 = b" by (auto simp: anc_def)
  then have "c div 2 ^ (n2 + n1) = a"
    by (simp only: div_pow_add)
  then show ?thesis unfolding anc_def by blast
qed

lemma anc_le: "anc j m \<Longrightarrow> j \<le> m"
  by (auto simp: anc_def)

lemma anc_child: "anc (2 * j) m \<Longrightarrow> anc j m" "anc (2 * j + 1) m \<Longrightarrow> anc j m"
  using anc_half[of "2 * j" m] anc_half[of "2 * j + 1" m] by simp_all

lemma anc_step:
  assumes "anc j m" "j \<noteq> m"
  shows "anc (2 * j) m \<or> anc (2 * j + 1) m"
proof -
  from assms obtain n where n: "m div 2 ^ n = j" by (auto simp: anc_def)
  with assms(2) have "n \<noteq> 0" by (cases n) auto
  then obtain n' where n': "n = Suc n'" by (cases n) auto
  let ?c = "m div 2 ^ n'"
  have "?c div 2 = j" using n unfolding n' by (simp only: div_pow_Suc)
  moreover have "\<And>c::nat. c div 2 = j \<Longrightarrow> c = 2 * j \<or> c = 2 * j + 1" by presburger
  ultimately have "?c = 2 * j \<or> ?c = 2 * j + 1" by blast
  moreover have "anc ?c m" unfolding anc_def by blast
  ultimately show ?thesis by auto
qed

lemma anc_children_excl:
  assumes "1 \<le> p" "anc (2 * p) m" "anc (2 * p + 1) m"
  shows False
proof -
  from assms obtain a b where a: "m div 2 ^ a = 2 * p" and b: "m div 2 ^ b = 2 * p + 1"
    by (auto simp: anc_def)
  consider "a = b" | "a < b" | "b < a" by linarith
  then show False
  proof cases
    case 1
    with a b show False by simp
  next
    case 2
    then obtain d where d: "b = a + Suc d" by (metis less_iff_Suc_add add_Suc_right)
    have "m div 2 ^ b = (m div 2 ^ a) div 2 ^ Suc d"
      unfolding d by (simp only: div_pow_add)
    also have "\<dots> = (2 * p) div 2 div 2 ^ d"
      unfolding a by (simp add: div_mult2_eq)
    also have "\<dots> = p div 2 ^ d" by simp
    also have "\<dots> \<le> p" by (simp add: div_le_dividend)
    finally show False using b assms(1) by simp
  next
    case 3
    then obtain d where d: "a = b + Suc d" by (metis less_iff_Suc_add add_Suc_right)
    have "m div 2 ^ a = (m div 2 ^ b) div 2 ^ Suc d"
      unfolding d by (simp only: div_pow_add)
    also have "\<dots> = (2 * p + 1) div 2 div 2 ^ d"
      unfolding b by (simp add: div_mult2_eq)
    also have "\<dots> = p div 2 ^ d" by simp
    also have "\<dots> \<le> p" by (simp add: div_le_dividend)
    finally show False using a assms(1) by simp
  qed
qed

lemma anc_same_level:
  assumes "kk \<le> j" "j < 2 * kk" "kk \<le> m" "m < 2 * kk" "anc j m"
  shows "m = j"
proof (rule ccontr)
  assume "m \<noteq> j"
  with assms(5) have "anc (2 * j) m \<or> anc (2 * j + 1) m" by (auto dest: anc_step)
  then have "2 * j \<le> m" by (auto dest: anc_le)
  with assms show False by simp
qed


subsection \<open>The invariant of the loser tree\<close>

text \<open>
  Node \<open>j\<close> of the implicit tree, \<open>1 \<le> j < 2k\<close>, is internal below \<open>k\<close> and the leaf
  \<open>j - k\<close> from \<open>k\<close> on. The function \<open>w\<close> gives the leaf that has won the tournament
  of the subtree of a node.
\<close>

definition node_ok :: "RunNode list \<Rightarrow> nat list \<Rightarrow> (nat \<Rightarrow> nat) \<Rightarrow> nat \<Rightarrow> bool" where
  "node_ok lv tr w j =
     (((w j = w (2 * j) \<and> tr ! j = w (2 * j + 1)) \<or> (w j = w (2 * j + 1) \<and> tr ! j = w (2 * j)))
      \<and> nle (lv ! w j) (lv ! (tr ! j)))"

definition w_leaves :: "nat \<Rightarrow> (nat \<Rightarrow> nat) \<Rightarrow> bool" where
  "w_leaves kk w = ((\<forall>j. kk \<le> j \<and> j < 2 * kk \<longrightarrow> w j = j - kk) \<and>
                    (\<forall>j. 1 \<le> j \<and> j < 2 * kk \<longrightarrow> w j < kk))"

definition tinv :: "nat \<Rightarrow> RunNode list \<Rightarrow> nat list \<Rightarrow> (nat \<Rightarrow> nat) \<Rightarrow> bool" where
  "tinv kk lv tr w =
     (0 < kk \<and> length tr = kk \<and> w_leaves kk w \<and>
      (\<forall>j. 1 \<le> j \<and> j < kk \<longrightarrow> node_ok lv tr w j) \<and> tr ! 0 = w 1)"

lemma w_leaves_leaf: "w_leaves kk w \<Longrightarrow> kk \<le> j \<Longrightarrow> j < 2 * kk \<Longrightarrow> w j = j - kk"
  by (simp add: w_leaves_def)

lemma w_leaves_range: "w_leaves kk w \<Longrightarrow> 1 \<le> j \<Longrightarrow> j < 2 * kk \<Longrightarrow> w j < kk"
  by (simp add: w_leaves_def)

lemma tinv_winner_below:
  assumes "tinv kk lv tr w" "1 \<le> j" "j < 2 * kk"
  shows "nle (lv ! w 1) (lv ! w j)"
  using assms(2,3)
proof (induction j rule: less_induct)
  case (less j)
  show ?case
  proof (cases "j = 1")
    case True
    then show ?thesis by (simp add: nle_refl)
  next
    case False
    let ?p = "j div 2"
    have p: "1 \<le> ?p" "?p < kk" "?p < j" using less.prems False by auto
    have ih: "nle (lv ! w 1) (lv ! w ?p)" using less.IH[of ?p] p by simp
    have ok: "node_ok lv tr w ?p" using assms(1) p by (simp add: tinv_def)
    have j: "j = 2 * ?p \<or> j = 2 * ?p + 1" by presburger
    from ok j have "w j = w ?p \<or> w j = tr ! ?p"
      unfolding node_ok_def by metis
    then show ?thesis
    proof
      assume "w j = w ?p" with ih show ?thesis by simp
    next
      assume "w j = tr ! ?p"
      moreover have "nle (lv ! w ?p) (lv ! (tr ! ?p))" using ok by (simp add: node_ok_def)
      ultimately show ?thesis using ih nle_trans by metis
    qed
  qed
qed

lemma tinv_winner_min:
  assumes "tinv kk lv tr w" "i < kk"
  shows "nle (lv ! (tr ! 0)) (lv ! i)"
proof -
  have "w (kk + i) = i"
    using assms w_leaves_leaf[of kk w "kk + i"] by (simp add: tinv_def)
  moreover have "nle (lv ! w 1) (lv ! w (kk + i))"
    using tinv_winner_below[OF assms(1), of "kk + i"] assms(2) by simp
  ultimately show ?thesis using assms(1) by (simp add: tinv_def)
qed

lemma tinv_winner_range: "tinv kk lv tr w \<Longrightarrow> tr ! 0 < kk"
  using w_leaves_range[of kk w 1] by (cases "kk = 0") (auto simp: tinv_def)

text \<open>The winner of a node is a leaf of its subtree.\<close>

lemma tinv_w_anc:
  assumes "tinv kk lv tr w" "1 \<le> j" "j < 2 * kk"
  shows "anc j (kk + w j)"
  using assms(2,3)
proof (induction "2 * kk - j" arbitrary: j rule: less_induct)
  case less
  show ?case
  proof (cases "kk \<le> j")
    case True
    then have "w j = j - kk"
      using assms(1) less.prems w_leaves_leaf[of kk w j] by (simp add: tinv_def)
    with True show ?thesis by (simp add: anc_refl)
  next
    case False
    then have ok: "node_ok lv tr w j" using assms(1) less.prems by (simp add: tinv_def)
    have a: "anc (2 * j) (kk + w (2 * j))"
      using less.hyps[of "2 * j"] less.prems False by simp
    have b: "anc (2 * j + 1) (kk + w (2 * j + 1))"
      using less.hyps[of "2 * j + 1"] less.prems False by simp
    from ok have "w j = w (2 * j) \<or> w j = w (2 * j + 1)" by (auto simp: node_ok_def)
    then show ?thesis using a b anc_child by metis
  qed
qed

lemma tinv_tr_anc:
  assumes "tinv kk lv tr w" "1 \<le> j" "j < kk"
  shows "anc j (kk + tr ! j)"
proof -
  have ok: "node_ok lv tr w j" using assms by (simp add: tinv_def)
  have a: "anc (2 * j) (kk + w (2 * j))" using tinv_w_anc[OF assms(1), of "2 * j"] assms by simp
  have b: "anc (2 * j + 1) (kk + w (2 * j + 1))"
    using tinv_w_anc[OF assms(1), of "2 * j + 1"] assms by simp
  from ok have "tr ! j = w (2 * j) \<or> tr ! j = w (2 * j + 1)" by (auto simp: node_ok_def)
  then show ?thesis using a b anc_child by metis
qed

text \<open>On the path from the overall winner's leaf to the root, the winner has won everywhere.\<close>

lemma tinv_path_winner:
  assumes "tinv kk lv tr w" "1 \<le> j" "anc j (kk + w 1)"
  shows "w j = w 1"
  using assms(2,3)
proof (induction j rule: less_induct)
  case (less j)
  have w1: "w 1 < kk" using assms(1) tinv_winner_range[OF assms(1)] by (simp add: tinv_def)
  have jlt: "j < 2 * kk" using anc_le[OF less.prems(2)] w1 by simp
  show ?case
  proof (cases "j = 1")
    case True then show ?thesis by simp
  next
    case False
    let ?p = "j div 2"
    have p: "1 \<le> ?p" "?p < kk" "?p < j" using less.prems False jlt by auto
    have ap: "anc ?p (kk + w 1)" using less.prems(2) by (rule anc_half)
    have wp: "w ?p = w 1" using less.IH[OF p(3) p(1) ap] .
    have ok: "node_ok lv tr w ?p" using assms(1) p by (simp add: tinv_def)
    have j: "j = 2 * ?p \<or> j = 2 * ?p + 1" by presburger
    have a: "anc (2 * ?p) (kk + w (2 * ?p))"
      using tinv_w_anc[OF assms(1), of "2 * ?p"] p by simp
    have b: "anc (2 * ?p + 1) (kk + w (2 * ?p + 1))"
      using tinv_w_anc[OF assms(1), of "2 * ?p + 1"] p by simp
    from ok have "w ?p = w (2 * ?p) \<or> w ?p = w (2 * ?p + 1)" by (auto simp: node_ok_def)
    then show ?thesis
    proof
      assume e: "w ?p = w (2 * ?p)"
      then have "anc (2 * ?p) (kk + w 1)" using a wp by simp
      then have "j \<noteq> 2 * ?p + 1" using anc_children_excl[OF p(1)] less.prems(2) by auto
      with j e wp show ?thesis by simp
    next
      assume e: "w ?p = w (2 * ?p + 1)"
      then have "anc (2 * ?p + 1) (kk + w 1)" using b wp by simp
      then have "j \<noteq> 2 * ?p" using anc_children_excl[OF p(1)] less.prems(2) by auto
      with j e wp show ?thesis by simp
    qed
  qed
qed


declare replay_loop.simps [simp del]
declare build_walk.simps [simp del]

subsection \<open>Replaying a leaf keeps the invariant\<close>

definition pending :: "nat \<Rightarrow> nat \<Rightarrow> bool" where
  "pending c j = (anc j c \<and> j \<noteq> c)"

definition sib :: "nat \<Rightarrow> nat \<Rightarrow> nat" where
  "sib c j = (if anc (2 * j) c then 2 * j + 1 else 2 * j)"

lemma anc_proper: 
  assumes "anc j c" "j \<noteq> c" shows "anc j (c div 2)"
proof -
  from assms obtain n where n: "c div 2 ^ n = j" by (auto simp: anc_def)
  with assms(2) obtain n' where n': "n = Suc n'" by (cases n) auto
  have "c div 2 div 2 ^ n' = j" using n unfolding n' by (simp add: div_mult2_eq)
  then show ?thesis unfolding anc_def by blast
qed

lemma pending_parent: "2 \<le> c \<Longrightarrow> pending c (c div 2)"
  unfolding pending_def using anc_half[OF anc_refl, of c] by auto

lemma pending_iff:
  assumes "1 \<le> c"
  shows "pending c j \<longleftrightarrow> (j = c div 2 \<or> pending (c div 2) j)"
proof
  assume "pending c j"
  then show "j = c div 2 \<or> pending (c div 2) j"
    by (auto simp: pending_def dest: anc_proper)
next
  assume a: "j = c div 2 \<or> pending (c div 2) j"
  have "anc (c div 2) c" by (rule anc_half[OF anc_refl])
  moreover have "c div 2 \<noteq> c" using assms by auto
  moreover have "pending (c div 2) j \<Longrightarrow> j \<noteq> c"
    using assms by (auto simp: pending_def dest!: anc_le)
  ultimately show "pending c j" using a by (auto simp: pending_def intro: anc_trans)
qed

lemma sib_parent:
  assumes "1 \<le> c div 2"
  shows "(c = 2 * (c div 2) \<and> sib c (c div 2) = 2 * (c div 2) + 1) \<or>
         (c = 2 * (c div 2) + 1 \<and> sib c (c div 2) = 2 * (c div 2))"
proof -
  have "c = 2 * (c div 2) \<or> c = 2 * (c div 2) + 1" by presburger
  then show ?thesis
  proof
    assume e: "c = 2 * (c div 2)"
    then have "anc (2 * (c div 2)) c" using anc_refl[of c] by simp
    with e show ?thesis by (simp add: sib_def)
  next
    assume e: "c = 2 * (c div 2) + 1"
    then have "anc (2 * (c div 2) + 1) c" using anc_refl[of c] by simp
    then have "\<not> anc (2 * (c div 2)) c" using anc_children_excl[OF assms] by blast
    with e show ?thesis by (simp add: sib_def)
  qed
qed

lemma sib_pending_parent:
  assumes "1 \<le> j" "pending (c div 2) j"
  shows "sib (c div 2) j = sib c j" "sib c j \<noteq> c div 2"
proof -
  have ap: "anc (c div 2) c" by (rule anc_half[OF anc_refl])
  from assms(2) have "anc (2 * j) (c div 2) \<or> anc (2 * j + 1) (c div 2)"
    by (auto simp: pending_def dest: anc_step)
  moreover have "anc (2 * j + 1) (c div 2) \<Longrightarrow> \<not> anc (2 * j) c"
    using anc_children_excl[OF assms(1), of c] anc_trans[OF _ ap] by blast
  moreover have "anc (2 * j) (c div 2) \<Longrightarrow> anc (2 * j) c"
    using anc_trans[OF _ ap] by blast
  ultimately have eq: "anc (2 * j) (c div 2) \<longleftrightarrow> anc (2 * j) c" by blast
  then show "sib (c div 2) j = sib c j" by (simp add: sib_def)
  show "sib c j \<noteq> c div 2"
  proof
    assume e: "sib c j = c div 2"
    show False
    proof (cases "anc (2 * j) c")
      case True
      then have "2 * j + 1 = c div 2" using e by (simp add: sib_def)
      then have "anc (2 * j + 1) c" using ap by simp
      with True show False using anc_children_excl[OF assms(1)] by blast
    next
      case False
      then have "2 * j = c div 2" using e by (simp add: sib_def)
      then have "anc (2 * j) c" using ap by simp
      with False show False by simp
    qed
  qed
qed

lemma not_pending_children:
  assumes "1 \<le> c" "\<not> pending c j" "j \<noteq> c div 2"
  shows "2 * j \<noteq> c div 2" "2 * j + 1 \<noteq> c div 2"
proof -
  have ap: "anc (c div 2) c" by (rule anc_half[OF anc_refl])
  have *: "j = (c div 2) div 2 \<Longrightarrow> False"
  proof -
    assume e: "j = (c div 2) div 2"
    then have "anc j c" using anc_half[OF ap] by simp
    moreover have "j \<noteq> c" using e assms(1) by auto
    ultimately show False using assms(2) by (simp add: pending_def)
  qed
  show "2 * j \<noteq> c div 2"
  proof
    assume "2 * j = c div 2"
    then have "j = (c div 2) div 2" by presburger
    then show False by (rule *)
  qed
  show "2 * j + 1 \<noteq> c div 2"
  proof
    assume "2 * j + 1 = c div 2"
    then have "j = (c div 2) div 2" by presburger
    then show False by (rule *)
  qed
qed

definition rinv :: "nat \<Rightarrow> RunNode list \<Rightarrow> nat list \<Rightarrow> (nat \<Rightarrow> nat) \<Rightarrow> nat \<Rightarrow> nat \<Rightarrow> bool" where
  "rinv kk lv tr w c cw =
     (0 < kk \<and> length tr = kk \<and> w_leaves kk w \<and> 1 \<le> c \<and> c < 2 * kk \<and> w c = cw \<and>
      (\<forall>j. 1 \<le> j \<and> j < kk \<and> \<not> pending c j \<longrightarrow> node_ok lv tr w j) \<and>
      (\<forall>j. 1 \<le> j \<and> j < kk \<and> pending c j \<longrightarrow> tr ! j = w (sib c j)))"

lemma node_ok_cong:
  assumes "tr2 ! j = tr ! j" "w2 j = w j" "w2 (2 * j) = w (2 * j)" "w2 (2 * j + 1) = w (2 * j + 1)"
  shows "node_ok lv tr2 w2 j = node_ok lv tr w j"
  using assms by (simp add: node_ok_def)

lemma w_leaves_upd:
  assumes "w_leaves kk w" "p < kk" "x < kk"
  shows "w_leaves kk (w(p := x))"
  using assms by (auto simp: w_leaves_def)

lemma replay_loop_tinv:
  assumes "rinv kk lv tr w c cw" "replay_loop lv tr (c div 2) cw = (tr', cw')"
  shows "\<exists>w'. tinv kk lv (tr'[0 := cw']) w'"
  using assms
proof (induction c arbitrary: tr w cw rule: less_induct)
  case (less c)
  note inv = less.prems(1)
  have base: "0 < kk" "length tr = kk" "w_leaves kk w" "1 \<le> c" "c < 2 * kk" "w c = cw"
    using inv by (simp_all add: rinv_def)
  have ok: "\<And>j. 1 \<le> j \<Longrightarrow> j < kk \<Longrightarrow> \<not> pending c j \<Longrightarrow> node_ok lv tr w j"
    using inv by (simp add: rinv_def)
  have pend: "\<And>j. 1 \<le> j \<Longrightarrow> j < kk \<Longrightarrow> pending c j \<Longrightarrow> tr ! j = w (sib c j)"
    using inv by (simp add: rinv_def)
  show ?case
  proof (cases "c div 2 = 0")
    case True
    then have c1: "c = 1" using base(4) by presburger
    have res: "tr' = tr" "cw' = cw"
      using less.prems(2) True by (simp_all add: replay_loop.simps)
    have nopend: "\<not> pending 1 j" if "1 \<le> j" for j
      using that by (auto simp: pending_def dest!: anc_le)
    have "node_ok lv (tr[0 := cw]) w j" if "1 \<le> j" "j < kk" for j
    proof -
      have "node_ok lv tr w j" using ok[OF that] nopend[OF that(1)] c1 by simp
      moreover have "(tr[0 := cw]) ! j = tr ! j" using that by simp
      ultimately show ?thesis by (simp add: node_ok_def)
    qed
    then have "tinv kk lv (tr[0 := cw]) w"
      using base c1 by (simp add: tinv_def)
    then show ?thesis using res by blast
  next
    case False
    define p where "p = c div 2"
    have p: "1 \<le> p" "p < kk" "p < c" "2 \<le> c"
      using False base by (auto simp: p_def)
    define s where "s = sib c p"
    have s: "(c = 2 * p \<and> s = 2 * p + 1) \<or> (c = 2 * p + 1 \<and> s = 2 * p)"
      using sib_parent[of c] p(1) by (simp add: p_def s_def)
    have pp: "pending c p" using pending_parent[OF p(4)] by (simp add: p_def)
    have trp: "tr ! p = w s" using pend[OF p(1) p(2) pp] by (simp add: s_def)
    have s_rng: "1 \<le> s" "s < 2 * kk" "s \<noteq> p" "c \<noteq> p" using s p base by auto
    have ws: "w s < kk" using w_leaves_range[OF base(3) s_rng(1) s_rng(2)] .
    have wc: "cw < kk" using w_leaves_range[OF base(3) base(4) base(5)] base(6) by simp
    define lose where "lose = isLoser (lv ! cw) (lv ! (tr ! p))"
    define tr2 where "tr2 = (if lose then tr[p := cw] else tr)"
    define cw2 where "cw2 = (if lose then tr ! p else cw)"
    define w2 where "w2 = w(p := cw2)"
    have step: "replay_loop lv tr p cw = replay_loop lv tr2 (p div 2) cw2"
      using p(1) by (subst replay_loop.simps) (simp add: lose_def tr2_def cw2_def)
    have tr2p: "tr2 ! p = (if lose then cw else tr ! p)"
      using p(2) base(2) by (simp add: tr2_def)
    have tr2j: "tr2 ! j = tr ! j" if "j \<noteq> p" for j
      using that by (simp add: tr2_def)
    have w2j: "w2 j = w j" if "j \<noteq> p" for j
      using that by (simp add: w2_def)
    have cw2_rng: "cw2 < kk" using ws wc trp by (simp add: cw2_def)
    have okp: "node_ok lv tr2 w2 p"
    proof -
      have ch: "w2 (2 * p) = w (2 * p)" "w2 (2 * p + 1) = w (2 * p + 1)"
        using p(1) by (simp_all add: w2_def)
      have "w2 p = cw2" by (simp add: w2_def)
      moreover have "nle (lv ! cw2) (lv ! (tr2 ! p))"
        using isLoser_nle[of "lv ! cw" "lv ! (tr ! p)"]
        by (auto simp: cw2_def tr2p lose_def nle_def)
      moreover have "(cw2 = w (2 * p) \<and> tr2 ! p = w (2 * p + 1)) \<or>
                     (cw2 = w (2 * p + 1) \<and> tr2 ! p = w (2 * p))"
        using s trp base(6) by (auto simp: cw2_def tr2p)
      ultimately show ?thesis using ch by (simp add: node_ok_def)
    qed
    have inv2: "rinv kk lv tr2 w2 p cw2"
      unfolding rinv_def
    proof (intro conjI allI impI)
      show "0 < kk" by fact
      show "length tr2 = kk" using base(2) by (simp add: tr2_def)
      show "w_leaves kk w2" unfolding w2_def by (rule w_leaves_upd[OF base(3) p(2) cw2_rng])
      show "1 \<le> p" by fact
      show "p < 2 * kk" using p(2) by simp
      show "w2 p = cw2" by (simp add: w2_def)
    next
      fix j assume j: "1 \<le> j \<and> j < kk \<and> \<not> pending p j"
      show "node_ok lv tr2 w2 j"
      proof (cases "j = p")
        case True with okp show ?thesis by simp
      next
        case False
        have np: "\<not> pending c j"
          using j False pending_iff[OF base(4), of j] by (simp add: p_def)
        have ch: "2 * j \<noteq> p" "2 * j + 1 \<noteq> p"
          using not_pending_children[OF base(4) np] False by (simp_all add: p_def)
        have "node_ok lv tr2 w2 j = node_ok lv tr w j"
          using tr2j[OF False] w2j[OF False] w2j[OF ch(1)] w2j[OF ch(2)]
          by (rule node_ok_cong)
        then show ?thesis using ok[of j] j np by simp
      qed
    next
      fix j assume j: "1 \<le> j \<and> j < kk \<and> pending p j"
      then have pj: "pending (c div 2) j" by (simp add: p_def)
      have jp: "j \<noteq> p" using j by (simp add: pending_def)
      have pc: "pending c j" using pending_iff[OF base(4), of j] pj by simp
      have sb: "sib p j = sib c j" "sib c j \<noteq> p"
        using sib_pending_parent[OF _ pj] j by (simp_all add: p_def)
      show "tr2 ! j = w2 (sib p j)"
        using pend[of j] j pc sb jp by (simp add: tr2j w2j)
    qed
    show ?thesis
      using less.IH[OF p(3) inv2] less.prems(2) step by (simp add: p_def)
  qed
qed

text \<open>Overwriting the winner's leaf and replaying it.\<close>

lemma tinv_replace:
  assumes "tinv kk lv tr w"
  shows "\<exists>w'. tinv kk (lv[tr ! 0 := x])
            (case replay_loop (lv[tr ! 0 := x]) tr ((tr ! 0 + kk) div 2) (tr ! 0) of
               (tr', cw') \<Rightarrow> tr'[0 := cw']) w'"
proof -
  define idx where "idx = tr ! 0"
  define m0 where "m0 = kk + idx"
  have b: "0 < kk" "length tr = kk" "w_leaves kk w" "idx = w 1"
    using assms by (simp_all add: tinv_def idx_def)
  have idx: "idx < kk" using tinv_winner_range[OF assms] by (simp add: idx_def)
  have wm0: "w m0 = idx" using w_leaves_leaf[OF b(3), of m0] idx by (simp add: m0_def)
  have path: "w j = idx" if "1 \<le> j" "anc j m0" for j
    using tinv_path_winner[OF assms that(1)] that(2) b(4) by (simp add: m0_def)
  have inv: "rinv kk (lv[idx := x]) tr w m0 idx"
    unfolding rinv_def
  proof (intro conjI allI impI)
    show "0 < kk" "length tr = kk" "w_leaves kk w" by fact+
    show "1 \<le> m0" "m0 < 2 * kk" using idx b(1) by (simp_all add: m0_def)
    show "w m0 = idx" by fact
  next
    fix j assume j: "1 \<le> j \<and> j < kk \<and> \<not> pending m0 j"
    then have na: "\<not> anc j m0" by (auto simp: pending_def m0_def)
    have ok: "node_ok lv tr w j" using assms j by (simp add: tinv_def)
    have "anc j (kk + w j)" using tinv_w_anc[OF assms, of j] j by simp
    with na have 1: "w j \<noteq> idx" by (auto simp: m0_def)
    have "anc j (kk + tr ! j)" using tinv_tr_anc[OF assms, of j] j by simp
    with na have 2: "tr ! j \<noteq> idx" by (auto simp: m0_def)
    from ok 1 2 show "node_ok (lv[idx := x]) tr w j" by (simp add: node_ok_def)
  next
    fix j assume j: "1 \<le> j \<and> j < kk \<and> pending m0 j"
    then have aj: "anc j m0" "j \<noteq> m0" by (simp_all add: pending_def)
    have ok: "node_ok lv tr w j" using assms j by (simp add: tinv_def)
    have wj: "w j = idx" using path[of j] j aj by simp
    from anc_step[OF aj] have ch: "anc (2 * j) m0 \<or> anc (2 * j + 1) m0" .
    have a: "anc (2 * j) (kk + w (2 * j))" using tinv_w_anc[OF assms, of "2 * j"] j by simp
    have c: "anc (2 * j + 1) (kk + w (2 * j + 1))"
      using tinv_w_anc[OF assms, of "2 * j + 1"] j by simp
    from ch show "tr ! j = w (sib m0 j)"
    proof
      assume l: "anc (2 * j) m0"
      then have "\<not> anc (2 * j + 1) m0" using anc_children_excl[of j m0] j by blast
      with c have "w (2 * j + 1) \<noteq> idx" by (auto simp: m0_def)
      with ok wj have "tr ! j = w (2 * j + 1)" by (auto simp: node_ok_def)
      with l show ?thesis by (simp add: sib_def)
    next
      assume r: "anc (2 * j + 1) m0"
      then have l: "\<not> anc (2 * j) m0" using anc_children_excl[of j m0] j by blast
      with a have "w (2 * j) \<noteq> idx" by (auto simp: m0_def)
      with ok wj have "tr ! j = w (2 * j)" by (auto simp: node_ok_def)
      with l show ?thesis by (simp add: sib_def)
    qed
  qed
  obtain tr' cw' where r: "replay_loop (lv[idx := x]) tr (m0 div 2) idx = (tr', cw')"
    by (cases "replay_loop (lv[idx := x]) tr (m0 div 2) idx") auto
  from replay_loop_tinv[OF inv r] obtain w' where "tinv kk (lv[idx := x]) (tr'[0 := cw']) w'" ..
  then show ?thesis using r by (auto simp: idx_def m0_def add.commute)
qed


subsection \<open>Building the tree establishes the invariant\<close>

text \<open>
  While the leaves are entered from the last to the first, \<open>done_at k t j\<close> says that all
  leaves below node \<open>j\<close> have been entered when the leaves at nodes \<open>t\<close> and above have.
\<close>

definition done_at :: "nat \<Rightarrow> nat \<Rightarrow> nat \<Rightarrow> bool" where
  "done_at kk t j = (\<forall>m. kk \<le> m \<and> m < 2 * kk \<and> anc j m \<longrightarrow> t \<le> m)"

lemma done_at_leaf: "kk \<le> j \<Longrightarrow> j < 2 * kk \<Longrightarrow> done_at kk t j \<longleftrightarrow> t \<le> j"
  unfolding done_at_def using anc_same_level[of kk j] anc_refl[of j] by blast

lemma done_at_internal:
  assumes "j < kk"
  shows "done_at kk t j \<longleftrightarrow> done_at kk t (2 * j) \<and> done_at kk t (2 * j + 1)"
proof
  assume d: "done_at kk t j"
  show "done_at kk t (2 * j) \<and> done_at kk t (2 * j + 1)"
    using d unfolding done_at_def by (blast dest: anc_child)
next
  assume d: "done_at kk t (2 * j) \<and> done_at kk t (2 * j + 1)"
  show "done_at kk t j"
    unfolding done_at_def
  proof (intro allI impI)
    fix m assume m: "kk \<le> m \<and> m < 2 * kk \<and> anc j m"
    then have "j \<noteq> m" using assms by auto
    with m have "anc (2 * j) m \<or> anc (2 * j + 1) m" by (auto dest: anc_step)
    with d m show "t \<le> m" unfolding done_at_def by blast
  qed
qed

lemma done_at_path: "kk \<le> m \<Longrightarrow> m < 2 * kk \<Longrightarrow> anc c m \<Longrightarrow> \<not> done_at kk (Suc m) c"
  unfolding done_at_def by auto

lemma done_at_off_path:
  assumes "\<not> anc s m"
  shows "done_at kk (Suc m) s \<longleftrightarrow> done_at kk m s"
  unfolding done_at_def using assms by (metis Suc_leD Suc_leI le_neq_implies_less)

lemma done_at_anc: "anc a b \<Longrightarrow> done_at kk t a \<Longrightarrow> done_at kk t b"
  unfolding done_at_def by (blast intro: anc_trans)

lemma node_has_leaf:
  assumes "1 \<le> j" "j < 2 * kk"
  shows "\<exists>m. kk \<le> m \<and> m < 2 * kk \<and> anc j m"
  using assms
proof (induction "2 * kk - j" arbitrary: j rule: less_induct)
  case less
  show ?case
  proof (cases "kk \<le> j")
    case True
    with less.prems show ?thesis using anc_refl by blast
  next
    case False
    then have "2 * kk - 2 * j < 2 * kk - j" "1 \<le> 2 * j" "2 * j < 2 * kk"
      using less.prems by auto
    then obtain m where "kk \<le> m \<and> m < 2 * kk \<and> anc (2 * j) m"
      using less.hyps[of "2 * j"] by blast
    then show ?thesis using anc_child(1) by blast
  qed
qed

lemma done_at_none: "1 \<le> j \<Longrightarrow> j < 2 * kk \<Longrightarrow> \<not> done_at kk (2 * kk) j"
  using node_has_leaf[of j kk] unfolding done_at_def by fastforce

lemma done_at_all: "done_at kk kk j"
  unfolding done_at_def by simp

lemma anc_root: "1 \<le> j \<Longrightarrow> anc 1 j"
proof (induction j rule: less_induct)
  case (less j)
  show ?case
  proof (cases "j = 1")
    case True then show ?thesis by (simp add: anc_refl)
  next
    case False
    then have "anc 1 (j div 2)" using less.IH[of "j div 2"] less.prems by auto
    moreover have "anc (j div 2) j" by (rule anc_half[OF anc_refl])
    ultimately show ?thesis by (rule anc_trans)
  qed
qed

definition cond_at :: "nat \<Rightarrow> nat \<Rightarrow> RunNode list \<Rightarrow> nat list \<Rightarrow> (nat \<Rightarrow> nat) \<Rightarrow> nat \<Rightarrow> bool" where
  "cond_at kk t lv tr w j =
     (if done_at kk t (2 * j)
      then (if done_at kk t (2 * j + 1) then node_ok lv tr w j else tr ! j = w (2 * j))
      else (if done_at kk t (2 * j + 1) then tr ! j = w (2 * j + 1) else tr ! j = kk))"

definition binv :: "nat \<Rightarrow> nat \<Rightarrow> RunNode list \<Rightarrow> nat list \<Rightarrow> (nat \<Rightarrow> nat) \<Rightarrow> bool" where
  "binv kk t lv tr w =
     (0 < kk \<and> length tr = kk \<and> w_leaves kk w \<and>
      (\<forall>j. 1 \<le> j \<and> j < kk \<longrightarrow> cond_at kk t lv tr w j) \<and>
      (done_at kk t 1 \<longrightarrow> tr ! 0 = w 1))"

definition winv ::
  "nat \<Rightarrow> nat \<Rightarrow> RunNode list \<Rightarrow> nat list \<Rightarrow> (nat \<Rightarrow> nat) \<Rightarrow> nat \<Rightarrow> nat \<Rightarrow> bool" where
  "winv kk m lv tr w c cur =
     (0 < kk \<and> length tr = kk \<and> w_leaves kk w \<and> kk \<le> m \<and> m < 2 * kk \<and>
      1 \<le> c \<and> anc c m \<and> w c = cur \<and> done_at kk m c \<and>
      (\<forall>j. 1 \<le> j \<and> j < kk \<and> pending c j \<longrightarrow> cond_at kk (Suc m) lv tr w j) \<and>
      (\<forall>j. 1 \<le> j \<and> j < kk \<and> \<not> pending c j \<longrightarrow> cond_at kk m lv tr w j))"

lemma cond_at_cong:
  assumes "tr2 ! j = tr ! j" "w2 j = w j" "w2 (2 * j) = w (2 * j)" "w2 (2 * j + 1) = w (2 * j + 1)"
  shows "cond_at kk t lv tr2 w2 j = cond_at kk t lv tr w j"
  using assms by (simp add: cond_at_def node_ok_def)

lemma build_walk_binv:
  assumes "winv kk m lv tr w c cur" "build_walk lv kk tr (c div 2) cur = tr'"
  shows "\<exists>w'. binv kk m lv tr' w'"
  using assms
proof (induction c arbitrary: tr w cur rule: less_induct)
  case (less c)
  note inv = less.prems(1)
  have base: "0 < kk" "length tr = kk" "w_leaves kk w" "kk \<le> m" "m < 2 * kk"
     "1 \<le> c" "anc c m" "w c = cur" "done_at kk m c"
    using inv by (simp_all add: winv_def)
  have c_lt: "c < 2 * kk" using anc_le[OF base(7)] base(5) by simp
  have pend: "\<And>j. 1 \<le> j \<Longrightarrow> j < kk \<Longrightarrow> pending c j \<Longrightarrow> cond_at kk (Suc m) lv tr w j"
    using inv by (simp add: winv_def)
  have npend: "\<And>j. 1 \<le> j \<Longrightarrow> j < kk \<Longrightarrow> \<not> pending c j \<Longrightarrow> cond_at kk m lv tr w j"
    using inv by (simp add: winv_def)
  show ?case
  proof (cases "c div 2 = 0")
    case True
    then have c1: "c = 1" using base(6) by presburger
    have res: "tr' = tr[0 := cur]"
      using less.prems(2) True by (simp add: build_walk.simps)
    have nopend: "\<not> pending 1 j" if "1 \<le> j" for j
      using that by (auto simp: pending_def dest!: anc_le)
    have "cond_at kk m lv (tr[0 := cur]) w j" if "1 \<le> j" "j < kk" for j
    proof -
      have "cond_at kk m lv tr w j" using npend[OF that] nopend[OF that(1)] c1 by simp
      moreover have "(tr[0 := cur]) ! j = tr ! j" using that by simp
      then have "cond_at kk m lv (tr[0 := cur]) w j = cond_at kk m lv tr w j"
        by (rule cond_at_cong) simp_all
      ultimately show ?thesis by simp
    qed
    then have "binv kk m lv (tr[0 := cur]) w"
      using base c1 by (simp add: binv_def)
    then show ?thesis using res by blast
  next
    case False
    define p where "p = c div 2"
    have p: "1 \<le> p" "p < kk" "p < c" "2 \<le> c"
      using False base c_lt by (auto simp: p_def)
    define s where "s = sib c p"
    have s: "(c = 2 * p \<and> s = 2 * p + 1) \<or> (c = 2 * p + 1 \<and> s = 2 * p)"
      using sib_parent[of c] p(1) by (simp add: p_def s_def)
    have pp: "pending c p" using pending_parent[OF p(4)] by (simp add: p_def)
    have ap: "anc p m" using anc_half[OF base(7)] by (simp add: p_def)
    have s_rng: "1 \<le> s" "s < 2 * kk" "s \<noteq> p" "c \<noteq> p" using s p base c_lt by auto
    have ws: "w s < kk" using w_leaves_range[OF base(3) s_rng(1) s_rng(2)] .
    have wc: "cur < kk" using w_leaves_range[OF base(3) base(6) c_lt] base(8) by simp
    have nas: "\<not> anc s m" using s base(7) anc_children_excl[OF p(1), of m] by auto
    have ds: "done_at kk (Suc m) s \<longleftrightarrow> done_at kk m s" by (rule done_at_off_path[OF nas])
    have ndc: "\<not> done_at kk (Suc m) c" by (rule done_at_path[OF base(4) base(5) base(7)])
    have cp: "cond_at kk (Suc m) lv tr w p" by (rule pend[OF p(1) p(2) pp])
    have trp: "tr ! p = (if done_at kk m s then w s else kk)"
      using cp s ndc ds by (auto simp: cond_at_def)
    have off_path: "cond_at kk (Suc m) lv tr w j = cond_at kk m lv tr w j"
      if "\<not> anc (2 * j) m" "\<not> anc (2 * j + 1) m" for j
      using done_at_off_path[OF that(1)] done_at_off_path[OF that(2)] by (simp add: cond_at_def)
    show ?thesis
    proof (cases "tr ! p = kk")
      case True
      with ws trp have nds: "\<not> done_at kk m s" by (auto split: if_splits)
      have res: "tr' = tr[p := cur]"
        using less.prems(2) True p(1) by (subst (asm) build_walk.simps) (simp add: p_def)
      have ndp: "\<not> done_at kk m p" using done_at_internal[OF p(2), of m] nds s by auto
      have "binv kk m lv (tr[p := cur]) w"
        unfolding binv_def
      proof (intro conjI allI impI)
        show "0 < kk" "w_leaves kk w" by fact+
        show "length (tr[p := cur]) = kk" using base(2) by simp
      next
        fix j assume j: "1 \<le> j \<and> j < kk"
        show "cond_at kk m lv (tr[p := cur]) w j"
        proof (cases "j = p")
          case True
          have "(tr[p := cur]) ! p = cur" using p(2) base(2) by simp
          then show ?thesis using True s nds base(8,9) by (auto simp: cond_at_def)
        next
          case False
          have e: "cond_at kk m lv (tr[p := cur]) w j = cond_at kk m lv tr w j"
            by (rule cond_at_cong) (use False in auto)
          show ?thesis
          proof (cases "pending c j")
            case False
            then show ?thesis using e npend[of j] j by simp
          next
            case True
            then have pj: "pending p j"
              using pending_iff[OF base(6), of j] \<open>j \<noteq> p\<close> by (simp add: p_def)
            then have ajp: "anc j p" "j \<noteq> p" by (simp_all add: pending_def)
            have c1: "cond_at kk (Suc m) lv tr w j" using pend[of j] j True by simp
            have ch: "done_at kk (Suc m) ch \<longleftrightarrow> done_at kk m ch"
              if "ch = 2 * j \<or> ch = 2 * j + 1" for ch
            proof (cases "anc ch m")
              case False
              then show ?thesis by (rule done_at_off_path)
            next
              case True
              from anc_step[OF ajp] have "anc (2 * j) p \<or> anc (2 * j + 1) p" .
              then have "anc ch p"
                using that True anc_children_excl[of j m] j anc_trans[OF _ ap] by blast
              then have "\<not> done_at kk m ch" using ndp done_at_anc by blast
              moreover have "\<not> done_at kk (Suc m) ch"
                by (rule done_at_path[OF base(4) base(5) True])
              ultimately show ?thesis by simp
            qed
            have "cond_at kk (Suc m) lv tr w j = cond_at kk m lv tr w j"
              using ch[of "2 * j"] ch[of "2 * j + 1"] by (simp add: cond_at_def)
            then show ?thesis using e c1 by simp
          qed
        qed
      next
        assume "done_at kk m 1"
        then have "done_at kk m p" using done_at_anc[OF anc_root[OF p(1)]] by blast
        with ndp show "(tr[p := cur]) ! 0 = w 1" by simp
      qed
      then show ?thesis using res by blast
    next
      case False
      with trp have dsm: "done_at kk m s" and trp': "tr ! p = w s" by (auto split: if_splits)
      define lose where "lose = isLoser (lv ! cur) (lv ! (tr ! p))"
      define tr2 where "tr2 = (if lose then tr[p := cur] else tr)"
      define cw2 where "cw2 = (if lose then tr ! p else cur)"
      define w2 where "w2 = w(p := cw2)"
      have step: "build_walk lv kk tr p cur = build_walk lv kk tr2 (p div 2) cw2"
        using p(1) False by (subst build_walk.simps) (simp add: lose_def tr2_def cw2_def)
      have tr2p: "tr2 ! p = (if lose then cur else tr ! p)"
        using p(2) base(2) by (simp add: tr2_def)
      have tr2j: "tr2 ! j = tr ! j" if "j \<noteq> p" for j
        using that by (simp add: tr2_def)
      have w2j: "w2 j = w j" if "j \<noteq> p" for j
        using that by (simp add: w2_def)
      have cw2_rng: "cw2 < kk" using ws wc trp' by (simp add: cw2_def)
      have dp: "done_at kk m p" using done_at_internal[OF p(2), of m] dsm base(9) s by auto
      have okp: "node_ok lv tr2 w2 p"
      proof -
        have ch: "w2 (2 * p) = w (2 * p)" "w2 (2 * p + 1) = w (2 * p + 1)"
          using p(1) by (simp_all add: w2_def)
        have "w2 p = cw2" by (simp add: w2_def)
        moreover have "nle (lv ! cw2) (lv ! (tr2 ! p))"
          using isLoser_nle[of "lv ! cur" "lv ! (tr ! p)"]
          by (auto simp: cw2_def tr2p lose_def nle_def)
        moreover have "(cw2 = w (2 * p) \<and> tr2 ! p = w (2 * p + 1)) \<or>
                       (cw2 = w (2 * p + 1) \<and> tr2 ! p = w (2 * p))"
          using s trp' base(8) by (auto simp: cw2_def tr2p)
        ultimately show ?thesis using ch by (simp add: node_ok_def)
      qed
      have inv2: "winv kk m lv tr2 w2 p cw2"
        unfolding winv_def
      proof (intro conjI allI impI)
        show "0 < kk" "kk \<le> m" "m < 2 * kk" "1 \<le> p" "anc p m" "done_at kk m p" by fact+
        show "length tr2 = kk" using base(2) by (simp add: tr2_def)
        show "w_leaves kk w2" unfolding w2_def by (rule w_leaves_upd[OF base(3) p(2) cw2_rng])
        show "w2 p = cw2" by (simp add: w2_def)
      next
        fix j assume j: "1 \<le> j \<and> j < kk \<and> pending p j"
        then have pj: "pending (c div 2) j" by (simp add: p_def)
        have jp: "j \<noteq> p" using j by (simp add: pending_def)
        have pc: "pending c j" using pending_iff[OF base(6), of j] pj by simp
        have c1: "cond_at kk (Suc m) lv tr w j" using pend[of j] j pc by simp
        have ndp': "\<not> done_at kk (Suc m) p" by (rule done_at_path[OF base(4) base(5) ap])
        show "cond_at kk (Suc m) lv tr2 w2 j"
        proof (cases "2 * j = p")
          case True
          have "2 * j + 1 \<noteq> p" using True by simp
          then show ?thesis
            using c1 True ndp' tr2j[OF jp] w2j[of "2 * j + 1"]
            by (simp add: cond_at_def)
        next
          case f1: False
          show ?thesis
          proof (cases "2 * j + 1 = p")
            case True
            then show ?thesis
              using c1 ndp' tr2j[OF jp] w2j[OF f1]
              by (simp add: cond_at_def)
          next
            case False
            have "cond_at kk (Suc m) lv tr2 w2 j = cond_at kk (Suc m) lv tr w j"
              using tr2j[OF jp] w2j[OF jp] w2j[OF f1] w2j[OF False] by (rule cond_at_cong)
            with c1 show ?thesis by simp
          qed
        qed
      next
        fix j assume j: "1 \<le> j \<and> j < kk \<and> \<not> pending p j"
        show "cond_at kk m lv tr2 w2 j"
        proof (cases "j = p")
          case True
          with okp dp show ?thesis
            using done_at_internal[OF p(2), of m] by (simp add: cond_at_def)
        next
          case False
          have np: "\<not> pending c j"
            using j False pending_iff[OF base(6), of j] by (simp add: p_def)
          have ch: "2 * j \<noteq> p" "2 * j + 1 \<noteq> p"
            using not_pending_children[OF base(6) np] False by (simp_all add: p_def)
          have "cond_at kk m lv tr2 w2 j = cond_at kk m lv tr w j"
            using tr2j[OF False] w2j[OF False] w2j[OF ch(1)] w2j[OF ch(2)]
            by (rule cond_at_cong)
          then show ?thesis using npend[of j] j np by simp
        qed
      qed
      show ?thesis
        using less.IH[OF p(3) inv2] less.prems(2) step by (simp add: p_def)
    qed
  qed
qed

lemma binv_enter_leaf:
  assumes "binv kk (Suc m) lv tr w" "kk \<le> m" "m < 2 * kk"
  shows "\<exists>w'. binv kk m lv (build_walk lv kk tr (m div 2) (m - kk)) w'"
proof -
  have b: "0 < kk" "length tr = kk" "w_leaves kk w"
    using assms(1) by (simp_all add: binv_def)
  have c: "\<And>j. 1 \<le> j \<Longrightarrow> j < kk \<Longrightarrow> cond_at kk (Suc m) lv tr w j"
    using assms(1) by (simp add: binv_def)
  have "winv kk m lv tr w m (m - kk)"
    unfolding winv_def
  proof (intro conjI allI impI)
    show "0 < kk" "length tr = kk" "w_leaves kk w" "kk \<le> m" "m < 2 * kk" by fact+
    show "1 \<le> m" using b(1) assms(2) by simp
    show "anc m m" by (rule anc_refl)
    show "w m = m - kk" by (rule w_leaves_leaf[OF b(3) assms(2) assms(3)])
    show "done_at kk m m" using done_at_leaf[OF assms(2) assms(3), of m] by simp
  next
    fix j assume "1 \<le> j \<and> j < kk \<and> pending m j"
    then show "cond_at kk (Suc m) lv tr w j" using c by simp
  next
    fix j assume j: "1 \<le> j \<and> j < kk \<and> \<not> pending m j"
    then have na: "\<not> anc j m" using assms(2) by (auto simp: pending_def)
    then have "\<not> anc (2 * j) m" "\<not> anc (2 * j + 1) m" using anc_child by blast+
    then have "cond_at kk (Suc m) lv tr w j = cond_at kk m lv tr w j"
      using done_at_off_path[of "2 * j" m kk] done_at_off_path[of "2 * j + 1" m kk]
      by (simp add: cond_at_def)
    then show "cond_at kk m lv tr w j" using c j by simp
  qed
  from build_walk_binv[OF this refl] show ?thesis .
qed

lemma build_binv:
  assumes "0 < kk" "n \<le> kk"
  shows "\<exists>w. binv kk (kk + n) lv
           (fold (\<lambda>i tr. build_walk lv kk tr ((i + kk) div 2) i) (rev [n..<kk]) (replicate kk kk)) w"
  using assms(2)
proof (induction "kk - n" arbitrary: n)
  case 0
  then have n: "n = kk" by simp
  define w0 :: "nat \<Rightarrow> nat" where "w0 = (\<lambda>j. if kk \<le> j then j - kk else 0)"
  have "w_leaves kk w0" using assms(1) by (auto simp: w_leaves_def w0_def)
  moreover have "cond_at kk (2 * kk) lv (replicate kk kk) w0 j" if "1 \<le> j" "j < kk" for j
    using that done_at_none[of "2 * j" kk] done_at_none[of "2 * j + 1" kk]
    by (simp add: cond_at_def)
  moreover have "\<not> done_at kk (2 * kk) 1" using done_at_none[of 1 kk] assms(1) by simp
  ultimately have "binv kk (2 * kk) lv (replicate kk kk) w0"
    using assms(1) by (simp add: binv_def)
  then show ?case using n by (auto simp: mult_2)
next
  case (Suc d)
  then have lt: "n < kk" and d: "d = kk - Suc n" by auto
  let ?f = "\<lambda>i tr. build_walk lv kk tr ((i + kk) div 2) i"
  obtain w where w: "binv kk (kk + Suc n) lv (fold ?f (rev [Suc n..<kk]) (replicate kk kk)) w"
    using Suc.hyps(1)[OF d] lt by auto
  have "\<exists>w'. binv kk (kk + n) lv
          (build_walk lv kk (fold ?f (rev [Suc n..<kk]) (replicate kk kk))
             ((kk + n) div 2) (kk + n - kk)) w'"
    using binv_enter_leaf[of kk "kk + n" lv _ w] w lt by simp
  moreover have "fold ?f (rev [n..<kk]) (replicate kk kk) =
      build_walk lv kk (fold ?f (rev [Suc n..<kk]) (replicate kk kk)) ((kk + n) div 2) (kk + n - kk)"
    using lt by (simp add: upt_conv_Cons add.commute)
  ultimately show ?case by simp
qed

lemma binv_tinv: "binv kk kk lv tr w \<Longrightarrow> tinv kk lv tr w"
  by (simp add: binv_def tinv_def cond_at_def done_at_all)

lemma build_tinv:
  assumes "0 < kk"
  shows "\<exists>w. tinv kk lv
           (fold (\<lambda>i tr. build_walk lv kk tr ((i + kk) div 2) i) (rev [0..<kk]) (replicate kk kk)) w"
  using build_binv[OF assms, of 0 lv] binv_tinv by fastforce


subsection \<open>The invariant on the class\<close>

definition lt_wf :: "LoserTree \<Rightarrow> bool" where
  "lt_wf t = (length (leaves t) = lt_k t + 1 \<and> (\<exists>w. tinv (lt_k t) (leaves t) (tree t) w))"

lemma lt_wf_k: "lt_wf t \<Longrightarrow> 0 < lt_k t"
  by (auto simp: lt_wf_def tinv_def)

lemma lt_wf_winner_range: "lt_wf t \<Longrightarrow> tree t ! 0 < lt_k t"
  by (auto simp: lt_wf_def dest: tinv_winner_range)

lemma lt_wf_winner_min: "lt_wf t \<Longrightarrow> i < lt_k t \<Longrightarrow> nle (getWinner t) (leaves t ! i)"
  by (auto simp: lt_wf_def getWinner_def dest: tinv_winner_min)

text \<open>
  Up to \<open>2^30\<close> leaves the sum \<open>playerIndex + k\<close> is within \<^verbatim>\<open>int\<close>, and the parent is
  the one of the implicit tree.
\<close>

lemma int32_range: "- 2147483648 \<le> int32 x \<and> int32 x < 2147483648"
proof -
  have "0 \<le> (x + 2147483648) mod 4294967296" by simp
  moreover have "(x + 2147483648) mod 4294967296 < 4294967296" by simp
  ultimately show ?thesis unfolding int32_def by linarith
qed

lemma int32_small: "0 \<le> x \<Longrightarrow> x < 2147483648 \<Longrightarrow> int32 x = x"
  by (simp add: int32_def)

lemma parent_of_small:
  assumes "i < kk" "kk \<le> 1073741824"
  shows "parent_of i kk = int ((i + kk) div 2)"
proof -
  have "int i + int kk < 2147483648" using assms by simp
  then have "int32 (int i + int kk) = int i + int kk" by (simp add: int32_small)
  then show ?thesis by (simp add: parent_of_def zdiv_int)
qed

text \<open>Above \<open>2^30\<close> leaves it is not: the parent of the last leaf is negative.\<close>

lemma parent_of_overflow: "parent_of 1073741824 1073741825 = - 1073741823"
  by (simp add: parent_of_def int32_def)

lemma parent_of_less:
  assumes "i < kk"
  shows "parent_of i kk < int kk"
proof -
  let ?s = "int32 (int i + int kk)"
  note r = int32_range[of "int i + int kk"]
  show ?thesis
  proof (cases "?s < 0")
    case True
    then have "parent_of i kk \<le> 0" by (simp add: parent_of_def Let_def)
    then show ?thesis using assms by simp
  next
    case False
    then have p: "parent_of i kk = ?s div 2" by (simp add: parent_of_def Let_def)
    show ?thesis
    proof (cases "int i + int kk < 2147483648")
      case True
      then have "?s = int i + int kk" by (simp add: int32_small)
      then show ?thesis using p assms by simp
    next
      case False
      then have "1073741824 < int kk" using assms by simp
      moreover have "?s div 2 < 1073741824" using r by linarith
      ultimately show ?thesis using p by simp
    qed
  qed
qed

lemma replay_leaves [simp]:
  "leaves (replay t p) = leaves t" "lt_k (replay t p) = lt_k t"
  by (simp_all add: replay_def split: prod.splits)

lemma replay_winner:
  assumes "lt_wf t" "lt_k t \<le> 1073741824"
  shows "lt_wf (replay (t\<lparr>leaves := (leaves t)[tree t ! 0 := x]\<rparr>) (tree t ! 0))"
proof -
  from assms obtain w where w: "tinv (lt_k t) (leaves t) (tree t) w"
    and len: "length (leaves t) = lt_k t + 1" by (auto simp: lt_wf_def)
  have p: "nat (parent_of (tree t ! 0) (lt_k t)) = (tree t ! 0 + lt_k t) div 2"
    using parent_of_small[OF lt_wf_winner_range[OF assms(1)] assms(2)] by simp
  from tinv_replace[OF w, of x] obtain w' where
    "tinv (lt_k t) ((leaves t)[tree t ! 0 := x])
       (case replay_loop ((leaves t)[tree t ! 0 := x]) (tree t) ((tree t ! 0 + lt_k t) div 2)
               (tree t ! 0) of (tr', cw') \<Rightarrow> tr'[0 := cw']) w'" ..
  then show ?thesis
    using len by (auto simp: lt_wf_def replay_def p split: prod.splits)
qed

lemma RunNode_update_all: "(x::RunNode)\<lparr>value := v, runID := r\<rparr> = \<lparr>value = v, runID = r\<rparr>"
  by (cases x) simp

text \<open>The mutators write the winner's leaf and no other, whatever the size of the tree.\<close>

lemma replaceWinner_leaves:
  "leaves (replaceWinner t v r) = (leaves t)[tree t ! 0 := \<lparr>value = v, runID = r\<rparr>]"
  "lt_k (replaceWinner t v r) = lt_k t"
  by (simp_all add: replaceWinner_def Let_def RunNode_update_all)

lemma setWinnerToSentinel_leaves:
  "leaves (setWinnerToSentinel t) = (leaves t)[tree t ! 0 := SENTINEL]"
  "lt_k (setWinnerToSentinel t) = lt_k t"
  by (simp_all add: setWinnerToSentinel_def Let_def)

lemma replaceWinner_wf:
  assumes "lt_wf t" "lt_k t \<le> 1073741824"
  shows "lt_wf (replaceWinner t v r)"
  using replay_winner[OF assms, of "\<lparr>value = v, runID = r\<rparr>"]
  by (simp add: replaceWinner_def Let_def RunNode_update_all)

lemma setWinnerToSentinel_wf:
  assumes "lt_wf t" "lt_k t \<le> 1073741824"
  shows "lt_wf (setWinnerToSentinel t)"
  using replay_winner[OF assms, of SENTINEL]
  by (simp add: setWinnerToSentinel_def Let_def)

lemma LoserTree_init_Inr:
  "LoserTree_init kk = Inr t \<Longrightarrow> 0 < kk \<and> lt_k t = nat kk"
  by (auto simp: LoserTree_init_def split: if_splits)

lemma initialize_leaves:
  "leaves (initialize t initialData) =
           map (\<lambda>i. if i < length initialData then \<lparr>value = initialData ! i, runID = 1\<rparr>
                     else SENTINEL) [0..<lt_k t] @ [SENTINEL]"
  "lt_k (initialize t initialData) = lt_k t"
  by (simp_all add: initialize_def Let_def)

lemma initialize_wf:
  assumes "0 < lt_k t" "lt_k t \<le> 1073741824"
  shows "lt_wf (initialize t initialData)"
proof -
  let ?lv = "map (\<lambda>i. if i < length initialData then \<lparr>value = initialData ! i, runID = 1\<rparr>
                     else SENTINEL) [0..<lt_k t] @ [SENTINEL]"
  have "fold (\<lambda>i tr. let parent = parent_of i (lt_k t)
                      in if parent < 0 then tr else build_walk ?lv (lt_k t) tr (nat parent) i)
          (rev [0..<lt_k t]) (replicate (lt_k t) (lt_k t))
        = fold (\<lambda>i tr. build_walk ?lv (lt_k t) tr ((i + lt_k t) div 2) i)
          (rev [0..<lt_k t]) (replicate (lt_k t) (lt_k t))"
    by (rule fold_cong) (simp_all add: parent_of_small[OF _ assms(2)])
  then show ?thesis
    using build_tinv[OF assms(1), of ?lv]
    by (auto simp: initialize_def Let_def lt_wf_def)
qed

text \<open>
  Whatever the size of the tree, \<open>initialize\<close> leaves leaf numbers between \<open>0\<close> and \<open>k\<close>
  in \<^verbatim>\<open>tree\<close>.
\<close>

lemma build_walk_range:
  assumes "length tr = kk" "\<forall>j<kk. tr ! j \<le> kk" "cur \<le> kk" "p < kk"
  shows "length (build_walk lv kk tr p cur) = kk \<and> (\<forall>j<kk. build_walk lv kk tr p cur ! j \<le> kk)"
  using assms
proof (induction lv kk tr p cur rule: build_walk.induct)
  case (1 lv kk tr p cur)
  show ?case
  proof (cases "p > 0")
    case False
    then show ?thesis using "1.prems"
      by (subst (1 2) build_walk.simps) (auto simp: nth_list_update)
  next
    case True
    show ?thesis
    proof (cases "tr ! p = kk")
      case e: True
      then show ?thesis using "1.prems" True
        by (subst (1 2) build_walk.simps) (auto simp: nth_list_update)
    next
      case ne: False
      have tp: "tr ! p \<le> kk" using "1.prems"(2,4) by simp
      have p2: "p div 2 < kk" using "1.prems"(4) by simp
      show ?thesis
      proof (cases "isLoser (lv ! cur) (lv ! (tr ! p))")
        case l: True
        have a: "length (tr[p := cur]) = kk" "\<forall>j<kk. tr[p := cur] ! j \<le> kk"
          using "1.prems" by (auto simp: nth_list_update)
        from "1.IH"(1)[OF True ne l a tp p2] show ?thesis
          using True ne l by (subst (1 2) build_walk.simps) simp
      next
        case nl: False
        from "1.IH"(2)[OF True ne nl "1.prems"(1,2,3) p2] show ?thesis
          using True ne nl by (subst (1 2) build_walk.simps) simp
      qed
    qed
  qed
qed

lemma build_fold_range:
  assumes "length tr = kk" "\<forall>j<kk. tr ! j \<le> kk" "\<forall>i \<in> set is. i < kk"
  shows "length (fold (\<lambda>i tr. let parent = parent_of i kk
                        in if parent < 0 then tr else build_walk lv kk tr (nat parent) i) is tr) = kk \<and>
         (\<forall>j<kk. fold (\<lambda>i tr. let parent = parent_of i kk
                        in if parent < 0 then tr else build_walk lv kk tr (nat parent) i) is tr ! j \<le> kk)"
  using assms
proof (induction "is" arbitrary: tr)
  case Nil
  then show ?case by simp
next
  case (Cons i "is")
  let ?f = "\<lambda>i tr. let parent = parent_of i kk
                        in if parent < 0 then tr else build_walk lv kk tr (nat parent) i"
  have i: "i < kk" using Cons.prems(3) by simp
  have "length (?f i tr) = kk \<and> (\<forall>j<kk. ?f i tr ! j \<le> kk)"
  proof (cases "parent_of i kk < 0")
    case True
    then show ?thesis using Cons.prems(1,2) by (simp add: Let_def)
  next
    case False
    have "nat (parent_of i kk) < kk" using parent_of_less[OF i] False by simp
    from build_walk_range[OF Cons.prems(1,2) _ this, of i lv] i False
    show ?thesis by (simp add: Let_def)
  qed
  then have "length (fold ?f is (?f i tr)) = kk \<and> (\<forall>j<kk. fold ?f is (?f i tr) ! j \<le> kk)"
    using Cons.IH[of "?f i tr"] Cons.prems(3) by simp
  then show ?case by simp
qed

lemma initialize_range:
  assumes "0 < lt_k t"
  shows "tree (initialize t initialData) ! 0 \<le> lt_k t"
proof -
  let ?lv = "map (\<lambda>i. if i < length initialData then \<lparr>value = initialData ! i, runID = 1\<rparr>
                     else SENTINEL) [0..<lt_k t] @ [SENTINEL]"
  have "\<forall>j<lt_k t. fold (\<lambda>i tr. let parent = parent_of i (lt_k t)
                        in if parent < 0 then tr else build_walk ?lv (lt_k t) tr (nat parent) i)
          (rev [0..<lt_k t]) (replicate (lt_k t) (lt_k t)) ! j \<le> lt_k t"
    using build_fold_range[of "replicate (lt_k t) (lt_k t)" "lt_k t" "rev [0..<lt_k t]" ?lv]
    by simp
  then show ?thesis using assms by (simp add: initialize_def Let_def)
qed


subsection \<open>The loser tree against a linear scan\<close>

text \<open>
  The reference of the specification: the \<open>k\<close> slots are kept in a list, the winner is
  the first slot whose key \<open>(runID, value)\<close> is least in the lexicographic order, found
  by a scan over the slots, and both mutators overwrite that slot.
\<close>

definition key_less :: "RunNode \<Rightarrow> RunNode \<Rightarrow> bool" where
  "key_less a b = (runID a < runID b \<or> (runID a = runID b \<and> value a < value b))"

definition naive_select :: "RunNode list \<Rightarrow> nat" where
  "naive_select slots =
     fold (\<lambda>i best. if key_less (slots ! i) (slots ! best) then i else best) [1..<length slots] 0"

definition naive_initialize :: "nat \<Rightarrow> int list \<Rightarrow> RunNode list" where
  "naive_initialize kk initialData =
     map (\<lambda>i. if i < length initialData then \<lparr>value = initialData ! i, runID = 1\<rparr>
               else SENTINEL) [0..<kk]"

definition naive_getWinner :: "RunNode list \<Rightarrow> RunNode" where
  "naive_getWinner slots = slots ! naive_select slots"

datatype tree_op = ReplaceWinner int int | SetWinnerToSentinel

fun naive_apply :: "RunNode list \<Rightarrow> tree_op \<Rightarrow> RunNode list" where
  "naive_apply slots (ReplaceWinner v r) = slots[naive_select slots := \<lparr>value = v, runID = r\<rparr>]"
| "naive_apply slots SetWinnerToSentinel = slots[naive_select slots := SENTINEL]"

fun naive_winners :: "RunNode list \<Rightarrow> tree_op list \<Rightarrow> RunNode list" where
  "naive_winners slots [] = [naive_getWinner slots]"
| "naive_winners slots (x # xs) = naive_getWinner slots # naive_winners (naive_apply slots x) xs"

text \<open>The same stream of operations on the class.\<close>

fun tree_apply :: "LoserTree \<Rightarrow> tree_op \<Rightarrow> LoserTree" where
  "tree_apply t (ReplaceWinner v r) = replaceWinner t v r"
| "tree_apply t SetWinnerToSentinel = setWinnerToSentinel t"

fun tree_winners :: "LoserTree \<Rightarrow> tree_op list \<Rightarrow> RunNode list" where
  "tree_winners t [] = [getWinner t]"
| "tree_winners t (x # xs) = getWinner t # tree_winners (tree_apply t x) xs"

lemma key_less_isLoser: "key_less a b \<longleftrightarrow> isLoser b a"
  by (auto simp: key_less_def isLoser_def)

lemma naive_scan:
  assumes "1 \<le> n"
  shows "fold (\<lambda>i best. if key_less (slots ! i) (slots ! best) then i else best) [1..<n] 0 < n \<and>
         (\<forall>i<n. nle (slots ! fold (\<lambda>i best. if key_less (slots ! i) (slots ! best) then i else best)
                               [1..<n] 0) (slots ! i))"
  using assms
proof (induction n)
  case 0
  then show ?case by simp
next
  case (Suc n)
  let ?f = "\<lambda>i best. if key_less (slots ! i) (slots ! best) then i else best"
  show ?case
  proof (cases "n = 0")
    case True
    then show ?thesis by (simp add: nle_refl)
  next
    case False
    then have ih: "fold ?f [1..<n] 0 < n" "\<And>i. i < n \<Longrightarrow> nle (slots ! fold ?f [1..<n] 0) (slots ! i)"
      using Suc.IH by auto
    have step: "fold ?f [1..<Suc n] 0 = ?f n (fold ?f [1..<n] 0)"
      using False by simp
    show ?thesis
    proof (cases "key_less (slots ! n) (slots ! fold ?f [1..<n] 0)")
      case True
      then have b: "fold ?f [1..<Suc n] 0 = n" using step by simp
      have "nle (slots ! n) (slots ! fold ?f [1..<n] 0)"
        using True by (simp add: key_less_isLoser isLoser_nle)
      then have "nle (slots ! n) (slots ! i)" if "i < n" for i
        using ih(2)[OF that] nle_trans by blast
      then show ?thesis using b by (auto simp: less_Suc_eq nle_refl)
    next
      case False
      then have b: "fold ?f [1..<Suc n] 0 = fold ?f [1..<n] 0" using step by simp
      have "nle (slots ! fold ?f [1..<n] 0) (slots ! n)"
        using False by (simp add: key_less_isLoser nle_def)
      then show ?thesis using b ih by (auto simp: less_Suc_eq)
    qed
  qed
qed

lemma naive_select_min:
  assumes "slots \<noteq> []"
  shows "naive_select slots < length slots"
    and "i < length slots \<Longrightarrow> nle (slots ! naive_select slots) (slots ! i)"
proof -
  have "1 \<le> length slots" using assms by (cases slots) auto
  from naive_scan[OF this, of slots]
  show "naive_select slots < length slots"
    and "i < length slots \<Longrightarrow> nle (slots ! naive_select slots) (slots ! i)"
    by (simp_all add: naive_select_def)
qed

definition tree_rel :: "LoserTree \<Rightarrow> RunNode list \<Rightarrow> bool" where
  "tree_rel t slots =
     (lt_wf t \<and> lt_k t \<le> 1073741824 \<and> mset (take (lt_k t) (leaves t)) = mset slots)"

lemma tree_rel_winner:
  assumes "tree_rel t slots"
  shows "getWinner t = naive_getWinner slots"
proof -
  have wf: "lt_wf t" and ms: "mset (take (lt_k t) (leaves t)) = mset slots"
    using assms by (simp_all add: tree_rel_def)
  have len: "length (leaves t) = lt_k t + 1" using wf by (simp add: lt_wf_def)
  have kpos: "0 < lt_k t" by (rule lt_wf_k[OF wf])
  have "length (take (lt_k t) (leaves t)) = length slots" using ms by (rule mset_eq_length)
  then have slen: "length slots = lt_k t" using len by simp
  then have ne: "slots \<noteq> []" using kpos by auto
  let ?a = "getWinner t" and ?b = "naive_getWinner slots"
  have a_in: "?a \<in> set (take (lt_k t) (leaves t))"
    using lt_wf_winner_range[OF wf] len by (auto simp: getWinner_def in_set_conv_nth)
  have b_in: "?b \<in> set slots"
    using naive_select_min(1)[OF ne] by (simp add: naive_getWinner_def)
  have a_min: "nle ?a x" if "x \<in> set (take (lt_k t) (leaves t))" for x
    using that lt_wf_winner_min[OF wf] len by (auto simp: in_set_conv_nth)
  have b_min: "nle ?b x" if "x \<in> set slots" for x
    using that naive_select_min(2)[OF ne] by (auto simp: in_set_conv_nth naive_getWinner_def)
  have sets: "set (take (lt_k t) (leaves t)) = set slots" using ms by (rule mset_eq_setD)
  have "nle ?a ?b" using a_min[of ?b] b_in sets by simp
  moreover have "nle ?b ?a" using b_min[of ?a] a_in sets by simp
  ultimately show ?thesis by (rule nle_antisym)
qed

lemma tree_rel_update:
  assumes "tree_rel t slots" "lt_wf t'" "lt_k t' = lt_k t" "leaves t' = (leaves t)[tree t ! 0 := x]"
  shows "tree_rel t' (slots[naive_select slots := x])"
proof -
  have wf: "lt_wf t" and ms: "mset (take (lt_k t) (leaves t)) = mset slots"
    using assms by (simp_all add: tree_rel_def)
  have len: "length (leaves t) = lt_k t + 1" using wf by (simp add: lt_wf_def)
  have kpos: "0 < lt_k t" by (rule lt_wf_k[OF wf])
  have "length (take (lt_k t) (leaves t)) = length slots" using ms by (rule mset_eq_length)
  then have slen: "length slots = lt_k t" using len by simp
  then have ne: "slots \<noteq> []" using kpos by auto
  have idx: "tree t ! 0 < lt_k t" by (rule lt_wf_winner_range[OF wf])
  have sel: "naive_select slots < length slots" by (rule naive_select_min(1)[OF ne])
  have same: "take (lt_k t) (leaves t) ! (tree t ! 0) = slots ! naive_select slots"
    using tree_rel_winner[OF assms(1)] idx by (simp add: getWinner_def naive_getWinner_def)
  have "mset (take (lt_k t) ((leaves t)[tree t ! 0 := x]))
          = mset ((take (lt_k t) (leaves t))[tree t ! 0 := x])"
    using idx by (simp add: take_update_swap)
  also have "\<dots> = mset (take (lt_k t) (leaves t)) - {#take (lt_k t) (leaves t) ! (tree t ! 0)#} + {#x#}"
    using idx len by (simp add: mset_update)
  also have "\<dots> = mset slots - {#slots ! naive_select slots#} + {#x#}"
    using ms same by simp
  also have "\<dots> = mset (slots[naive_select slots := x])"
    using sel by (simp add: mset_update)
  finally show ?thesis using assms by (simp add: tree_rel_def)
qed

lemma tree_rel_apply:
  assumes "tree_rel t slots"
  shows "tree_rel (tree_apply t x) (naive_apply slots x)"
proof -
  have wf: "lt_wf t" and bd: "lt_k t \<le> 1073741824" using assms by (simp_all add: tree_rel_def)
  show ?thesis
  proof (cases x)
    case (ReplaceWinner v r)
    then show ?thesis
      using tree_rel_update[OF assms replaceWinner_wf[OF wf bd] replaceWinner_leaves(2)
          replaceWinner_leaves(1)]
      by simp
  next
    case SetWinnerToSentinel
    then show ?thesis
      using tree_rel_update[OF assms setWinnerToSentinel_wf[OF wf bd] setWinnerToSentinel_leaves(2)
          setWinnerToSentinel_leaves(1)]
      by simp
  qed
qed

lemma tree_rel_winners:
  "tree_rel t slots \<Longrightarrow> tree_winners t ops = naive_winners slots ops"
proof (induction ops arbitrary: t slots)
  case Nil
  then show ?case by (simp add: tree_rel_winner)
next
  case (Cons x xs)
  then show ?case using tree_rel_apply[OF Cons.prems, of x]
    by (simp add: tree_rel_winner)
qed

lemma tree_rel_initialize:
  assumes "LoserTree_init kk = Inr t0" "kk \<le> 1073741824"
  shows "tree_rel (initialize t0 initialData) (naive_initialize (nat kk) initialData)"
proof -
  have k: "0 < lt_k t0" "lt_k t0 = nat kk" using LoserTree_init_Inr[OF assms(1)] by auto
  have bd: "lt_k t0 \<le> 1073741824" using k assms(2) by simp
  show ?thesis
    using initialize_wf[OF k(1) bd, of initialData] k(2) bd
    by (simp add: tree_rel_def naive_initialize_def initialize_leaves)
qed

text \<open>
  Claim C5 (loser-tree equivalence). For a tree of \<open>k\<close> slots made by the constructor,
  with \<open>k\<close> at most \<open>2^30\<close> so that the sums \<open>playerIndex + k\<close> of the class stay within
  \<^verbatim>\<open>int\<close>, initialised with \<open>m \<le> k\<close> elements, and for every stream of \<open>replaceWinner\<close>
  and \<open>setWinnerToSentinel\<close> operations, the results of \<open>getWinner\<close> after the
  initialisation and after each operation are those of the linear scan on the list of
  slots.
\<close>

theorem loser_tree_equals_linear_scan:
  assumes "LoserTree_init kk = Inr t0" "kk \<le> 1073741824" "length initialData \<le> nat kk"
  shows "tree_winners (initialize t0 initialData) ops
           = naive_winners (naive_initialize (nat kk) initialData) ops"
  by (rule tree_rel_winners[OF tree_rel_initialize[OF assms(1,2)]])


theorem loser_tree_equals_linear_scan_witness:
  "LoserTree_init 3 = Inr \<lparr>tree = [0, 0, 0], leaves = [SENTINEL, SENTINEL, SENTINEL, SENTINEL], lt_k = 3\<rparr> \<and>
   (3 :: int) \<le> 1073741824 \<and> length [5, 3 :: int] \<le> nat 3 \<and>
   tree_winners (initialize \<lparr>tree = [0, 0, 0], leaves = [SENTINEL, SENTINEL, SENTINEL, SENTINEL], lt_k = 3\<rparr> [5, 3])
       [ReplaceWinner 7 1, ReplaceWinner 4 2, SetWinnerToSentinel]
     = [\<lparr>value = 3, runID = 1\<rparr>, \<lparr>value = 5, runID = 1\<rparr>, \<lparr>value = 7, runID = 1\<rparr>,
        \<lparr>value = 4, runID = 2\<rparr>]"
proof -
  have h1: "LoserTree_init 3 = Inr \<lparr>tree = [0, 0, 0], leaves = [SENTINEL, SENTINEL, SENTINEL, SENTINEL], lt_k = 3\<rparr>"
    by (simp add: LoserTree_init_def numeral_3_eq_3)
  have h2: "(3 :: int) \<le> 1073741824" by simp
  have h3: "length [5, 3 :: int] \<le> nat 3" by simp
  have n: "naive_winners (naive_initialize (nat 3) [5, 3])
             [ReplaceWinner 7 1, ReplaceWinner 4 2, SetWinnerToSentinel]
     = [\<lparr>value = 3, runID = 1\<rparr>, \<lparr>value = 5, runID = 1\<rparr>, \<lparr>value = 7, runID = 1\<rparr>,
        \<lparr>value = 4, runID = 2\<rparr>]"
    by code_simp
  show ?thesis
    using loser_tree_equals_linear_scan[OF h1 h2 h3,
        of "[ReplaceWinner 7 1, ReplaceWinner 4 2, SetWinnerToSentinel]"] h1 n
    by simp
qed

subsection \<open>InputBuffer.h\<close>

record InputBuffer =
  ib_runMeta :: RunMetadata
  ib_bufferSizeInElements :: int
  ib_buffer :: "int list"
  currentIndexInBuffer :: int
  elementsInBuffer :: int
  totalElementsRead :: int

definition InputBuffer_init :: "RunMetadata \<Rightarrow> int \<Rightarrow> error + InputBuffer" where
  "InputBuffer_init meta bufferSize =
     (if bufferSize < 0 then Inl LengthError
      else Inr \<lparr>ib_runMeta = meta, ib_bufferSizeInElements = bufferSize,
                ib_buffer = replicate (nat bufferSize) 0,
                currentIndexInBuffer = 0, elementsInBuffer = 0, totalElementsRead = 0\<rparr>)"

definition readBlock :: "RunFile \<Rightarrow> InputBuffer \<Rightarrow> error + (bool \<times> InputBuffer)" where
  "readBlock rf ib =
     (if totalElementsRead ib \<ge> elementCount (ib_runMeta ib) then Inr (False, ib)
      else
        let elementsRemainingInRun = elementCount (ib_runMeta ib) - totalElementsRead ib;
            elementsToRead = min (ib_bufferSizeInElements ib) elementsRemainingInRun
        in if elementsToRead \<le> 0 then Inr (False, ib)
           else
             let readOffset = startOffset (ib_runMeta ib) + totalElementsRead ib * sizeof_T
             in (case read_elems rf readOffset (nat elementsToRead) of
                   Inl e \<Rightarrow> Inl e
                 | Inr xs \<Rightarrow>
                     Inr (True, ib\<lparr>ib_buffer := xs,
                                    elementsInBuffer := elementsToRead,
                                    totalElementsRead := totalElementsRead ib + elementsToRead,
                                    currentIndexInBuffer := 0\<rparr>)))"

text \<open>
  \<^verbatim>\<open>getNextItem\<close>: \<open>None\<close> stands for the result \<^verbatim>\<open>false\<close>, \<open>Some x\<close> for \<^verbatim>\<open>true\<close>
  with \<open>x\<close> stored in the reference parameter.
\<close>

definition getNextItem :: "RunFile \<Rightarrow> InputBuffer \<Rightarrow> error + (int option \<times> InputBuffer)" where
  "getNextItem rf ib =
     (case (if currentIndexInBuffer ib \<ge> elementsInBuffer ib then readBlock rf ib
            else Inr (True, ib)) of
        Inl e \<Rightarrow> Inl e
      | Inr (ok, ib1) \<Rightarrow>
          if \<not> ok then Inr (None, ib1)
          else Inr (Some (ib_buffer ib1 ! nat (currentIndexInBuffer ib1)),
                    ib1\<lparr>currentIndexInBuffer := currentIndexInBuffer ib1 + 1\<rparr>))"

text \<open>
  Reading a run to its end through an \<open>InputBuffer\<close>, as \<^verbatim>\<open>verifySortedRun\<close> of the
  main program does. The number of elements that are still to come bounds the loop.
\<close>

definition ib_remaining :: "InputBuffer \<Rightarrow> nat" where
  "ib_remaining ib =
     nat (elementCount (ib_runMeta ib) - totalElementsRead ib) +
     nat (elementsInBuffer ib - currentIndexInBuffer ib)"

lemma getNextItem_remaining:
  assumes "getNextItem rf ib = Inr (r, ib1)"
  shows "(r = None \<longrightarrow> ib_remaining ib1 = ib_remaining ib) \<and>
         (r \<noteq> None \<longrightarrow> ib_remaining ib1 < ib_remaining ib)"
  using assms
  by (auto simp: getNextItem_def readBlock_def ib_remaining_def Let_def
           split: if_splits sum.splits prod.splits)

function read_all :: "RunFile \<Rightarrow> InputBuffer \<Rightarrow> error + int list" where
  "read_all rf ib =
     (case getNextItem rf ib of
        Inl e \<Rightarrow> Inl e
      | Inr (None, ib1) \<Rightarrow> Inr []
      | Inr (Some x, ib1) \<Rightarrow>
          (case read_all rf ib1 of Inl e \<Rightarrow> Inl e | Inr xs \<Rightarrow> Inr (x # xs)))"
  by pat_completeness auto
termination
  by (relation "measure (\<lambda>(rf, ib). ib_remaining ib)")
     (auto dest: getNextItem_remaining)

definition read_run :: "RunFile \<Rightarrow> RunMetadata \<Rightarrow> int \<Rightarrow> error + int list" where
  "read_run rf meta bufferSize =
     (case InputBuffer_init meta bufferSize of
        Inl e \<Rightarrow> Inl e
      | Inr ib \<Rightarrow> read_all rf ib)"

subsection \<open>OutputBuffer.h\<close>

record OutputBuffer =
  ob_runStartOffset :: int
  ob_bufferSizeInElements :: int
  ob_buffer :: "int list"
  currentBufferIndex :: int
  totalElementsWritten :: int

definition OutputBuffer_init :: "int \<Rightarrow> int \<Rightarrow> error + OutputBuffer" where
  "OutputBuffer_init start_offset bufferSize =
     (if bufferSize < 0 then Inl LengthError
      else Inr \<lparr>ob_runStartOffset = start_offset, ob_bufferSizeInElements = bufferSize,
                ob_buffer = replicate (nat bufferSize) 0,
                currentBufferIndex = 0, totalElementsWritten = 0\<rparr>)"

definition writeBlock :: "RunFile \<Rightarrow> OutputBuffer \<Rightarrow> error + (RunFile \<times> OutputBuffer)" where
  "writeBlock rf ob =
     (if stream rf = Closed \<or> currentBufferIndex ob = 0 then Inr (rf, ob)
      else
        let writeOffset = ob_runStartOffset ob + totalElementsWritten ob * sizeof_T
        in (case write_elems rf writeOffset (take (nat (currentBufferIndex ob)) (ob_buffer ob)) of
              Inl e \<Rightarrow> Inl e
            | Inr rf1 \<Rightarrow>
                Inr (rf1, ob\<lparr>totalElementsWritten := totalElementsWritten ob + currentBufferIndex ob,
                              currentBufferIndex := 0\<rparr>)))"

definition setNextItem :: "RunFile \<Rightarrow> OutputBuffer \<Rightarrow> int \<Rightarrow> error + (RunFile \<times> OutputBuffer)" where
  "setNextItem rf ob item =
     (let ob1 = ob\<lparr>ob_buffer := (ob_buffer ob)[nat (currentBufferIndex ob) := item],
                   currentBufferIndex := currentBufferIndex ob + 1\<rparr>
      in if currentBufferIndex ob1 = ob_bufferSizeInElements ob1 then writeBlock rf ob1
         else Inr (rf, ob1))"

definition flush :: "RunFile \<Rightarrow> OutputBuffer \<Rightarrow> error + (RunFile \<times> OutputBuffer)" where
  "flush rf ob = (if currentBufferIndex ob > 0 then writeBlock rf ob else Inr (rf, ob))"

definition getElementCount :: "OutputBuffer \<Rightarrow> int" where
  "getElementCount ob = totalElementsWritten ob + currentBufferIndex ob"

subsection \<open>Merger.h\<close>

definition MERGE_INPUT_BUFFER_ELEMENTS :: int where
  "MERGE_INPUT_BUFFER_ELEMENTS = 1024"

definition MERGE_OUTPUT_BUFFER_ELEMENTS :: int where
  "MERGE_OUTPUT_BUFFER_ELEMENTS = 1024"

text \<open>
  The three loops of \<^verbatim>\<open>MergeInMem\<close>. The pair \<^verbatim>\<open>hasA\<close>, \<^verbatim>\<open>itemA\<close> is an option:
  \<open>Some x\<close> when \<^verbatim>\<open>hasA\<close> holds and \<^verbatim>\<open>itemA\<close> is \<open>x\<close>.
\<close>

function merge_loop ::
  "RunFile \<Rightarrow> InputBuffer \<Rightarrow> InputBuffer \<Rightarrow> OutputBuffer \<Rightarrow> int option \<Rightarrow> int option \<Rightarrow>
   error + (RunFile \<times> InputBuffer \<times> InputBuffer \<times> OutputBuffer \<times> int option \<times> int option)" where
  "merge_loop rf inBufA inBufB outBuf (Some itemA) (Some itemB) =
     (if itemA < itemB then
        (case setNextItem rf outBuf itemA of
           Inl e \<Rightarrow> Inl e
         | Inr (rf1, outBuf1) \<Rightarrow>
             (case getNextItem rf1 inBufA of
                Inl e \<Rightarrow> Inl e
              | Inr (a, inBufA1) \<Rightarrow> merge_loop rf1 inBufA1 inBufB outBuf1 a (Some itemB)))
      else
        (case setNextItem rf outBuf itemB of
           Inl e \<Rightarrow> Inl e
         | Inr (rf1, outBuf1) \<Rightarrow>
             (case getNextItem rf1 inBufB of
                Inl e \<Rightarrow> Inl e
              | Inr (b, inBufB1) \<Rightarrow> merge_loop rf1 inBufA inBufB1 outBuf1 (Some itemA) b)))"
| "merge_loop rf inBufA inBufB outBuf None b = Inr (rf, inBufA, inBufB, outBuf, None, b)"
| "merge_loop rf inBufA inBufB outBuf (Some itemA) None =
     Inr (rf, inBufA, inBufB, outBuf, Some itemA, None)"
  by pat_completeness auto
termination
  by (relation "measure (\<lambda>(rf, inBufA, inBufB, outBuf, a, b).
        ib_remaining inBufA + ib_remaining inBufB + (if a = None then 0 else 1)
        + (if b = None then 0 else 1))")
     (auto dest!: getNextItem_remaining)

function drain_loop ::
  "RunFile \<Rightarrow> InputBuffer \<Rightarrow> OutputBuffer \<Rightarrow> int option \<Rightarrow>
   error + (RunFile \<times> InputBuffer \<times> OutputBuffer)" where
  "drain_loop rf inBuf outBuf None = Inr (rf, inBuf, outBuf)"
| "drain_loop rf inBuf outBuf (Some item) =
     (case setNextItem rf outBuf item of
        Inl e \<Rightarrow> Inl e
      | Inr (rf1, outBuf1) \<Rightarrow>
          (case getNextItem rf1 inBuf of
             Inl e \<Rightarrow> Inl e
           | Inr (x, inBuf1) \<Rightarrow> drain_loop rf1 inBuf1 outBuf1 x))"
  by pat_completeness auto
termination
  by (relation "measure (\<lambda>(rf, inBuf, outBuf, x).
        ib_remaining inBuf + (if x = None then 0 else 1))")
     (auto dest!: getNextItem_remaining)

definition MergeInMem :: "RunFile \<Rightarrow> RunMetadata \<Rightarrow> RunMetadata \<Rightarrow> error + (RunMetadata \<times> RunFile)" where
  "MergeInMem runFile0 runA runB =
     (let newRunId = fst (allocateNewRun runFile0);
          rf1 = snd (allocateNewRun runFile0)
      in
      if newRunId = - 1 then Inl RuntimeError
      else
        let start_offset = getAppendOffset rf1 in
        bind_err (InputBuffer_init runA MERGE_INPUT_BUFFER_ELEMENTS) (\<lambda>inBufA.
        bind_err (InputBuffer_init runB MERGE_INPUT_BUFFER_ELEMENTS) (\<lambda>inBufB.
        bind_err (OutputBuffer_init start_offset MERGE_OUTPUT_BUFFER_ELEMENTS) (\<lambda>outBuf.
        bind_err (getNextItem rf1 inBufA) (\<lambda>(a, inBufA1).
        bind_err (getNextItem rf1 inBufB) (\<lambda>(b, inBufB1).
        bind_err (merge_loop rf1 inBufA1 inBufB1 outBuf a b)
          (\<lambda>(rf2, inBufA2, inBufB2, outBuf2, a2, b2).
        bind_err (drain_loop rf2 inBufA2 outBuf2 a2) (\<lambda>(rf3, inBufA3, outBuf3).
        bind_err (drain_loop rf3 inBufB2 outBuf3 b2) (\<lambda>(rf4, inBufB4, outBuf4).
        bind_err (flush rf4 outBuf4) (\<lambda>(rf5, outBuf5).
          let totalElements = getElementCount outBuf5 in
          (case updateRunMetadata rf5 newRunId start_offset totalElements of
             (Some e, rf6) \<Rightarrow> Inl e
           | (None, rf6) \<Rightarrow>
               bind_err (getRunMetadata rf6 newRunId) (\<lambda>m. Inr (m, rf6)))))))))))))"

text \<open>
  \<^verbatim>\<open>std::priority_queue\<close> with \<^verbatim>\<open>CompareRunMetadata\<close> is a min-heap on
  \<open>elementCount\<close>: \<^verbatim>\<open>top()\<close> is a run of least count. When several runs have the
  least count, which of them is on top is the business of the heap algorithm of the
  library, not of this program. The model keeps the runs of the queue in a list, in the
  order in which they were pushed, and takes that decision as a parameter of \<open>top\<close> and
  \<open>pop\<close>: \<open>tie\<close> is the position, among the runs of least count, of the one that is on
  top (modulo their number).
\<close>

definition heap_push :: "RunMetadata \<Rightarrow> RunMetadata list \<Rightarrow> RunMetadata list" where
  "heap_push r mergeHeap = mergeHeap @ [r]"

definition least_positions :: "RunMetadata list \<Rightarrow> nat list" where
  "least_positions mergeHeap =
     filter (\<lambda>i. \<forall>r \<in> set mergeHeap. elementCount (mergeHeap ! i) \<le> elementCount r)
       [0..<length mergeHeap]"

definition top_position :: "nat \<Rightarrow> RunMetadata list \<Rightarrow> nat" where
  "top_position tie mergeHeap =
     least_positions mergeHeap ! (tie mod length (least_positions mergeHeap))"

definition heap_top :: "nat \<Rightarrow> RunMetadata list \<Rightarrow> RunMetadata" where
  "heap_top tie mergeHeap = mergeHeap ! top_position tie mergeHeap"

definition heap_pop :: "nat \<Rightarrow> RunMetadata list \<Rightarrow> RunMetadata list" where
  "heap_pop tie mergeHeap =
     take (top_position tie mergeHeap) mergeHeap @ drop (Suc (top_position tie mergeHeap)) mergeHeap"

lemma least_positions_nonempty:
  assumes "mergeHeap \<noteq> []"
  shows "least_positions mergeHeap \<noteq> []"
proof -
  let ?S = "elementCount ` set mergeHeap"
  have fin: "finite ?S" and ne: "?S \<noteq> {}" using assms by simp_all
  from Min_in[OF fin ne] obtain r where r: "r \<in> set mergeHeap" "elementCount r = Min ?S" by auto
  then obtain i where i: "i < length mergeHeap" "mergeHeap ! i = r" by (auto simp: in_set_conv_nth)
  have "\<forall>x \<in> set mergeHeap. elementCount (mergeHeap ! i) \<le> elementCount x"
    using Min_le[OF fin] i(2) r(2) by simp
  then have "i \<in> set (least_positions mergeHeap)" using i(1) by (simp add: least_positions_def)
  then show ?thesis by auto
qed

lemma top_position_less:
  assumes "mergeHeap \<noteq> []"
  shows "top_position tie mergeHeap < length mergeHeap"
proof -
  have "tie mod length (least_positions mergeHeap) < length (least_positions mergeHeap)"
    using least_positions_nonempty[OF assms] by simp
  then have "top_position tie mergeHeap \<in> set (least_positions mergeHeap)"
    unfolding top_position_def by (rule nth_mem)
  then show ?thesis by (simp add: least_positions_def)
qed

lemma heap_top_least:
  assumes "mergeHeap \<noteq> []" "r \<in> set mergeHeap"
  shows "elementCount (heap_top tie mergeHeap) \<le> elementCount r"
proof -
  have "tie mod length (least_positions mergeHeap) < length (least_positions mergeHeap)"
    using least_positions_nonempty[OF assms(1)] by simp
  then have "top_position tie mergeHeap \<in> set (least_positions mergeHeap)"
    unfolding top_position_def by (rule nth_mem)
  then show ?thesis using assms(2) by (simp add: least_positions_def heap_top_def)
qed

lemma length_heap_pop: "mergeHeap \<noteq> [] \<Longrightarrow> length (heap_pop tie mergeHeap) = length mergeHeap - 1"
  using top_position_less[of mergeHeap tie] by (simp add: heap_pop_def)

text \<open>
  The loop of \<^verbatim>\<open>externalMergeSort\<close>. \<open>ties\<close> gives the decision for each \<^verbatim>\<open>top()\<close> of
  the loop, \<open>n\<close> counts them.
\<close>

function merge_heap_loop ::
  "(nat \<Rightarrow> nat) \<Rightarrow> nat \<Rightarrow> RunMetadata list \<Rightarrow> RunFile \<Rightarrow> error + (RunMetadata list \<times> RunFile)" where
  "merge_heap_loop ties n mergeHeap rf =
     (if length mergeHeap > 1 then
        (case MergeInMem rf (heap_top (ties n) mergeHeap)
                (heap_top (ties (n + 1)) (heap_pop (ties n) mergeHeap)) of
           Inl e \<Rightarrow> Inl e
         | Inr (mergedRun, rf1) \<Rightarrow>
             merge_heap_loop ties (n + 2)
               (heap_push mergedRun (heap_pop (ties (n + 1)) (heap_pop (ties n) mergeHeap))) rf1)
      else Inr (mergeHeap, rf))"
  by pat_completeness auto
termination
proof (relation "measure (\<lambda>(ties, n, mergeHeap, rf). length mergeHeap)")
  show "wf (measure (\<lambda>(ties, n, mergeHeap, rf). length mergeHeap))" by simp
next
  fix ties :: "nat \<Rightarrow> nat" and n :: nat and mergeHeap :: "RunMetadata list" and rf :: RunFile
    and x2 :: "RunMetadata \<times> RunFile" and mergedRun rf1
  assume l: "1 < length mergeHeap"
  then have a: "length (heap_pop (ties n) mergeHeap) = length mergeHeap - 1"
    by (intro length_heap_pop) auto
  then have "heap_pop (ties n) mergeHeap \<noteq> []" using l by auto
  then have "length (heap_pop (ties (n + 1)) (heap_pop (ties n) mergeHeap)) = length mergeHeap - 2"
    using a by (simp add: length_heap_pop)
  then show "((ties, n + 2,
               heap_push mergedRun (heap_pop (ties (n + 1)) (heap_pop (ties n) mergeHeap)), rf1),
              (ties, n, mergeHeap, rf))
             \<in> measure (\<lambda>(ties, n, mergeHeap, rf). length mergeHeap)"
    using l by (simp add: heap_push_def)
qed

text \<open>
  \<^verbatim>\<open>externalMergeSort\<close>. With no initial run the final \<^verbatim>\<open>mergeHeap.top()\<close> is applied
  to an empty queue, which is undefined; with one run left, that run is on top.
\<close>

definition externalMergeSort ::
  "(nat \<Rightarrow> nat) \<Rightarrow> RunMetadata list \<Rightarrow> RunFile \<Rightarrow> error + (RunMetadata \<times> RunFile)" where
  "externalMergeSort ties initialRuns rf =
     (case merge_heap_loop ties 0 (fold heap_push initialRuns []) rf of
        Inl e \<Rightarrow> Inl e
      | Inr (mergeHeap, rf1) \<Rightarrow>
          (case mergeHeap of [] \<Rightarrow> Inl OutsideModel | r # rest \<Rightarrow> Inr (r, rf1)))"

subsection \<open>RunGenerator.h (replacement selection)\<close>

text \<open>
  The members of the class. \<open>inputFile\<close> holds the elements of the input file that have
  not been read yet, \<open>runFile\<close> is the object behind \<^verbatim>\<open>runFilePtr\<close>. The four buffers
  are held by value under the names of the pointers, so that exchanging the pointers is
  exchanging the two fields.

  The three threads are composed sequentially. The input worker and the output worker
  each do one round of their loop at the point where the compute worker waits for them;
  the flags \<open>standby_input_ready\<close> and \<open>standby_output_busy\<close>, which decide in the program
  who may touch a standby buffer, decide in the model when that round happens.
  \<^verbatim>\<open>stop_threads\<close> is false until \<^verbatim>\<open>computeWorker\<close> sets it as its last action, so
  the branches that test it are left out.
\<close>

record RunGenerator =
  rg_K :: int
  bufSize :: int
  loserTree :: LoserTree
  activeIn :: "int list"
  standbyIn :: "int list"
  activeOut :: "int list"
  standbyOut :: "int list"
  activeInIdx :: nat
  standby_input_ready :: bool
  standby_output_busy :: bool
  input_eof :: bool
  inputFile :: "int list"
  runFile :: RunFile
  currentRunStartOffset :: int
  totalElementsInRun :: int
  currentRunId :: int
  generatedRuns :: "RunMetadata list"

text \<open>
  The constructor. The members it leaves uninitialised (\<^verbatim>\<open>runFilePtr\<close>, the offset, the
  count and the id of the current run) get default values here; \<open>generateRuns\<close> assigns
  them before they are read.
\<close>

definition RunGenerator_init :: "int \<Rightarrow> int \<Rightarrow> error + RunGenerator" where
  "RunGenerator_init memSizeForLoserTree bufferSize =
     bind_err (LoserTree_init memSizeForLoserTree) (\<lambda>t.
       if bufferSize < 0 then Inl LengthError
       else Inr \<lparr>rg_K = memSizeForLoserTree, bufSize = bufferSize, loserTree = t,
                 activeIn = [], standbyIn = replicate (nat bufferSize) 0,
                 activeOut = [], standbyOut = replicate (nat bufferSize) 0,
                 activeInIdx = 0,
                 standby_input_ready = False, standby_output_busy = False, input_eof = False,
                 inputFile = [], runFile = RunFile_init None,
                 currentRunStartOffset = 0, totalElementsInRun = 0, currentRunId = 0,
                 generatedRuns = []\<rparr>)"

text \<open>
  One round of \<^verbatim>\<open>inputWorker\<close>: a block of up to \<open>bufSize\<close> elements is read into the
  standby buffer. \<^verbatim>\<open>inputFile.eof()\<close> holds when the read ran into the end of the file,
  that is, when fewer elements were left than were asked for.
\<close>

definition inputWorker :: "RunGenerator \<Rightarrow> RunGenerator" where
  "inputWorker g =
     (let block = take (nat (bufSize g)) (inputFile g);
          hit_eof = (length (inputFile g) < nat (bufSize g))
      in g\<lparr>standbyIn := block,
            inputFile := drop (nat (bufSize g)) (inputFile g),
            input_eof := (input_eof g \<or> hit_eof \<or> block = []),
            standby_input_ready := True\<rparr>)"

text \<open>
  \<^verbatim>\<open>pullNextInput\<close>. Waiting on \<^verbatim>\<open>cv_compute\<close> is a round of the input worker, which
  is what the compute worker waits for there.
\<close>

definition pull_measure :: "RunGenerator \<Rightarrow> nat" where
  "pull_measure g =
     (if activeInIdx g < length (activeIn g) then 0
      else if standby_input_ready g
           then (if standbyIn g \<noteq> [] \<or> input_eof g then 1 else 3)
           else (if input_eof g then 0 else 2))"

function pullNextInput :: "RunGenerator \<Rightarrow> int option \<times> RunGenerator" where
  "pullNextInput g =
     (if activeInIdx g < length (activeIn g)
      then (Some (activeIn g ! activeInIdx g), g\<lparr>activeInIdx := activeInIdx g + 1\<rparr>)
      else if standby_input_ready g
      then pullNextInput (g\<lparr>activeIn := standbyIn g, standbyIn := activeIn g,
                             activeInIdx := 0, standby_input_ready := False\<rparr>)
      else if input_eof g then (None, g)
      else pullNextInput (inputWorker g))"
  by pat_completeness auto
termination
  by (relation "measure pull_measure") (auto simp: pull_measure_def inputWorker_def Let_def)

text \<open>
  One round of \<^verbatim>\<open>outputWorker\<close>: the standby buffer is written behind the elements of
  the current run that are in the file already.
\<close>

definition outputWorker :: "RunGenerator \<Rightarrow> error + RunGenerator" where
  "outputWorker g =
     (let count = int (length (standbyOut g)) in
      if count > 0 then
        bind_err (write_elems (runFile g)
                    (currentRunStartOffset g + totalElementsInRun g * sizeof_T) (standbyOut g))
          (\<lambda>rf. Inr (g\<lparr>runFile := rf, totalElementsInRun := totalElementsInRun g + count,
                         standby_output_busy := False\<rparr>))
      else Inr (g\<lparr>standby_output_busy := False\<rparr>))"

text \<open>
  \<^verbatim>\<open>if (standby_output_busy) cv_compute.wait(...)\<close>: the compute worker waits until the
  output worker has written the standby buffer.
\<close>

definition wait_output :: "RunGenerator \<Rightarrow> error + RunGenerator" where
  "wait_output g = (if standby_output_busy g then outputWorker g else Inr g)"

text \<open>\<^verbatim>\<open>std::swap(activeOut, standbyOut); standby_output_busy = true;\<close>\<close>

definition swap_out :: "RunGenerator \<Rightarrow> RunGenerator" where
  "swap_out g = g\<lparr>activeOut := standbyOut g, standbyOut := activeOut g,
                   standby_output_busy := True\<rparr>"

text \<open>The initial fill of \<^verbatim>\<open>computeWorker\<close>.\<close>

lemma pullNextInput_rg_K: "rg_K (snd (pullNextInput g)) = rg_K g"
  by (induction g rule: pullNextInput.induct)
     (subst pullNextInput.simps, simp add: inputWorker_def Let_def)

function fill_initial :: "RunGenerator \<Rightarrow> int list \<Rightarrow> int list \<times> RunGenerator" where
  "fill_initial g initialData =
     (if int (length initialData) < rg_K g then
        (case pullNextInput g of
           (None, g1) \<Rightarrow> (initialData, g1)
         | (Some val, g1) \<Rightarrow> fill_initial g1 (initialData @ [val]))
      else (initialData, g))"
  by pat_completeness auto
termination
proof (relation "measure (\<lambda>(g, initialData). nat (rg_K g) - length initialData)")
  show "wf (measure (\<lambda>(g, initialData). nat (rg_K g) - length initialData))"
    by simp
next
  fix g :: RunGenerator and initialData x1 g1 val
  assume lt: "int (length initialData) < rg_K g" and p: "(x1, g1) = pullNextInput g"
  have "rg_K g1 = rg_K g"
    using pullNextInput_rg_K[of g] p[symmetric] by simp
  with lt show "((g1, initialData @ [val]), (g, initialData))
      \<in> measure (\<lambda>(g, initialData). nat (rg_K g) - length initialData)"
    by auto
qed

text \<open>
  Sealing the current run (\<^verbatim>\<open>if (totalElementsInRun > 0) { updateRunMetadata; push_back }\<close>).
\<close>

definition seal_run :: "RunGenerator \<Rightarrow> error + RunGenerator" where
  "seal_run g =
     (if totalElementsInRun g > 0 then
        (case updateRunMetadata (runFile g) (currentRunId g) (currentRunStartOffset g)
                (totalElementsInRun g) of
           (Some e, rf) \<Rightarrow> Inl e
         | (None, rf) \<Rightarrow>
             bind_err (getRunMetadata rf (currentRunId g))
               (\<lambda>m. Inr (g\<lparr>runFile := rf, generatedRuns := generatedRuns g @ [m]\<rparr>)))
      else Inr g)"

text \<open>Step C of the main loop, up to the new run being opened.\<close>

definition end_run :: "RunGenerator \<Rightarrow> error + RunGenerator" where
  "end_run g =
     bind_err (if activeOut g \<noteq> []
               then bind_err (wait_output g) (\<lambda>g1. Inr ((swap_out g1)\<lparr>activeOut := []\<rparr>))
               else Inr g) (\<lambda>g2.
     bind_err (wait_output g2) (\<lambda>g3.
     bind_err (seal_run g3) (\<lambda>g4.
       let allocated = allocateNewRun (runFile g4) in
       Inr (g4\<lparr>runFile := snd allocated, currentRunId := fst allocated,
               currentRunStartOffset := getAppendOffset (snd allocated),
               totalElementsInRun := 0\<rparr>))))"

text \<open>Step D: the winner goes to the active output buffer, which is handed over when full.\<close>

definition emit :: "RunGenerator \<Rightarrow> int \<Rightarrow> error + RunGenerator" where
  "emit g v =
     (let g1 = g\<lparr>activeOut := activeOut g @ [v]\<rparr> in
      if int (length (activeOut g1)) \<ge> bufSize g1
      then bind_err (wait_output g1) (\<lambda>g2. Inr ((swap_out g2)\<lparr>activeOut := []\<rparr>))
      else Inr g1)"

text \<open>Step E: the next input element replaces the winner, or the winner's leaf is retired.\<close>

definition replace_step :: "RunGenerator \<Rightarrow> RunNode \<Rightarrow> int \<Rightarrow> RunGenerator" where
  "replace_step g winnerNode currentTreeRunID =
     (case pullNextInput g of
        (None, g1) \<Rightarrow> g1\<lparr>loserTree := setWinnerToSentinel (loserTree g1)\<rparr>
      | (Some val, g1) \<Rightarrow>
          let newRunID = (if val < value winnerNode then currentTreeRunID + 1 else currentTreeRunID)
          in g1\<lparr>loserTree := replaceWinner (loserTree g1) val newRunID\<rparr>)"

text \<open>
  One iteration of the main loop of \<^verbatim>\<open>computeWorker\<close>: the loop is left (\<open>Break\<close>), an
  exception leaves the function (\<open>Throw\<close>), or the next iteration starts with a new state
  and a new value of the local variable \<^verbatim>\<open>currentTreeRunID\<close>.
\<close>

datatype step_result = Break | Throw error | Continue RunGenerator int

definition compute_step :: "RunGenerator \<Rightarrow> int \<Rightarrow> step_result" where
  "compute_step g currentTreeRunID =
     (let winnerNode = getWinner (loserTree g) in
      if runID winnerNode = INT_MAX then Break
      else
        (case (if runID winnerNode > currentTreeRunID
               then bind_err (end_run g) (\<lambda>g1. Inr (g1, runID winnerNode))
               else Inr (g, currentTreeRunID)) of
           Inl e \<Rightarrow> Throw e
         | Inr (g1, cur) \<Rightarrow>
             (case emit g1 (value winnerNode) of
                Inl e \<Rightarrow> Throw e
              | Inr g2 \<Rightarrow> Continue (replace_step g2 winnerNode cur) cur)))"

partial_function (option) compute_loop :: "RunGenerator \<Rightarrow> int \<Rightarrow> (error + RunGenerator) option" where
  "compute_loop g currentTreeRunID =
     (case compute_step g currentTreeRunID of
        Break \<Rightarrow> Some (Inr g)
      | Throw e \<Rightarrow> Some (Inl e)
      | Continue g1 cur \<Rightarrow> compute_loop g1 cur)"

declare compute_loop.simps [code]

text \<open>The end of \<^verbatim>\<open>computeWorker\<close>: the last block is written and the last run sealed.\<close>

definition finish :: "RunGenerator \<Rightarrow> error + RunGenerator" where
  "finish g =
     bind_err (wait_output g) (\<lambda>g1.
     bind_err (if activeOut g1 \<noteq> [] then wait_output (swap_out g1) else Inr g1) (\<lambda>g2.
       seal_run g2))"

definition computeWorker :: "RunGenerator \<Rightarrow> (error + RunGenerator) option" where
  "computeWorker g =
     (case fill_initial g [] of
        (initialData, g1) \<Rightarrow>
          (case compute_loop (g1\<lparr>loserTree := initialize (loserTree g1) initialData\<rparr>) 1 of
             None \<Rightarrow> None
           | Some (Inl e) \<Rightarrow> Some (Inl e)
           | Some (Inr g2) \<Rightarrow> Some (finish g2)))"

text \<open>
  \<^verbatim>\<open>generateRuns\<close>. The input file is \<open>None\<close> when it cannot be opened, and the list of
  its elements otherwise. The result is the vector that is returned together with the
  object afterwards, whose \<open>runFile\<close> is the run file as the call leaves it.
\<close>

definition generateRuns ::
  "RunGenerator \<Rightarrow> int list option \<Rightarrow> RunFile \<Rightarrow> (error + (RunMetadata list \<times> RunGenerator)) option" where
  "generateRuns g inputFilename rf =
     (case inputFilename of
        None \<Rightarrow> Some (Inl RuntimeError)
      | Some elements \<Rightarrow>
          (let allocated = allocateNewRun rf in
           case computeWorker (g\<lparr>inputFile := elements, runFile := snd allocated,
                                   currentRunId := fst allocated,
                                   currentRunStartOffset := getAppendOffset (snd allocated),
                                   totalElementsInRun := 0, generatedRuns := []\<rparr>) of
             None \<Rightarrow> None
           | Some (Inl e) \<Rightarrow> Some (Inl e)
           | Some (Inr g1) \<Rightarrow> Some (Inr (generatedRuns g1, g1))))"


declare pullNextInput.simps [simp del]
declare fill_initial.simps [simp del]

subsection \<open>The input side of the generator\<close>

text \<open>The elements that \<open>pullNextInput\<close> is still to deliver, in order.\<close>

definition pending_input :: "RunGenerator \<Rightarrow> int list" where
  "pending_input g =
     drop (activeInIdx g) (activeIn g) @ (if standby_input_ready g then standbyIn g else [])
       @ inputFile g"

definition in_inv :: "RunGenerator \<Rightarrow> bool" where
  "in_inv g = (0 < bufSize g \<and> (input_eof g \<longrightarrow> inputFile g = []))"

text \<open>What \<open>pullNextInput\<close> leaves alone.\<close>

definition same_but_input :: "RunGenerator \<Rightarrow> RunGenerator \<Rightarrow> bool" where
  "same_but_input g g' =
     (rg_K g' = rg_K g \<and> bufSize g' = bufSize g \<and> loserTree g' = loserTree g \<and>
      activeOut g' = activeOut g \<and> standbyOut g' = standbyOut g \<and>
      standby_output_busy g' = standby_output_busy g \<and> runFile g' = runFile g \<and>
      currentRunStartOffset g' = currentRunStartOffset g \<and>
      totalElementsInRun g' = totalElementsInRun g \<and> currentRunId g' = currentRunId g \<and>
      generatedRuns g' = generatedRuns g)"

lemma same_but_input_refl: "same_but_input g g"
  by (simp add: same_but_input_def)

lemma same_but_input_trans: "same_but_input g g1 \<Longrightarrow> same_but_input g1 g2 \<Longrightarrow> same_but_input g g2"
  by (simp add: same_but_input_def)

lemma pullNextInput_spec:
  assumes "in_inv g"
  shows "in_inv (snd (pullNextInput g)) \<and> same_but_input g (snd (pullNextInput g)) \<and>
         (case pending_input g of
            [] \<Rightarrow> fst (pullNextInput g) = None \<and> pending_input (snd (pullNextInput g)) = []
          | x # xs \<Rightarrow> fst (pullNextInput g) = Some x \<and> pending_input (snd (pullNextInput g)) = xs)"
  using assms
proof (induction g rule: pullNextInput.induct)
  case (1 g)
  show ?case
  proof (cases "activeInIdx g < length (activeIn g)")
    case True
    then have "pullNextInput g = (Some (activeIn g ! activeInIdx g), g\<lparr>activeInIdx := activeInIdx g + 1\<rparr>)"
      by (subst pullNextInput.simps) simp
    moreover have "drop (activeInIdx g) (activeIn g)
         = activeIn g ! activeInIdx g # drop (Suc (activeInIdx g)) (activeIn g)"
      using True by (simp add: Cons_nth_drop_Suc)
    ultimately show ?thesis
      using "1.prems" by (simp add: pending_input_def in_inv_def same_but_input_def)
  next
    case nact: False
    show ?thesis
    proof (cases "standby_input_ready g")
      case True
      let ?g1 = "g\<lparr>activeIn := standbyIn g, standbyIn := activeIn g,
                    activeInIdx := 0, standby_input_ready := False\<rparr>"
      have e: "pullNextInput g = pullNextInput ?g1"
        using nact True by (subst pullNextInput.simps) simp
      have i1: "in_inv ?g1" using "1.prems" by (simp add: in_inv_def)
      have p1: "pending_input ?g1 = pending_input g"
        using nact True by (simp add: pending_input_def)
      have s1: "same_but_input g ?g1" by (simp add: same_but_input_def)
      from "1.IH"(1)[OF nact True i1] show ?thesis
        unfolding e p1 using s1 by (auto simp: same_but_input_def)
    next
      case nready: False
      show ?thesis
      proof (cases "input_eof g")
        case True
        then have "pullNextInput g = (None, g)"
          using nact nready by (subst pullNextInput.simps) simp
        moreover have "pending_input g = []"
          using nact nready True "1.prems" by (simp add: pending_input_def in_inv_def)
        ultimately show ?thesis using "1.prems" by (simp add: same_but_input_def)
      next
        case False
        have e: "pullNextInput g = pullNextInput (inputWorker g)"
          using nact nready False by (subst pullNextInput.simps) simp
        have i1: "in_inv (inputWorker g)"
          using "1.prems" by (auto simp: in_inv_def inputWorker_def Let_def)
        have p1: "pending_input (inputWorker g) = pending_input g"
          using nact nready by (simp add: pending_input_def inputWorker_def Let_def)
        have s1: "same_but_input g (inputWorker g)"
          by (simp add: same_but_input_def inputWorker_def Let_def)
        from "1.IH"(2)[OF nact nready False i1] show ?thesis
          unfolding e p1 using s1 by (auto simp: same_but_input_def)
      qed
    qed
  qed
qed

lemma pullNextInput_Nil:
  assumes "in_inv g" "pending_input g = []" "pullNextInput g = (r, g')"
  shows "r = None" "pending_input g' = []" "in_inv g'" "same_but_input g g'"
  using pullNextInput_spec[OF assms(1)] assms(2,3) by simp_all

lemma pullNextInput_Cons:
  assumes "in_inv g" "pending_input g = x # xs" "pullNextInput g = (r, g')"
  shows "r = Some x" "pending_input g' = xs" "in_inv g'" "same_but_input g g'"
  using pullNextInput_spec[OF assms(1)] assms(2,3) by simp_all

text \<open>The initial fill takes the first \<open>K\<close> elements, or all of them when there are fewer.\<close>

lemma fill_initial_spec:
  assumes "in_inv g" "fill_initial g acc = (initialData, g')"
  shows "in_inv g' \<and> same_but_input g g' \<and>
         initialData = acc @ take (nat (rg_K g) - length acc) (pending_input g) \<and>
         pending_input g' = drop (nat (rg_K g) - length acc) (pending_input g)"
  using assms
proof (induction g acc arbitrary: initialData g' rule: fill_initial.induct)
  case (1 g acc)
  show ?case
  proof (cases "int (length acc) < rg_K g")
    case False
    then have "fill_initial g acc = (acc, g)" by (subst fill_initial.simps) simp
    moreover have "nat (rg_K g) - length acc = 0" using False by simp
    ultimately show ?thesis using "1.prems" by (simp add: same_but_input_refl)
  next
    case True
    obtain r g1 where p: "pullNextInput g = (r, g1)" by (cases "pullNextInput g") auto
    show ?thesis
    proof (cases "pending_input g")
      case Nil
      from pullNextInput_Nil[OF "1.prems"(1) Nil p]
      have r: "r = None" "pending_input g1 = []" "in_inv g1" "same_but_input g g1" .
      have "fill_initial g acc = (acc, g1)"
        using True p r(1) by (subst fill_initial.simps) simp
      then show ?thesis using "1.prems"(2) r Nil by simp
    next
      case (Cons x xs)
      from pullNextInput_Cons[OF "1.prems"(1) Cons p]
      have r: "r = Some x" "pending_input g1 = xs" "in_inv g1" "same_but_input g g1" .
      have e: "fill_initial g acc = fill_initial g1 (acc @ [x])"
        using True p r(1) by (subst fill_initial.simps) simp
      have k1: "rg_K g1 = rg_K g" using r(4) by (simp add: same_but_input_def)
      have "in_inv g' \<and> same_but_input g1 g' \<and>
         initialData = (acc @ [x]) @ take (nat (rg_K g1) - length (acc @ [x])) (pending_input g1) \<and>
         pending_input g' = drop (nat (rg_K g1) - length (acc @ [x])) (pending_input g1)"
        using "1.IH"[OF True p[symmetric] r(1) r(3)] "1.prems"(2) e by simp
      moreover have "nat (rg_K g) - length acc = Suc (nat (rg_K g) - length (acc @ [x]))"
        using True by auto
      ultimately show ?thesis
        using r Cons k1 same_but_input_trans[OF r(4)] by auto
    qed
  qed
qed


lemma bind_err_Inr [simp]: "bind_err m f = Inr y \<longleftrightarrow> (\<exists>x. m = Inr x \<and> f x = Inr y)"
  by (cases m) (simp_all add: bind_err_def)

lemma bind_err_Inl [simp]: "bind_err (Inl e) f = Inl e"
  by (simp add: bind_err_def)

lemma bind_err_Inr_left [simp]: "bind_err (Inr x) f = f x"
  by (simp add: bind_err_def)

subsection \<open>The output side leaves the input side and the tree alone\<close>

definition same_but_output :: "RunGenerator \<Rightarrow> RunGenerator \<Rightarrow> bool" where
  "same_but_output g g' =
     (rg_K g' = rg_K g \<and> bufSize g' = bufSize g \<and> loserTree g' = loserTree g \<and>
      activeIn g' = activeIn g \<and> standbyIn g' = standbyIn g \<and> activeInIdx g' = activeInIdx g \<and>
      standby_input_ready g' = standby_input_ready g \<and> input_eof g' = input_eof g \<and>
      inputFile g' = inputFile g)"

lemma same_but_output_refl: "same_but_output g g"
  by (simp add: same_but_output_def)

lemma same_but_output_trans:
  "same_but_output g g1 \<Longrightarrow> same_but_output g1 g2 \<Longrightarrow> same_but_output g g2"
  by (simp add: same_but_output_def)

lemma same_but_output_pending: "same_but_output g g' \<Longrightarrow> pending_input g' = pending_input g"
  by (simp add: same_but_output_def pending_input_def)

lemma same_but_output_in_inv: "same_but_output g g' \<Longrightarrow> in_inv g' = in_inv g"
  by (simp add: same_but_output_def in_inv_def)

lemma outputWorker_same: "outputWorker g = Inr g' \<Longrightarrow> same_but_output g g'"
  by (auto simp: outputWorker_def Let_def same_but_output_def split: if_splits)

lemma wait_output_same: "wait_output g = Inr g' \<Longrightarrow> same_but_output g g'"
  by (auto simp: wait_output_def same_but_output_refl dest: outputWorker_same split: if_splits)

lemma swap_out_same: "same_but_output g (swap_out g)"
  by (simp add: swap_out_def same_but_output_def)

lemma seal_run_same: "seal_run g = Inr g' \<Longrightarrow> same_but_output g g'"
  by (auto simp: seal_run_def same_but_output_def split: if_splits prod.splits option.splits)

lemma emit_same: "emit g v = Inr g' \<Longrightarrow> same_but_output g g'"
  by (auto simp: emit_def Let_def same_but_output_def swap_out_def
           dest!: wait_output_same split: if_splits)

lemma bind_errE:
  assumes "bind_err m f = Inr y"
  obtains x where "m = Inr x" "f x = Inr y"
  using assms by auto

lemma end_run_cases:
  assumes "end_run g = Inr g'"
  obtains g2 g3 g4 where
    "(if activeOut g \<noteq> []
      then bind_err (wait_output g) (\<lambda>g1. Inr ((swap_out g1)\<lparr>activeOut := []\<rparr>))
      else Inr g) = Inr g2"
    "wait_output g2 = Inr g3" "seal_run g3 = Inr g4"
    "g' = g4\<lparr>runFile := snd (allocateNewRun (runFile g4)),
              currentRunId := fst (allocateNewRun (runFile g4)),
              currentRunStartOffset := getAppendOffset (snd (allocateNewRun (runFile g4))),
              totalElementsInRun := 0\<rparr>"
  using assms unfolding end_run_def bind_err_Inr Let_def by blast

lemma end_run_same:
  assumes "end_run g = Inr g'"
  shows "same_but_output g g'"
proof -
  from assms obtain g2 g3 g4 where
    a: "(if activeOut g \<noteq> []
         then bind_err (wait_output g) (\<lambda>g1. Inr ((swap_out g1)\<lparr>activeOut := []\<rparr>))
         else Inr g) = Inr g2"
    and b: "wait_output g2 = Inr g3" and c: "seal_run g3 = Inr g4"
    and d: "g' = g4\<lparr>runFile := snd (allocateNewRun (runFile g4)),
              currentRunId := fst (allocateNewRun (runFile g4)),
              currentRunStartOffset := getAppendOffset (snd (allocateNewRun (runFile g4))),
              totalElementsInRun := 0\<rparr>"
    by (rule end_run_cases)
  have "same_but_output g g2"
    using a by (auto simp: same_but_output_def swap_out_def dest!: wait_output_same split: if_splits)
  moreover have "same_but_output g2 g3" using b by (rule wait_output_same)
  moreover have "same_but_output g3 g4" using c by (rule seal_run_same)
  moreover have "same_but_output g4 g'"
    using d by (simp add: same_but_output_def)
  ultimately show ?thesis by (blast intro: same_but_output_trans)
qed

lemma pending_input_loserTree [simp]: "pending_input (g\<lparr>loserTree := t\<rparr>) = pending_input g"
  by (simp add: pending_input_def)

lemma in_inv_loserTree [simp]: "in_inv (g\<lparr>loserTree := t\<rparr>) = in_inv g"
  by (simp add: in_inv_def)

subsection \<open>The tag of a replacement\<close>

lemma replace_step_Cons:
  assumes "in_inv g" "lt_wf (loserTree g)" "pending_input g = v # rest"
  shows "leaves (loserTree (replace_step g winnerNode cur)) =
           (leaves (loserTree g))[tree (loserTree g) ! 0 :=
              \<lparr>value = v, runID = (if v < value winnerNode then cur + 1 else cur)\<rparr>]"
    and "pending_input (replace_step g winnerNode cur) = rest"
    and "lt_k (loserTree (replace_step g winnerNode cur)) = lt_k (loserTree g)"
    and "in_inv (replace_step g winnerNode cur)"
    and "same_but_input g (replace_step g winnerNode cur\<lparr>loserTree := loserTree g\<rparr>)"
proof -
  obtain r g1 where p: "pullNextInput g = (r, g1)" by (cases "pullNextInput g") auto
  from pullNextInput_Cons[OF assms(1) assms(3) p]
  have r: "r = Some v" "pending_input g1 = rest" "in_inv g1" "same_but_input g g1" .
  have t: "loserTree g1 = loserTree g" using r(4) by (simp add: same_but_input_def)
  let ?tag = "if v < value winnerNode then cur + 1 else cur"
  have e: "replace_step g winnerNode cur = g1\<lparr>loserTree := replaceWinner (loserTree g) v ?tag\<rparr>"
    using p r(1) t by (simp add: replace_step_def Let_def)
  show "leaves (loserTree (replace_step g winnerNode cur)) =
           (leaves (loserTree g))[tree (loserTree g) ! 0 := \<lparr>value = v, runID = ?tag\<rparr>]"
    unfolding e by (simp add: replaceWinner_leaves)
  show "pending_input (replace_step g winnerNode cur) = rest"
    unfolding e using r(2) by simp
  show "lt_k (loserTree (replace_step g winnerNode cur)) = lt_k (loserTree g)"
    unfolding e by (simp add: replaceWinner_leaves)
  show "in_inv (replace_step g winnerNode cur)"
    unfolding e using r(3) by simp
  show "same_but_input g (replace_step g winnerNode cur\<lparr>loserTree := loserTree g\<rparr>)"
    unfolding e using r(4) by (simp add: same_but_input_def)
qed

lemma replace_step_Nil:
  assumes "in_inv g" "lt_wf (loserTree g)" "pending_input g = []"
  shows "leaves (loserTree (replace_step g winnerNode cur)) =
           (leaves (loserTree g))[tree (loserTree g) ! 0 := SENTINEL]"
    and "pending_input (replace_step g winnerNode cur) = []"
    and "lt_k (loserTree (replace_step g winnerNode cur)) = lt_k (loserTree g)"
    and "in_inv (replace_step g winnerNode cur)"
    and "same_but_input g (replace_step g winnerNode cur\<lparr>loserTree := loserTree g\<rparr>)"
proof -
  obtain r g1 where p: "pullNextInput g = (r, g1)" by (cases "pullNextInput g") auto
  from pullNextInput_Nil[OF assms(1) assms(3) p]
  have r: "r = None" "pending_input g1 = []" "in_inv g1" "same_but_input g g1" .
  have t: "loserTree g1 = loserTree g" using r(4) by (simp add: same_but_input_def)
  have e: "replace_step g winnerNode cur = g1\<lparr>loserTree := setWinnerToSentinel (loserTree g)\<rparr>"
    using p r(1) t by (simp add: replace_step_def Let_def)
  show "leaves (loserTree (replace_step g winnerNode cur)) =
           (leaves (loserTree g))[tree (loserTree g) ! 0 := SENTINEL]"
    unfolding e by (simp add: setWinnerToSentinel_leaves)
  show "pending_input (replace_step g winnerNode cur) = []"
    unfolding e using r(2) by simp
  show "lt_k (loserTree (replace_step g winnerNode cur)) = lt_k (loserTree g)"
    unfolding e by (simp add: setWinnerToSentinel_leaves)
  show "in_inv (replace_step g winnerNode cur)"
    unfolding e using r(3) by simp
  show "same_but_input g (replace_step g winnerNode cur\<lparr>loserTree := loserTree g\<rparr>)"
    unfolding e using r(4) by (simp add: same_but_input_def)
qed

text \<open>The replacement keeps the tournament in order when the tree has at most \<open>2^30\<close> leaves.\<close>

lemma replace_step_wf:
  assumes "in_inv g" "lt_wf (loserTree g)" "lt_k (loserTree g) \<le> 1073741824"
  shows "lt_wf (loserTree (replace_step g winnerNode cur))"
proof -
  obtain r g1 where p: "pullNextInput g = (r, g1)" by (cases "pullNextInput g") auto
  have "same_but_input g g1" using pullNextInput_spec[OF assms(1)] p by simp
  then have t: "loserTree g1 = loserTree g" by (simp add: same_but_input_def)
  show ?thesis
    using p t replaceWinner_wf[OF assms(2,3)] setWinnerToSentinel_wf[OF assms(2,3)]
    by (cases r) (simp_all add: replace_step_def Let_def)
qed

lemma compute_step_Continue:
  assumes "compute_step g cur0 = Continue g' cur"
  shows "\<exists>g1 g2. runID (getWinner (loserTree g)) \<noteq> INT_MAX \<and>
           (if runID (getWinner (loserTree g)) > cur0
            then end_run g = Inr g1 \<and> cur = runID (getWinner (loserTree g))
            else g1 = g \<and> cur = cur0) \<and>
           emit g1 (value (getWinner (loserTree g))) = Inr g2 \<and>
           g' = replace_step g2 (getWinner (loserTree g)) cur"
  using assms
  by (auto simp: compute_step_def Let_def split: if_splits sum.splits prod.splits)

text \<open>
  Claim C6 (tag of a replacement). An iteration of the compute loop that goes on to the
  next one, entered with the input element \<open>v\<close> next in line, emits the value of the
  winner, and writes into the winner's leaf the element \<open>v\<close> with the run id: the
  current run id \<open>cur\<close> (the one the iteration works with after a possible change of run)
  when \<open>v\<close> is at least the emitted value, and \<open>cur + 1\<close> when \<open>v\<close> is smaller.
\<close>

theorem replacement_tag:
  assumes "in_inv g" "lt_wf (loserTree g)" "pending_input g = v # rest"
      and "compute_step g cur0 = Continue g' cur"
  shows "leaves (loserTree g') =
           (leaves (loserTree g))[tree (loserTree g) ! 0 :=
              \<lparr>value = v,
               runID = (if value (getWinner (loserTree g)) \<le> v then cur else cur + 1)\<rparr>] \<and>
         pending_input g' = rest \<and>
         cur = max cur0 (runID (getWinner (loserTree g)))"
proof -
  let ?w = "getWinner (loserTree g)"
  from compute_step_Continue[OF assms(4)] obtain g1 g2 where
    s: "if runID ?w > cur0 then end_run g = Inr g1 \<and> cur = runID ?w else g1 = g \<and> cur = cur0"
    and em: "emit g1 (value ?w) = Inr g2" and g': "g' = replace_step g2 ?w cur" by blast
  have s1: "same_but_output g g1"
    using s by (auto simp: same_but_output_refl dest: end_run_same split: if_splits)
  have s2: "same_but_output g g2" using same_but_output_trans[OF s1 emit_same[OF em]] .
  have i2: "in_inv g2" using same_but_output_in_inv[OF s2] assms(1) by simp
  have t2: "loserTree g2 = loserTree g" using s2 by (simp add: same_but_output_def)
  have p2: "pending_input g2 = v # rest" using same_but_output_pending[OF s2] assms(3) by simp
  have w2: "lt_wf (loserTree g2)" using assms(2) t2 by simp
  have cur: "cur = max cur0 (runID ?w)" using s by (auto split: if_splits)
  show ?thesis
    using replace_step_Cons(1,2)[OF i2 w2 p2, of ?w cur] t2 cur
    by (auto simp: g' not_less)
qed


definition tag_example :: RunGenerator where
  "tag_example =
     \<lparr>rg_K = 2, bufSize = 2,
      loserTree = initialize \<lparr>tree = [0, 0], leaves = [SENTINEL, SENTINEL, SENTINEL], lt_k = 2\<rparr> [3, 1],
      activeIn = [3, 1], standbyIn = [0, 0], activeOut = [], standbyOut = [0, 0],
      activeInIdx = 2, standby_input_ready = False, standby_output_busy = False,
      input_eof = False, inputFile = [2, 0],
      runFile = snd (allocateNewRun (snd (open_rf (snd (create (RunFile_init None) 2))))),
      currentRunStartOffset = 60, totalElementsInRun = 0, currentRunId = 0,
      generatedRuns = []\<rparr>"

definition step_state :: "step_result \<Rightarrow> RunGenerator" where
  "step_state r = (case r of Continue g c \<Rightarrow> g | _ \<Rightarrow> tag_example)"

lemma tag_example_step1:
  "compute_step tag_example 1 = Continue (step_state (compute_step tag_example 1)) 1"
  by code_simp

theorem replacement_tag_witness:
  "in_inv tag_example \<and> lt_wf (loserTree tag_example) \<and> pending_input tag_example = [2, 0] \<and>
   compute_step tag_example 1 = Continue (step_state (compute_step tag_example 1)) 1 \<and>
   getWinner (loserTree tag_example) = \<lparr>value = 1, runID = 1\<rparr> \<and>
   leaves (loserTree (step_state (compute_step tag_example 1))) =
     [\<lparr>value = 3, runID = 1\<rparr>, \<lparr>value = 2, runID = 1\<rparr>, SENTINEL] \<and>
   pending_input (step_state (compute_step tag_example 1)) = [0]"
proof -
  have i: "in_inv tag_example" by (simp add: in_inv_def tag_example_def)
  have w: "lt_wf (loserTree tag_example)"
    using initialize_wf[of "\<lparr>tree = [0, 0], leaves = [SENTINEL, SENTINEL, SENTINEL], lt_k = 2\<rparr>" "[3, 1]"]
    by (simp add: tag_example_def)
  have p: "pending_input tag_example = [2, 0]" by (simp add: pending_input_def tag_example_def)
  have gw: "getWinner (loserTree tag_example) = \<lparr>value = 1, runID = 1\<rparr>" by code_simp
  have lv: "leaves (loserTree tag_example) = [\<lparr>value = 3, runID = 1\<rparr>, \<lparr>value = 1, runID = 1\<rparr>, SENTINEL]"
    by code_simp
  have t0: "tree (loserTree tag_example) ! 0 = 1" by code_simp
  show ?thesis
    using replacement_tag[OF i w p tag_example_step1] i w p tag_example_step1 gw
    by (simp add: lv t0)
qed


subsection \<open>An empty input file\<close>

lemma pullNextInput_empty:
  assumes "pending_input g = []" "inputFile g = []"
  shows "fst (pullNextInput g) = None \<and> same_but_input g (snd (pullNextInput g))"
  using assms
proof (induction g rule: pullNextInput.induct)
  case (1 g)
  have nact: "\<not> activeInIdx g < length (activeIn g)"
    using "1.prems"(1) by (simp add: pending_input_def)
  show ?case
  proof (cases "standby_input_ready g")
    case True
    let ?g1 = "g\<lparr>activeIn := standbyIn g, standbyIn := activeIn g,
                  activeInIdx := 0, standby_input_ready := False\<rparr>"
    have e: "pullNextInput g = pullNextInput ?g1"
      using nact True by (subst pullNextInput.simps) simp
    have "pending_input ?g1 = []" "inputFile ?g1 = []"
      using "1.prems" True by (simp_all add: pending_input_def)
    from "1.IH"(1)[OF nact True this] show ?thesis
      unfolding e by (simp add: same_but_input_def)
  next
    case nready: False
    show ?thesis
    proof (cases "input_eof g")
      case True
      then have "pullNextInput g = (None, g)"
        using nact nready by (subst pullNextInput.simps) simp
      then show ?thesis by (simp add: same_but_input_refl)
    next
      case False
      have e: "pullNextInput g = pullNextInput (inputWorker g)"
        using nact nready False by (subst pullNextInput.simps) simp
      have "pending_input (inputWorker g) = []" "inputFile (inputWorker g) = []"
        using "1.prems" nready by (simp_all add: pending_input_def inputWorker_def Let_def)
      from "1.IH"(2)[OF nact nready False this] show ?thesis
        unfolding e by (simp add: same_but_input_def inputWorker_def Let_def)
    qed
  qed
qed

lemma fill_initial_empty:
  assumes "pending_input g = []" "inputFile g = []"
  shows "fst (fill_initial g []) = [] \<and> same_but_input g (snd (fill_initial g []))"
proof (cases "int (length ([]::int list)) < rg_K g")
  case False
  then have "fill_initial g [] = ([], g)" by (subst fill_initial.simps) simp
  then show ?thesis by (simp add: same_but_input_refl)
next
  case True
  obtain r g1 where p: "pullNextInput g = (r, g1)" by (cases "pullNextInput g") auto
  with pullNextInput_empty[OF assms] have "r = None" "same_but_input g g1" by simp_all
  moreover from this p True have "fill_initial g [] = ([], g1)"
    by (subst fill_initial.simps) simp
  ultimately show ?thesis by simp
qed

lemma getWinner_all_sentinel:
  assumes "0 < lt_k t"
  shows "getWinner (initialize t []) = SENTINEL"
proof -
  have lv: "leaves (initialize t []) = map (\<lambda>i. SENTINEL) [0..<lt_k t] @ [SENTINEL]"
    using initialize_leaves(1)[of t "[]"] by simp
  have "tree (initialize t []) ! 0 \<le> lt_k t" by (rule initialize_range[OF assms])
  then show ?thesis
    unfolding getWinner_def lv by (simp add: nth_append)
qed

lemma allocateNewRun_first:
  assumes "rf_ok rf" "0 < maxRuns (header rf)" "\<not> isUsed (directory rf ! 0)"
  shows "fst (allocateNewRun rf) = 0"
    and "directory (snd (allocateNewRun rf)) =
           (directory rf)[0 := \<lparr>startOffset = 0, elementCount = 0, isUsed = True\<rparr>]"
    and "map_option f_directory (disk (snd (allocateNewRun rf))) =
           Some ((directory rf)[0 := \<lparr>startOffset = 0, elementCount = 0, isUsed = True\<rparr>])"
proof -
  have f: "List.find (\<lambda>i. \<not> isUsed (directory rf ! i)) [0..<nat (maxRuns (header rf))] = Some 0"
    using assms(2,3) by (subst upt_conv_Cons) auto
  have ok': "rf_ok (snd (allocateNewRun rf))" by (rule rf_ok_allocateNewRun[OF assms(1)])
  have m: "(directory rf ! 0)\<lparr>isUsed := True, startOffset := 0, elementCount := 0\<rparr>
            = \<lparr>startOffset = 0, elementCount = 0, isUsed = True\<rparr>"
    by (cases "directory rf ! 0") simp
  show "fst (allocateNewRun rf) = 0" using f by (simp add: allocateNewRun_def Let_def)
  show d: "directory (snd (allocateNewRun rf)) =
           (directory rf)[0 := \<lparr>startOffset = 0, elementCount = 0, isUsed = True\<rparr>]"
    using f by (simp add: allocateNewRun_def Let_def writeMetadataToDisk_def m split: option.splits)
  show "map_option f_directory (disk (snd (allocateNewRun rf))) =
           Some ((directory rf)[0 := \<lparr>startOffset = 0, elementCount = 0, isUsed = True\<rparr>])"
    using ok' d by (simp add: rf_ok_def)
qed

lemma RunGenerator_init_Inr:
  assumes "RunGenerator_init kk b = Inr g"
  shows "0 < lt_k (loserTree g)" "activeOut g = []" "standby_output_busy g = False"
    "pending_input g = []" "rg_K g = kk" "bufSize g = b" "0 < kk" "0 \<le> b"
    "lt_k (loserTree g) = nat kk" "activeIn g = []" "standby_input_ready g = False"
    "input_eof g = False"
  using assms
  by (auto simp: RunGenerator_init_def LoserTree_init_def pending_input_def split: if_splits)

text \<open>
  Claim C10 (empty input). On a run file that is open with no slot in use and at least one
  slot, \<open>generateRuns\<close> with an empty input file returns the empty vector, and the run
  file is left with slot 0, and no other, marked as used with offset 0 and count 0, in
  memory and on disk.
\<close>

theorem generateRuns_empty_input:
  assumes "RunGenerator_init kk b = Inr g" "rf_ok rf" "0 < maxRuns (header rf)"
      and "used_count (directory rf) = 0"
  shows "\<exists>g'. generateRuns g (Some []) rf = Some (Inr ([], g')) \<and>
           directory (runFile g') =
             (directory rf)[0 := \<lparr>startOffset = 0, elementCount = 0, isUsed = True\<rparr>] \<and>
           map_option f_directory (disk (runFile g')) =
             Some ((directory rf)[0 := \<lparr>startOffset = 0, elementCount = 0, isUsed = True\<rparr>]) \<and>
           used_count (directory (runFile g')) = 1"
proof -
  note gi = RunGenerator_init_Inr[OF assms(1)]
  have len: "length (directory rf) = nat (maxRuns (header rf))" using assms(2) by (simp add: rf_ok_def)
  have nu: "\<not> isUsed (directory rf ! 0)"
  proof
    assume "isUsed (directory rf ! 0)"
    moreover have "directory rf ! 0 \<in> set (directory rf)" using len assms(3) by simp
    ultimately have "filter isUsed (directory rf) \<noteq> []" by (auto simp: filter_empty_conv)
    then show False using assms(4) by (simp add: used_count_def)
  qed
  note al = allocateNewRun_first[OF assms(2) assms(3) nu]
  define rf1 where "rf1 = snd (allocateNewRun rf)"
  define g1 where "g1 = g\<lparr>inputFile := [], runFile := rf1, currentRunId := 0,
                            currentRunStartOffset := getAppendOffset rf1,
                            totalElementsInRun := 0, generatedRuns := []\<rparr>"
  have a: "allocateNewRun rf = (0, rf1)" using al(1) by (simp add: rf1_def prod_eq_iff)
  have p1: "pending_input g1 = []" "inputFile g1 = []"
    using gi(10,11) by (simp_all add: g1_def pending_input_def)
  define g2 where "g2 = snd (fill_initial g1 [])"
  have f: "fill_initial g1 [] = ([], g2)" "same_but_input g1 g2"
    using fill_initial_empty[OF p1] by (simp_all add: g2_def prod_eq_iff)
  have g2: "loserTree g2 = loserTree g" "activeOut g2 = []" "standby_output_busy g2 = False"
     "totalElementsInRun g2 = 0" "runFile g2 = rf1" "generatedRuns g2 = []"
    using f(2) gi by (simp_all add: same_but_input_def g1_def)
  define g3 where "g3 = g2\<lparr>loserTree := initialize (loserTree g2) []\<rparr>"
  have "getWinner (loserTree g3) = SENTINEL"
    using getWinner_all_sentinel[of "loserTree g"] gi(1) g2(1) by (simp add: g3_def)
  then have "compute_step g3 1 = Break"
    by (simp add: compute_step_def SENTINEL_def)
  then have cl: "compute_loop g3 1 = Some (Inr g3)"
    by (subst compute_loop.simps) simp
  have fin: "finish g3 = Inr g3"
    using g2 by (simp add: finish_def wait_output_def seal_run_def g3_def)
  have cw: "computeWorker g1 = Some (Inr g3)"
    using f(1) cl fin by (simp add: computeWorker_def g3_def)
  have "generateRuns g (Some []) rf = Some (Inr ([], g3))"
    using a cw g2(6) by (simp add: generateRuns_def Let_def g1_def g3_def)
  moreover have "runFile g3 = rf1" using g2(5) by (simp add: g3_def)
  moreover have "used_count ((directory rf)[0 := \<lparr>startOffset = 0, elementCount = 0, isUsed = True\<rparr>]) = 1"
  proof -
    obtain x xs where d: "directory rf = x # xs" using len assms(3) by (cases "directory rf") auto
    then show ?thesis using assms(4) by (simp add: used_count_def split: if_splits)
  qed
  ultimately show ?thesis using al(2,3) by (auto simp: rf1_def)
qed


definition empty_example_gen :: RunGenerator where
  "empty_example_gen =
     \<lparr>rg_K = 3, bufSize = 2,
      loserTree = \<lparr>tree = [0, 0, 0], leaves = [SENTINEL, SENTINEL, SENTINEL, SENTINEL], lt_k = 3\<rparr>,
      activeIn = [], standbyIn = [0, 0], activeOut = [], standbyOut = [0, 0],
      activeInIdx = 0, standby_input_ready = False, standby_output_busy = False,
      input_eof = False, inputFile = [], runFile = RunFile_init None,
      currentRunStartOffset = 0, totalElementsInRun = 0, currentRunId = 0,
      generatedRuns = []\<rparr>"

definition empty_example_file :: RunFile where
  "empty_example_file = snd (open_rf (snd (create (RunFile_init None) 2)))"

lemma empty_example_file_eq:
  "empty_example_file =
    \<lparr>disk = Some \<lparr>f_header = \<lparr>magic = ''RUNS'', maxRuns = 2, currentRunCount = 0\<rparr>,
                  f_directory = [\<lparr>startOffset = 0, elementCount = 0, isUsed = False\<rparr>,
                                 \<lparr>startOffset = 0, elementCount = 0, isUsed = False\<rparr>],
                  f_data = []\<rparr>,
     stream = Good,
     header = \<lparr>magic = ''RUNS'', maxRuns = 2, currentRunCount = 0\<rparr>,
     directory = [\<lparr>startOffset = 0, elementCount = 0, isUsed = False\<rparr>,
                  \<lparr>startOffset = 0, elementCount = 0, isUsed = False\<rparr>]\<rparr>"
  by (simp add: empty_example_file_def create_def open_rf_def RunFile_init_def
      RunFileHeader_init_def RunMetadata_init_def Let_def numeral_2_eq_2)

theorem generateRuns_empty_input_witness:
  "RunGenerator_init 3 2 = Inr empty_example_gen \<and> rf_ok empty_example_file \<and>
   0 < maxRuns (header empty_example_file) \<and> used_count (directory empty_example_file) = 0 \<and>
   (\<exists>g'. generateRuns empty_example_gen (Some []) empty_example_file = Some (Inr ([], g')) \<and>
         directory (runFile g') = [\<lparr>startOffset = 0, elementCount = 0, isUsed = True\<rparr>,
                                   \<lparr>startOffset = 0, elementCount = 0, isUsed = False\<rparr>] \<and>
         map_option f_directory (disk (runFile g')) =
           Some [\<lparr>startOffset = 0, elementCount = 0, isUsed = True\<rparr>,
                 \<lparr>startOffset = 0, elementCount = 0, isUsed = False\<rparr>] \<and>
         used_count (directory (runFile g')) = 1)"
proof -
  have h1: "RunGenerator_init 3 2 = Inr empty_example_gen"
    by (simp add: RunGenerator_init_def LoserTree_init_def empty_example_gen_def numeral_3_eq_3
          numeral_2_eq_2)
  have h2: "rf_ok empty_example_file" by (simp add: empty_example_file_eq rf_ok_def)
  have h3: "0 < maxRuns (header empty_example_file)" by (simp add: empty_example_file_eq)
  have h4: "used_count (directory empty_example_file) = 0"
    by (simp add: empty_example_file_eq used_count_def)
  have d: "directory empty_example_file = [\<lparr>startOffset = 0, elementCount = 0, isUsed = False\<rparr>,
                  \<lparr>startOffset = 0, elementCount = 0, isUsed = False\<rparr>]"
    by (simp add: empty_example_file_eq)
  show ?thesis
    using generateRuns_empty_input[OF h1 h2 h3 h4] h1 h2 h3 h4
    by (simp add: d)
qed


subsection \<open>Runs in the data area\<close>

definition rf_data :: "RunFile \<Rightarrow> int list" where
  "rf_data rf = (case disk rf of None \<Rightarrow> [] | Some d \<Rightarrow> f_data d)"

definition rf_base :: "RunFile \<Rightarrow> int" where
  "rf_base rf = (case disk rf of None \<Rightarrow> 0 | Some d \<Rightarrow> data_base d)"

text \<open>
  The elements that a directory entry describes: the run starts at element number
  \<open>run_start\<close> of the data area and has \<open>elementCount\<close> elements. \<open>run_valid\<close> says that the
  entry addresses elements that are in the file.
\<close>

definition run_start :: "RunFile \<Rightarrow> RunMetadata \<Rightarrow> nat" where
  "run_start rf m = nat ((startOffset m - rf_base rf) div sizeof_T)"

definition run_valid :: "RunFile \<Rightarrow> RunMetadata \<Rightarrow> bool" where
  "run_valid rf m =
     (rf_base rf \<le> startOffset m \<and> (startOffset m - rf_base rf) mod sizeof_T = 0 \<and>
      0 \<le> elementCount m \<and>
      run_start rf m + nat (elementCount m) \<le> length (rf_data rf))"

definition run_data :: "RunFile \<Rightarrow> RunMetadata \<Rightarrow> int list" where
  "run_data rf m = take (nat (elementCount m)) (drop (run_start rf m) (rf_data rf))"

lemma run_valid_offset:
  "run_valid rf m \<Longrightarrow> startOffset m = rf_base rf + int (run_start rf m) * sizeof_T"
  by (auto simp: run_valid_def run_start_def sizeof_T_def)

lemma run_valid_length: "run_valid rf m \<Longrightarrow> length (run_data rf m) = nat (elementCount m)"
  by (auto simp: run_valid_def run_data_def)

lemma rf_ok_disk_Some:
  assumes "rf_ok rf"
  obtains d where "disk rf = Some d" "f_data d = rf_data rf" "data_base d = rf_base rf"
    "f_directory d = directory rf" "stream rf = Good"
  using assms by (cases "disk rf") (auto simp: rf_ok_def rf_data_def rf_base_def)

lemma elem_index_at:
  "data_base d = b \<Longrightarrow> elem_index d (b + int i * sizeof_T) = Some i"
  by (simp add: elem_index_def sizeof_T_def)

lemma read_elems_ok:
  assumes "rf_ok rf" "i + n \<le> length (rf_data rf)"
  shows "read_elems rf (rf_base rf + int i * sizeof_T) n = Inr (take n (drop i (rf_data rf)))"
proof -
  from assms(1) obtain d where d: "disk rf = Some d" "f_data d = rf_data rf"
    "data_base d = rf_base rf" "stream rf = Good" by (rule rf_ok_disk_Some)
  show ?thesis
    using d assms(2) elem_index_at[OF d(3), of i]
    by (simp add: read_elems_def)
qed

lemma getAppendOffset_ok:
  "rf_ok rf \<Longrightarrow> getAppendOffset rf = rf_base rf + int (length (rf_data rf)) * sizeof_T"
  by (erule rf_ok_disk_Some) (simp add: getAppendOffset_def file_size_def)

lemma write_elems_append:
  assumes "rf_ok rf"
  shows "\<exists>rf'. write_elems rf (rf_base rf + int (length (rf_data rf)) * sizeof_T) xs = Inr rf' \<and>
           rf_ok rf' \<and> rf_data rf' = rf_data rf @ xs \<and> rf_base rf' = rf_base rf \<and>
           directory rf' = directory rf \<and> header rf' = header rf"
proof -
  from assms(1) obtain d where d: "disk rf = Some d" "f_data d = rf_data rf"
    "data_base d = rf_base rf" "stream rf = Good" by (rule rf_ok_disk_Some)
  have e: "write_elems rf (rf_base rf + int (length (rf_data rf)) * sizeof_T) xs
            = Inr (rf\<lparr>disk := Some (d\<lparr>f_data := rf_data rf @ xs\<rparr>)\<rparr>)"
    using d elem_index_at[OF d(3), of "length (rf_data rf)"]
    by (simp add: write_elems_def)
  show ?thesis
    unfolding e using assms d
    by (simp add: rf_ok_def rf_data_def rf_base_def data_base_def)
qed

lemma allocateNewRun_frame:
  assumes "rf_ok rf"
  shows "rf_data (snd (allocateNewRun rf)) = rf_data rf"
    and "rf_base (snd (allocateNewRun rf)) = rf_base rf"
    and "maxRuns (header (snd (allocateNewRun rf))) = maxRuns (header rf)"
    and "fst (allocateNewRun rf) = - 1 \<or>
         (0 \<le> fst (allocateNewRun rf) \<and> fst (allocateNewRun rf) < maxRuns (header rf))"
    and "length (directory (snd (allocateNewRun rf))) = length (directory rf)"
proof -
  from assms(1) obtain d where d: "disk rf = Some d" "f_data d = rf_data rf"
    "data_base d = rf_base rf" "stream rf = Good" by (rule rf_ok_disk_Some)
  show "rf_data (snd (allocateNewRun rf)) = rf_data rf"
    using d by (auto simp: allocateNewRun_def Let_def writeMetadataToDisk_def rf_data_def
                     split: option.splits)
  show "rf_base (snd (allocateNewRun rf)) = rf_base rf"
    using d by (auto simp: allocateNewRun_def Let_def writeMetadataToDisk_def rf_base_def
                     data_base_def split: option.splits)
  show "maxRuns (header (snd (allocateNewRun rf))) = maxRuns (header rf)"
    by (auto simp: allocateNewRun_def Let_def writeMetadataToDisk_def split: option.splits)
  show "fst (allocateNewRun rf) = - 1 \<or>
         (0 \<le> fst (allocateNewRun rf) \<and> fst (allocateNewRun rf) < maxRuns (header rf))"
    by (auto simp: allocateNewRun_def Let_def split: option.splits dest!: find_first_free)
  show "length (directory (snd (allocateNewRun rf))) = length (directory rf)"
    by (auto simp: allocateNewRun_def Let_def writeMetadataToDisk_def split: option.splits)
qed

lemma updateRunMetadata_frame:
  assumes "rf_ok rf" "0 \<le> i" "i < maxRuns (header rf)"
  shows "fst (updateRunMetadata rf i so ec) = None"
    and "rf_ok (snd (updateRunMetadata rf i so ec))"
    and "rf_data (snd (updateRunMetadata rf i so ec)) = rf_data rf"
    and "rf_base (snd (updateRunMetadata rf i so ec)) = rf_base rf"
    and "maxRuns (header (snd (updateRunMetadata rf i so ec))) = maxRuns (header rf)"
    and "getRunMetadata (snd (updateRunMetadata rf i so ec)) i =
           Inr ((directory rf ! nat i)\<lparr>startOffset := so, elementCount := ec\<rparr>)"
proof -
  from assms(1) obtain d where d: "disk rf = Some d" "f_data d = rf_data rf"
    "data_base d = rf_base rf" "stream rf = Good" by (rule rf_ok_disk_Some)
  have len: "length (directory rf) = nat (maxRuns (header rf))" using assms(1) by (simp add: rf_ok_def)
  show "fst (updateRunMetadata rf i so ec) = None"
    using assms by (simp add: updateRunMetadata_def Let_def)
  show "rf_ok (snd (updateRunMetadata rf i so ec))" by (rule rf_ok_updateRunMetadata[OF assms(1)])
  show "rf_data (snd (updateRunMetadata rf i so ec)) = rf_data rf"
    using d assms by (simp add: updateRunMetadata_def Let_def writeMetadataToDisk_def rf_data_def)
  show "rf_base (snd (updateRunMetadata rf i so ec)) = rf_base rf"
    using d assms
    by (simp add: updateRunMetadata_def Let_def writeMetadataToDisk_def rf_base_def data_base_def)
  show "maxRuns (header (snd (updateRunMetadata rf i so ec))) = maxRuns (header rf)"
    using d assms by (simp add: updateRunMetadata_def Let_def writeMetadataToDisk_def)
  show "getRunMetadata (snd (updateRunMetadata rf i so ec)) i =
           Inr ((directory rf ! nat i)\<lparr>startOffset := so, elementCount := ec\<rparr>)"
    using d assms len
    by (simp add: updateRunMetadata_def Let_def writeMetadataToDisk_def getRunMetadata_def)
qed

text \<open>Runs that are in the file stay what they are when elements are appended.\<close>

lemma run_append_frame:
  assumes "run_valid rf m" "rf_data rf' = rf_data rf @ ys" "rf_base rf' = rf_base rf"
  shows "run_valid rf' m" "run_data rf' m = run_data rf m" "run_start rf' m = run_start rf m"
  using assms by (auto simp: run_valid_def run_data_def run_start_def)

lemma run_same_frame:
  assumes "rf_data rf' = rf_data rf" "rf_base rf' = rf_base rf"
  shows "run_valid rf' m = run_valid rf m" "run_data rf' m = run_data rf m"
    "run_start rf' m = run_start rf m"
  using assms by (auto simp: run_valid_def run_data_def run_start_def)


declare read_all.simps [simp del]

subsection \<open>Reading a run through an InputBuffer\<close>

text \<open>The elements that \<open>getNextItem\<close> is still to deliver: the rest of the block in memory,
  then the rest of the run in the file.\<close>

definition ib_rest :: "RunFile \<Rightarrow> InputBuffer \<Rightarrow> int list" where
  "ib_rest rf ib =
     drop (nat (currentIndexInBuffer ib)) (take (nat (elementsInBuffer ib)) (ib_buffer ib)) @
     take (nat (elementCount (ib_runMeta ib) - totalElementsRead ib))
       (drop (run_start rf (ib_runMeta ib) + nat (totalElementsRead ib)) (rf_data rf))"

definition ib_inv :: "RunFile \<Rightarrow> InputBuffer \<Rightarrow> bool" where
  "ib_inv rf ib =
     (run_valid rf (ib_runMeta ib) \<and> 0 < ib_bufferSizeInElements ib \<and>
      0 \<le> currentIndexInBuffer ib \<and> currentIndexInBuffer ib \<le> elementsInBuffer ib \<and>
      nat (elementsInBuffer ib) \<le> length (ib_buffer ib) \<and>
      0 \<le> totalElementsRead ib \<and> totalElementsRead ib \<le> elementCount (ib_runMeta ib))"

lemma ib_append_frame:
  assumes "ib_inv rf ib" "rf_data rf' = rf_data rf @ ys" "rf_base rf' = rf_base rf"
  shows "ib_inv rf' ib" "ib_rest rf' ib = ib_rest rf ib"
proof -
  have v: "run_valid rf (ib_runMeta ib)" using assms(1) by (simp add: ib_inv_def)
  note f = run_append_frame[OF v assms(2) assms(3)]
  show "ib_inv rf' ib" using assms(1) f(1) by (simp add: ib_inv_def)
  have "run_start rf (ib_runMeta ib) + nat (elementCount (ib_runMeta ib)) \<le> length (rf_data rf)"
    using v by (simp add: run_valid_def)
  moreover have "0 \<le> totalElementsRead ib" "totalElementsRead ib \<le> elementCount (ib_runMeta ib)"
    using assms(1) by (simp_all add: ib_inv_def)
  ultimately show "ib_rest rf' ib = ib_rest rf ib"
    using assms(2) f(3) by (simp add: ib_rest_def)
qed

lemma ib_same_frame:
  assumes "rf_data rf' = rf_data rf" "rf_base rf' = rf_base rf"
  shows "ib_inv rf' ib = ib_inv rf ib" "ib_rest rf' ib = ib_rest rf ib"
  using run_same_frame[OF assms] assms(1) by (simp_all add: ib_inv_def ib_rest_def)

lemma InputBuffer_init_ok:
  assumes "run_valid rf m" "0 < bs"
  shows "\<exists>ib. InputBuffer_init m bs = Inr ib \<and> ib_inv rf ib \<and> ib_rest rf ib = run_data rf m \<and>
              ib_runMeta ib = m"
  using assms
  by (auto simp: InputBuffer_init_def ib_inv_def ib_rest_def run_data_def run_valid_def)

lemma getNextItem_spec:
  assumes "rf_ok rf" "ib_inv rf ib"
  shows "\<exists>r ib'. getNextItem rf ib = Inr (r, ib') \<and> ib_inv rf ib' \<and>
           ib_runMeta ib' = ib_runMeta ib \<and>
           (case ib_rest rf ib of
              [] \<Rightarrow> r = None \<and> ib_rest rf ib' = []
            | x # xs \<Rightarrow> r = Some x \<and> ib_rest rf ib' = xs)"
proof -
  let ?m = "ib_runMeta ib"
  have inv: "run_valid rf ?m" "0 < ib_bufferSizeInElements ib"
    "0 \<le> currentIndexInBuffer ib" "currentIndexInBuffer ib \<le> elementsInBuffer ib"
    "nat (elementsInBuffer ib) \<le> length (ib_buffer ib)"
    "0 \<le> totalElementsRead ib" "totalElementsRead ib \<le> elementCount ?m"
    using assms(2) by (simp_all add: ib_inv_def)
  show ?thesis
  proof (cases "currentIndexInBuffer ib \<ge> elementsInBuffer ib")
    case False
    let ?i = "nat (currentIndexInBuffer ib)"
    have lt: "?i < length (take (nat (elementsInBuffer ib)) (ib_buffer ib))"
      using False inv by simp
    have "drop ?i (take (nat (elementsInBuffer ib)) (ib_buffer ib))
            = ib_buffer ib ! ?i # drop (Suc ?i) (take (nat (elementsInBuffer ib)) (ib_buffer ib))"
      using Cons_nth_drop_Suc[OF lt] False inv by simp
    moreover have "Suc ?i = nat (currentIndexInBuffer ib + 1)" using inv by simp
    ultimately show ?thesis
      using False inv by (simp add: getNextItem_def ib_rest_def ib_inv_def)
  next
    case True
    then have buf: "drop (nat (currentIndexInBuffer ib))
                      (take (nat (elementsInBuffer ib)) (ib_buffer ib)) = []"
      by simp
    show ?thesis
    proof (cases "totalElementsRead ib \<ge> elementCount ?m")
      case t: True
      then have "readBlock rf ib = Inr (False, ib)" by (simp add: readBlock_def)
      then show ?thesis
        using True t buf assms(2) by (simp add: getNextItem_def ib_rest_def)
    next
      case f: False
      define n where "n = min (ib_bufferSizeInElements ib) (elementCount ?m - totalElementsRead ib)"
      define s where "s = run_start rf ?m + nat (totalElementsRead ib)"
      have n: "0 < n" "n \<le> elementCount ?m - totalElementsRead ib"
        using f inv by (simp_all add: n_def)
      have rng: "s + nat n \<le> length (rf_data rf)"
      proof -
        have "nat (totalElementsRead ib) + nat n \<le> nat (elementCount ?m)"
          using n inv(6) by linarith
        moreover have "run_start rf ?m + nat (elementCount ?m) \<le> length (rf_data rf)"
          using inv(1) by (simp add: run_valid_def)
        ultimately show ?thesis by (simp add: s_def)
      qed
      have off: "startOffset ?m + totalElementsRead ib * sizeof_T = rf_base rf + int s * sizeof_T"
        using run_valid_offset[OF inv(1)] inv(6) by (simp add: s_def algebra_simps)
      define xs where "xs = take (nat n) (drop s (rf_data rf))"
      have rd: "read_elems rf (startOffset ?m + totalElementsRead ib * sizeof_T) (nat n) = Inr xs"
        unfolding off xs_def by (rule read_elems_ok[OF assms(1) rng])
      have lx: "length xs = nat n" using rng by (simp add: xs_def)
      define ib1 where "ib1 = ib\<lparr>ib_buffer := xs, elementsInBuffer := n,
                                   totalElementsRead := totalElementsRead ib + n,
                                   currentIndexInBuffer := 0\<rparr>"
      have rb: "readBlock rf ib = Inr (True, ib1)"
        using f n rd by (simp add: readBlock_def Let_def n_def[symmetric] ib1_def)
      have g: "getNextItem rf ib = Inr (Some (xs ! 0), ib1\<lparr>currentIndexInBuffer := 1\<rparr>)"
        using True rb by (simp add: getNextItem_def ib1_def)
      have old: "ib_rest rf ib = take (nat (elementCount ?m - totalElementsRead ib)) (drop s (rf_data rf))"
        using buf by (simp add: ib_rest_def s_def)
      have split: "take (nat (elementCount ?m - totalElementsRead ib)) (drop s (rf_data rf))
            = xs @ take (nat (elementCount ?m - (totalElementsRead ib + n))) (drop (s + nat n) (rf_data rf))"
      proof -
        have "nat (elementCount ?m - totalElementsRead ib)
                = nat n + nat (elementCount ?m - (totalElementsRead ib + n))"
          using n by simp
        then show ?thesis by (simp add: xs_def take_add add.commute)
      qed
      have xne: "xs = xs ! 0 # drop 1 xs" using lx n by (cases xs) auto
      have new: "ib_rest rf (ib1\<lparr>currentIndexInBuffer := 1\<rparr>)
                   = drop 1 xs @ take (nat (elementCount ?m - (totalElementsRead ib + n)))
                                   (drop (s + nat n) (rf_data rf))"
        using lx inv(6) n by (simp add: ib_rest_def ib1_def s_def nat_add_distrib add.assoc)
      have inv1: "ib_inv rf (ib1\<lparr>currentIndexInBuffer := 1\<rparr>)"
        using inv n lx by (simp add: ib_inv_def ib1_def)
      have "ib_rest rf ib = xs ! 0 # ib_rest rf (ib1\<lparr>currentIndexInBuffer := 1\<rparr>)"
        unfolding old split new using xne by (metis append_Cons)
      then show ?thesis using g inv1 by (simp add: ib1_def)
    qed
  qed
qed

lemma getNextItem_Nil:
  assumes "rf_ok rf" "ib_inv rf ib" "ib_rest rf ib = []"
  obtains ib' where "getNextItem rf ib = Inr (None, ib')" "ib_inv rf ib'" "ib_rest rf ib' = []"
    "ib_runMeta ib' = ib_runMeta ib"
  using getNextItem_spec[OF assms(1,2)] assms(3) by auto

lemma getNextItem_Cons:
  assumes "rf_ok rf" "ib_inv rf ib" "ib_rest rf ib = x # xs"
  obtains ib' where "getNextItem rf ib = Inr (Some x, ib')" "ib_inv rf ib'" "ib_rest rf ib' = xs"
    "ib_runMeta ib' = ib_runMeta ib"
  using getNextItem_spec[OF assms(1,2)] assms(3) by auto

lemma read_all_spec:
  assumes "rf_ok rf" "ib_inv rf ib"
  shows "read_all rf ib = Inr (ib_rest rf ib)"
  using assms(2)
proof (induction "ib_rest rf ib" arbitrary: ib)
  case Nil
  from getNextItem_Nil[OF assms(1) Nil.prems Nil.hyps[symmetric]]
  obtain ib' where "getNextItem rf ib = Inr (None, ib')" by blast
  then show ?case using Nil.hyps by (subst read_all.simps) simp
next
  case (Cons x xs)
  from getNextItem_Cons[OF assms(1) Cons.prems Cons.hyps(2)[symmetric]]
  obtain ib' where g: "getNextItem rf ib = Inr (Some x, ib')" "ib_inv rf ib'" "ib_rest rf ib' = xs"
    by blast
  have "read_all rf ib' = Inr xs" using Cons.hyps(1)[OF g(3)[symmetric] g(2)] g(3) by simp
  then show ?case using g(1) Cons.hyps(2) by (subst read_all.simps) simp
qed

lemma read_run_spec:
  assumes "rf_ok rf" "run_valid rf m" "0 < bs"
  shows "read_run rf m bs = Inr (run_data rf m)"
proof -
  from InputBuffer_init_ok[OF assms(2,3)] obtain ib where
    "InputBuffer_init m bs = Inr ib" "ib_inv rf ib" "ib_rest rf ib = run_data rf m" by blast
  then show ?thesis using read_all_spec[OF assms(1), of ib] by (simp add: read_run_def)
qed


subsection \<open>Writing a run through an OutputBuffer\<close>

definition rf_ext :: "RunFile \<Rightarrow> RunFile \<Rightarrow> bool" where
  "rf_ext rf rf' =
     (rf_ok rf' \<and> (\<exists>ys. rf_data rf' = rf_data rf @ ys) \<and> rf_base rf' = rf_base rf \<and>
      directory rf' = directory rf \<and> header rf' = header rf)"

lemma rf_ext_refl: "rf_ok rf \<Longrightarrow> rf_ext rf rf"
  by (simp add: rf_ext_def)

lemma rf_ext_trans: "rf_ext rf rf1 \<Longrightarrow> rf_ext rf1 rf2 \<Longrightarrow> rf_ext rf rf2"
  by (auto simp: rf_ext_def)

lemma rf_ext_ib:
  assumes "rf_ext rf rf'" "ib_inv rf ib"
  shows "ib_inv rf' ib" "ib_rest rf' ib = ib_rest rf ib"
  using assms ib_append_frame[of rf ib rf'] by (auto simp: rf_ext_def)

lemma rf_ext_run:
  assumes "rf_ext rf rf'" "run_valid rf m"
  shows "run_valid rf' m" "run_data rf' m = run_data rf m"
  using assms run_append_frame[of rf m rf'] by (auto simp: rf_ext_def)

definition ob_pending :: "OutputBuffer \<Rightarrow> int list" where
  "ob_pending ob = take (nat (currentBufferIndex ob)) (ob_buffer ob)"

definition ob_all :: "RunFile \<Rightarrow> OutputBuffer \<Rightarrow> int list" where
  "ob_all rf ob = rf_data rf @ ob_pending ob"

definition ob_inv :: "RunFile \<Rightarrow> OutputBuffer \<Rightarrow> bool" where
  "ob_inv rf ob =
     (0 < ob_bufferSizeInElements ob \<and>
      length (ob_buffer ob) = nat (ob_bufferSizeInElements ob) \<and>
      0 \<le> currentBufferIndex ob \<and> currentBufferIndex ob < ob_bufferSizeInElements ob \<and>
      0 \<le> totalElementsWritten ob \<and>
      ob_runStartOffset ob + totalElementsWritten ob * sizeof_T
        = rf_base rf + int (length (rf_data rf)) * sizeof_T)"

lemma writeBlock_spec:
  assumes "rf_ok rf" "0 < currentBufferIndex ob"
    "ob_runStartOffset ob + totalElementsWritten ob * sizeof_T
        = rf_base rf + int (length (rf_data rf)) * sizeof_T"
  shows "\<exists>rf'. writeBlock rf ob =
              Inr (rf', ob\<lparr>totalElementsWritten := totalElementsWritten ob + currentBufferIndex ob,
                            currentBufferIndex := 0\<rparr>) \<and>
           rf_ext rf rf' \<and> rf_data rf' = rf_data rf @ ob_pending ob"
proof -
  from write_elems_append[OF assms(1), of "ob_pending ob"] obtain rf' where
    w: "write_elems rf (rf_base rf + int (length (rf_data rf)) * sizeof_T) (ob_pending ob) = Inr rf'"
    and r: "rf_ok rf'" "rf_data rf' = rf_data rf @ ob_pending ob" "rf_base rf' = rf_base rf"
       "directory rf' = directory rf" "header rf' = header rf" by blast
  have "stream rf = Good" using assms(1) by (simp add: rf_ok_def)
  then have "writeBlock rf ob =
              Inr (rf', ob\<lparr>totalElementsWritten := totalElementsWritten ob + currentBufferIndex ob,
                            currentBufferIndex := 0\<rparr>)"
    using assms(2,3) w by (simp add: writeBlock_def Let_def ob_pending_def)
  then show ?thesis using r by (auto simp: rf_ext_def)
qed

lemma setNextItem_spec:
  assumes "rf_ok rf" "ob_inv rf ob"
  shows "\<exists>rf' ob'. setNextItem rf ob x = Inr (rf', ob') \<and> rf_ext rf rf' \<and> ob_inv rf' ob' \<and>
           ob_all rf' ob' = ob_all rf ob @ [x] \<and>
           ob_runStartOffset ob' = ob_runStartOffset ob"
proof -
  have inv: "0 < ob_bufferSizeInElements ob"
    "length (ob_buffer ob) = nat (ob_bufferSizeInElements ob)"
    "0 \<le> currentBufferIndex ob" "currentBufferIndex ob < ob_bufferSizeInElements ob"
    "0 \<le> totalElementsWritten ob"
    "ob_runStartOffset ob + totalElementsWritten ob * sizeof_T
        = rf_base rf + int (length (rf_data rf)) * sizeof_T"
    using assms(2) by (simp_all add: ob_inv_def)
  define ob1 where "ob1 = ob\<lparr>ob_buffer := (ob_buffer ob)[nat (currentBufferIndex ob) := x],
                               currentBufferIndex := currentBufferIndex ob + 1\<rparr>"
  have lt: "nat (currentBufferIndex ob) < length (ob_buffer ob)" using inv by simp
  have p1: "ob_pending ob1 = ob_pending ob @ [x]"
  proof -
    have "nat (currentBufferIndex ob + 1) = Suc (nat (currentBufferIndex ob))" using inv by simp
    then show ?thesis
      using lt by (simp add: ob1_def ob_pending_def take_Suc_conv_app_nth)
  qed
  show ?thesis
  proof (cases "currentBufferIndex ob1 = ob_bufferSizeInElements ob1")
    case False
    then have "setNextItem rf ob x = Inr (rf, ob1)"
      by (simp add: setNextItem_def Let_def ob1_def)
    moreover have "ob_inv rf ob1" using inv False by (simp add: ob_inv_def ob1_def)
    ultimately show ?thesis
      using p1 rf_ext_refl[OF assms(1)] by (simp add: ob_all_def ob1_def)
  next
    case True
    have pos: "0 < currentBufferIndex ob1" using inv by (simp add: ob1_def)
    have off: "ob_runStartOffset ob1 + totalElementsWritten ob1 * sizeof_T
        = rf_base rf + int (length (rf_data rf)) * sizeof_T"
      using inv by (simp add: ob1_def)
    from writeBlock_spec[OF assms(1) pos off] obtain rf' where
      w: "writeBlock rf ob1 =
              Inr (rf', ob1\<lparr>totalElementsWritten := totalElementsWritten ob1 + currentBufferIndex ob1,
                            currentBufferIndex := 0\<rparr>)"
      and e: "rf_ext rf rf'" and d: "rf_data rf' = rf_data rf @ ob_pending ob1" by blast
    let ?ob2 = "ob1\<lparr>totalElementsWritten := totalElementsWritten ob1 + currentBufferIndex ob1,
                            currentBufferIndex := 0\<rparr>"
    have s: "setNextItem rf ob x = Inr (rf', ?ob2)"
      using True w by (simp add: setNextItem_def Let_def ob1_def)
    have lp: "length (ob_pending ob1) = nat (currentBufferIndex ob1)"
      using inv by (simp add: ob_pending_def ob1_def)
    have "ob_inv rf' ?ob2"
      using inv e d lp by (simp add: ob_inv_def ob1_def rf_ext_def sizeof_T_def)
    moreover have "ob_all rf' ?ob2 = ob_all rf ob @ [x]"
      using d p1 by (simp add: ob_all_def ob_pending_def)
    ultimately show ?thesis using s e by (simp add: ob1_def)
  qed
qed

lemma flush_spec:
  assumes "rf_ok rf" "ob_inv rf ob"
  shows "\<exists>rf' ob'. flush rf ob = Inr (rf', ob') \<and> rf_ext rf rf' \<and> rf_data rf' = ob_all rf ob \<and>
           ob_runStartOffset ob' = ob_runStartOffset ob \<and>
           ob_runStartOffset ob + getElementCount ob' * sizeof_T
             = rf_base rf + int (length (rf_data rf')) * sizeof_T \<and>
           0 \<le> getElementCount ob'"
proof (cases "0 < currentBufferIndex ob")
  case False
  then have "currentBufferIndex ob = 0" using assms(2) by (simp add: ob_inv_def)
  then show ?thesis
    using assms rf_ext_refl[OF assms(1)]
    by (simp add: flush_def ob_all_def ob_pending_def ob_inv_def getElementCount_def)
next
  case True
  have off: "ob_runStartOffset ob + totalElementsWritten ob * sizeof_T
        = rf_base rf + int (length (rf_data rf)) * sizeof_T"
    using assms(2) by (simp add: ob_inv_def)
  from writeBlock_spec[OF assms(1) True off] obtain rf' where
    w: "writeBlock rf ob =
              Inr (rf', ob\<lparr>totalElementsWritten := totalElementsWritten ob + currentBufferIndex ob,
                            currentBufferIndex := 0\<rparr>)"
    and e: "rf_ext rf rf'" and d: "rf_data rf' = rf_data rf @ ob_pending ob" by blast
  have lp: "length (ob_pending ob) = nat (currentBufferIndex ob)"
    using assms(2) by (simp add: ob_pending_def ob_inv_def)
  show ?thesis
    using True w e d lp off assms(2)
    by (simp add: flush_def ob_all_def getElementCount_def ob_inv_def sizeof_T_def)
qed

subsection \<open>The two-way merge\<close>

text \<open>
  The merge of the specification on lists: the head of the first list goes out when it is
  strictly less than the head of the second, the head of the second otherwise; when one
  list is used up, the other follows.
\<close>

fun merge_ab :: "int list \<Rightarrow> int list \<Rightarrow> int list" where
  "merge_ab (a # as) (b # bs) =
     (if a < b then a # merge_ab as (b # bs) else b # merge_ab (a # as) bs)"
| "merge_ab [] bs = bs"
| "merge_ab as [] = as"

lemma merge_ab_Nil2 [simp]: "merge_ab as [] = as"
  by (cases as) simp_all

lemma mset_merge_ab: "mset (merge_ab as bs) = mset as + mset bs"
  by (induction as bs rule: merge_ab.induct) simp_all

lemma set_merge_ab: "set (merge_ab as bs) = set as \<union> set bs"
  by (induction as bs rule: merge_ab.induct) auto

lemma sorted_merge_ab: "sorted as \<Longrightarrow> sorted bs \<Longrightarrow> sorted (merge_ab as bs)"
  by (induction as bs rule: merge_ab.induct) (auto simp: set_merge_ab)

lemma length_merge_ab: "length (merge_ab as bs) = length as + length bs"
  by (induction as bs rule: merge_ab.induct) simp_all

definition cons_opt :: "int option \<Rightarrow> int list \<Rightarrow> int list" where
  "cons_opt a xs = (case a of None \<Rightarrow> [] | Some x \<Rightarrow> x # xs)"

definition mstate ::
  "RunFile \<Rightarrow> InputBuffer \<Rightarrow> InputBuffer \<Rightarrow> OutputBuffer \<Rightarrow> bool" where
  "mstate rf inA inB out = (rf_ok rf \<and> ib_inv rf inA \<and> ib_inv rf inB \<and> ob_inv rf out)"

lemma next_item:
  assumes "rf_ok rf" "ib_inv rf ib" "ib_rest rf ib = xs"
  obtains r ib' where "getNextItem rf ib = Inr (r, ib')" "ib_inv rf ib'"
    "cons_opt r (ib_rest rf ib') = xs" "ib_runMeta ib' = ib_runMeta ib"
proof (cases xs)
  case Nil
  from getNextItem_Nil[OF assms(1,2)] assms(3) Nil obtain ib' where
    "getNextItem rf ib = Inr (None, ib')" "ib_inv rf ib'" "ib_runMeta ib' = ib_runMeta ib"
    by metis
  then show ?thesis using that[of None ib'] Nil by (simp add: cons_opt_def)
next
  case (Cons y ys)
  from getNextItem_Cons[OF assms(1,2)] assms(3) Cons obtain ib' where
    "getNextItem rf ib = Inr (Some y, ib')" "ib_inv rf ib'" "ib_rest rf ib' = ys"
    "ib_runMeta ib' = ib_runMeta ib"
    by metis
  then show ?thesis using that[of "Some y" ib'] Cons by (simp add: cons_opt_def)
qed

lemma merge_loop_spec:
  assumes "mstate rf inA inB out"
  shows "\<exists>rf' inA' inB' out' a' b'.
           merge_loop rf inA inB out a b = Inr (rf', inA', inB', out', a', b') \<and>
           mstate rf' inA' inB' out' \<and> rf_ext rf rf' \<and> (a' = None \<or> b' = None) \<and>
           ob_all rf' out' @ cons_opt a' (ib_rest rf' inA') @ cons_opt b' (ib_rest rf' inB')
             = ob_all rf out @ merge_ab (cons_opt a (ib_rest rf inA)) (cons_opt b (ib_rest rf inB)) \<and>
           ob_runStartOffset out' = ob_runStartOffset out"
  using assms
proof (induction "length (cons_opt a (ib_rest rf inA)) + length (cons_opt b (ib_rest rf inB))"
       arbitrary: rf inA inB out a b rule: less_induct)
  case less
  note st = less.prems
  have ok: "rf_ok rf" "ib_inv rf inA" "ib_inv rf inB" "ob_inv rf out"
    using st by (simp_all add: mstate_def)
  show ?case
  proof (cases a)
    case None
    then show ?thesis
      using st rf_ext_refl[OF ok(1)] by (simp add: cons_opt_def)
  next
    case (Some x)
    note a = Some
    show ?thesis
    proof (cases b)
      case None
      then show ?thesis
        using st a rf_ext_refl[OF ok(1)] by (simp add: cons_opt_def)
    next
      case (Some y)
      note b = Some
      show ?thesis
      proof (cases "x < y")
        case True
        from setNextItem_spec[OF ok(1) ok(4), of x] obtain rf1 out1 where
          s: "setNextItem rf out x = Inr (rf1, out1)" and e1: "rf_ext rf rf1"
          and o1: "ob_inv rf1 out1" and all1: "ob_all rf1 out1 = ob_all rf out @ [x]"
          and st1: "ob_runStartOffset out1 = ob_runStartOffset out" by blast
        have ok1: "rf_ok rf1" using e1 by (simp add: rf_ext_def)
        note fa = rf_ext_ib[OF e1 ok(2)] and fb = rf_ext_ib[OF e1 ok(3)]
        from next_item[OF ok1 fa(1) refl] obtain a1 inA1 where
          g: "getNextItem rf1 inA = Inr (a1, inA1)" and ia1: "ib_inv rf1 inA1"
          and ra1: "cons_opt a1 (ib_rest rf1 inA1) = ib_rest rf1 inA" by blast
        have m1: "mstate rf1 inA1 inB out1" using ok1 ia1 fb(1) o1 by (simp add: mstate_def)
        have dec: "length (cons_opt a1 (ib_rest rf1 inA1)) + length (cons_opt (Some y) (ib_rest rf1 inB))
                  < length (cons_opt a (ib_rest rf inA)) + length (cons_opt b (ib_rest rf inB))"
          using ra1 fa(2) fb(2) a b by (simp add: cons_opt_def)
        from less.hyps[OF dec m1] obtain rf' inA' inB' out' a' b' where
          r: "merge_loop rf1 inA1 inB out1 a1 (Some y) = Inr (rf', inA', inB', out', a', b')"
          "mstate rf' inA' inB' out'" "rf_ext rf1 rf'" "a' = None \<or> b' = None"
          "ob_all rf' out' @ cons_opt a' (ib_rest rf' inA') @ cons_opt b' (ib_rest rf' inB')
             = ob_all rf1 out1 @ merge_ab (cons_opt a1 (ib_rest rf1 inA1))
                                         (cons_opt (Some y) (ib_rest rf1 inB))"
          "ob_runStartOffset out' = ob_runStartOffset out1" by blast
        have ml: "merge_loop rf inA inB out a b = Inr (rf', inA', inB', out', a', b')"
          using a b True s g r(1) by simp
        have "ob_all rf1 out1 @ merge_ab (cons_opt a1 (ib_rest rf1 inA1))
                                         (cons_opt (Some y) (ib_rest rf1 inB))
              = ob_all rf out @ merge_ab (cons_opt a (ib_rest rf inA)) (cons_opt b (ib_rest rf inB))"
          using all1 ra1 fa(2) fb(2) a b True by (simp add: cons_opt_def)
        then show ?thesis
          using ml r rf_ext_trans[OF e1 r(3)] st1 by simp
      next
        case False
        from setNextItem_spec[OF ok(1) ok(4), of y] obtain rf1 out1 where
          s: "setNextItem rf out y = Inr (rf1, out1)" and e1: "rf_ext rf rf1"
          and o1: "ob_inv rf1 out1" and all1: "ob_all rf1 out1 = ob_all rf out @ [y]"
          and st1: "ob_runStartOffset out1 = ob_runStartOffset out" by blast
        have ok1: "rf_ok rf1" using e1 by (simp add: rf_ext_def)
        note fa = rf_ext_ib[OF e1 ok(2)] and fb = rf_ext_ib[OF e1 ok(3)]
        from next_item[OF ok1 fb(1) refl] obtain b1 inB1 where
          g: "getNextItem rf1 inB = Inr (b1, inB1)" and ib1: "ib_inv rf1 inB1"
          and rb1: "cons_opt b1 (ib_rest rf1 inB1) = ib_rest rf1 inB" by blast
        have m1: "mstate rf1 inA inB1 out1" using ok1 ib1 fa(1) o1 by (simp add: mstate_def)
        have dec: "length (cons_opt (Some x) (ib_rest rf1 inA)) + length (cons_opt b1 (ib_rest rf1 inB1))
                  < length (cons_opt a (ib_rest rf inA)) + length (cons_opt b (ib_rest rf inB))"
          using rb1 fa(2) fb(2) a b by (simp add: cons_opt_def)
        from less.hyps[OF dec m1] obtain rf' inA' inB' out' a' b' where
          r: "merge_loop rf1 inA inB1 out1 (Some x) b1 = Inr (rf', inA', inB', out', a', b')"
          "mstate rf' inA' inB' out'" "rf_ext rf1 rf'" "a' = None \<or> b' = None"
          "ob_all rf' out' @ cons_opt a' (ib_rest rf' inA') @ cons_opt b' (ib_rest rf' inB')
             = ob_all rf1 out1 @ merge_ab (cons_opt (Some x) (ib_rest rf1 inA))
                                         (cons_opt b1 (ib_rest rf1 inB1))"
          "ob_runStartOffset out' = ob_runStartOffset out1" by blast
        have ml: "merge_loop rf inA inB out a b = Inr (rf', inA', inB', out', a', b')"
          using a b False s g r(1) by simp
        have "ob_all rf1 out1 @ merge_ab (cons_opt (Some x) (ib_rest rf1 inA))
                                         (cons_opt b1 (ib_rest rf1 inB1))
              = ob_all rf out @ merge_ab (cons_opt a (ib_rest rf inA)) (cons_opt b (ib_rest rf inB))"
          using all1 rb1 fa(2) fb(2) a b False by (simp add: cons_opt_def)
        then show ?thesis
          using ml r rf_ext_trans[OF e1 r(3)] st1 by simp
      qed
    qed
  qed
qed

lemma drain_loop_spec:
  assumes "rf_ok rf" "ib_inv rf inBuf" "ob_inv rf out"
  shows "\<exists>rf' inBuf' out'.
           drain_loop rf inBuf out x = Inr (rf', inBuf', out') \<and>
           ob_inv rf' out' \<and> rf_ext rf rf' \<and>
           ob_all rf' out' = ob_all rf out @ cons_opt x (ib_rest rf inBuf) \<and>
           ob_runStartOffset out' = ob_runStartOffset out"
  using assms
proof (induction "length (cons_opt x (ib_rest rf inBuf))" arbitrary: rf inBuf out x rule: less_induct)
  case less
  note ok = less.prems
  show ?case
  proof (cases x)
    case None
    then show ?thesis using ok rf_ext_refl[OF ok(1)] by (simp add: cons_opt_def)
  next
    case (Some v)
    from setNextItem_spec[OF ok(1) ok(3), of v] obtain rf1 out1 where
      s: "setNextItem rf out v = Inr (rf1, out1)" and e1: "rf_ext rf rf1"
      and o1: "ob_inv rf1 out1" and all1: "ob_all rf1 out1 = ob_all rf out @ [v]"
      and st1: "ob_runStartOffset out1 = ob_runStartOffset out" by blast
    have ok1: "rf_ok rf1" using e1 by (simp add: rf_ext_def)
    note f = rf_ext_ib[OF e1 ok(2)]
    from next_item[OF ok1 f(1) refl] obtain x1 ib1 where
      g: "getNextItem rf1 inBuf = Inr (x1, ib1)" and i1: "ib_inv rf1 ib1"
      and r1: "cons_opt x1 (ib_rest rf1 ib1) = ib_rest rf1 inBuf" by blast
    have dec: "length (cons_opt x1 (ib_rest rf1 ib1)) < length (cons_opt x (ib_rest rf inBuf))"
      using r1 f(2) Some by (simp add: cons_opt_def)
    from less.hyps[OF dec ok1 i1 o1] obtain rf' inBuf' out' where
      r: "drain_loop rf1 ib1 out1 x1 = Inr (rf', inBuf', out')" "ob_inv rf' out'" "rf_ext rf1 rf'"
      "ob_all rf' out' = ob_all rf1 out1 @ cons_opt x1 (ib_rest rf1 ib1)"
      "ob_runStartOffset out' = ob_runStartOffset out1" by blast
    have "drain_loop rf inBuf out x = Inr (rf', inBuf', out')"
      using Some s g r(1) by simp
    moreover have "ob_all rf' out' = ob_all rf out @ cons_opt x (ib_rest rf inBuf)"
      using r(4) all1 r1 f(2) Some by (simp add: cons_opt_def)
    ultimately show ?thesis using r rf_ext_trans[OF e1 r(3)] st1 by simp
  qed
qed


subsection \<open>The pairwise merge\<close>

lemma MergeInMem_full:
  "fst (allocateNewRun rf) = - 1 \<Longrightarrow> MergeInMem rf runA runB = Inl RuntimeError"
  by (simp add: MergeInMem_def Let_def)

lemma MergeInMem_spec:
  assumes "rf_ok rf" "run_valid rf runA" "run_valid rf runB" "fst (allocateNewRun rf) \<noteq> - 1"
  shows "\<exists>m rf'. MergeInMem rf runA runB = Inr (m, rf') \<and> rf_ok rf' \<and>
           rf_data rf' = rf_data rf @ merge_ab (run_data rf runA) (run_data rf runB) \<and>
           rf_base rf' = rf_base rf \<and> maxRuns (header rf') = maxRuns (header rf) \<and>
           run_valid rf' m \<and>
           run_data rf' m = merge_ab (run_data rf runA) (run_data rf runB) \<and>
           elementCount m = elementCount runA + elementCount runB \<and>
           startOffset m = getAppendOffset rf \<and>
           length (directory rf') = length (directory rf)"
proof -
  define i where "i = fst (allocateNewRun rf)"
  define rf1 where "rf1 = snd (allocateNewRun rf)"
  have al: "allocateNewRun rf = (i, rf1)" by (simp add: i_def rf1_def)
  have ok1: "rf_ok rf1" unfolding rf1_def by (rule rf_ok_allocateNewRun[OF assms(1)])
  note fr = allocateNewRun_frame[OF assms(1)]
  have d1: "rf_data rf1 = rf_data rf" "rf_base rf1 = rf_base rf"
    "maxRuns (header rf1) = maxRuns (header rf)"
    using fr(1,2,3) by (simp_all add: rf1_def)
  have irng: "0 \<le> i" "i < maxRuns (header rf)" using fr(4) assms(4) by (auto simp: i_def)
  define start where "start = getAppendOffset rf1"
  have start: "start = rf_base rf + int (length (rf_data rf)) * sizeof_T"
    using getAppendOffset_ok[OF ok1] d1 by (simp add: start_def)
  have vA: "run_valid rf1 runA" "run_data rf1 runA = run_data rf runA"
    using run_same_frame[OF d1(1,2)] assms(2) by simp_all
  have vB: "run_valid rf1 runB" "run_data rf1 runB = run_data rf runB"
    using run_same_frame[OF d1(1,2)] assms(3) by simp_all
  from InputBuffer_init_ok[OF vA(1), of MERGE_INPUT_BUFFER_ELEMENTS] obtain inBufA where
    iA: "InputBuffer_init runA MERGE_INPUT_BUFFER_ELEMENTS = Inr inBufA" "ib_inv rf1 inBufA"
      "ib_rest rf1 inBufA = run_data rf1 runA"
    by (auto simp: MERGE_INPUT_BUFFER_ELEMENTS_def)
  from InputBuffer_init_ok[OF vB(1), of MERGE_INPUT_BUFFER_ELEMENTS] obtain inBufB where
    iB: "InputBuffer_init runB MERGE_INPUT_BUFFER_ELEMENTS = Inr inBufB" "ib_inv rf1 inBufB"
      "ib_rest rf1 inBufB = run_data rf1 runB"
    by (auto simp: MERGE_INPUT_BUFFER_ELEMENTS_def)
  define outBuf where "outBuf = \<lparr>ob_runStartOffset = start,
       ob_bufferSizeInElements = MERGE_OUTPUT_BUFFER_ELEMENTS,
       ob_buffer = replicate (nat MERGE_OUTPUT_BUFFER_ELEMENTS) 0,
       currentBufferIndex = 0, totalElementsWritten = 0\<rparr>"
  have iO: "OutputBuffer_init start MERGE_OUTPUT_BUFFER_ELEMENTS = Inr outBuf"
    by (simp add: OutputBuffer_init_def outBuf_def MERGE_OUTPUT_BUFFER_ELEMENTS_def)
  have oinv: "ob_inv rf1 outBuf"
    using start d1 by (simp add: ob_inv_def outBuf_def MERGE_OUTPUT_BUFFER_ELEMENTS_def)
  have oall: "ob_all rf1 outBuf = rf_data rf"
    using d1 by (simp add: ob_all_def ob_pending_def outBuf_def)
  from next_item[OF ok1 iA(2) iA(3)] obtain a inBufA1 where
    gA: "getNextItem rf1 inBufA = Inr (a, inBufA1)" "ib_inv rf1 inBufA1"
      "cons_opt a (ib_rest rf1 inBufA1) = run_data rf1 runA" by blast
  from next_item[OF ok1 iB(2) iB(3)] obtain b inBufB1 where
    gB: "getNextItem rf1 inBufB = Inr (b, inBufB1)" "ib_inv rf1 inBufB1"
      "cons_opt b (ib_rest rf1 inBufB1) = run_data rf1 runB" by blast
  have m1: "mstate rf1 inBufA1 inBufB1 outBuf"
    using ok1 gA(2) gB(2) oinv by (simp add: mstate_def)
  let ?merged = "merge_ab (run_data rf runA) (run_data rf runB)"
  from merge_loop_spec[OF m1, of a b] obtain rf2 inBufA2 inBufB2 outBuf2 a2 b2 where
    ml: "merge_loop rf1 inBufA1 inBufB1 outBuf a b = Inr (rf2, inBufA2, inBufB2, outBuf2, a2, b2)"
    and m2: "mstate rf2 inBufA2 inBufB2 outBuf2" and e2: "rf_ext rf1 rf2"
    and all2: "ob_all rf2 outBuf2 @ cons_opt a2 (ib_rest rf2 inBufA2) @ cons_opt b2 (ib_rest rf2 inBufB2)
             = rf_data rf @ ?merged"
    and st2: "ob_runStartOffset outBuf2 = start"
    using gA(3) gB(3) vA(2) vB(2) oall by (auto simp: outBuf_def)
  have ok2: "rf_ok rf2" "ib_inv rf2 inBufA2" "ib_inv rf2 inBufB2" "ob_inv rf2 outBuf2"
    using m2 by (simp_all add: mstate_def)
  from drain_loop_spec[OF ok2(1) ok2(2) ok2(4), of a2] obtain rf3 inBufA3 outBuf3 where
    dA: "drain_loop rf2 inBufA2 outBuf2 a2 = Inr (rf3, inBufA3, outBuf3)"
    and o3: "ob_inv rf3 outBuf3" and e3: "rf_ext rf2 rf3"
    and all3: "ob_all rf3 outBuf3 = ob_all rf2 outBuf2 @ cons_opt a2 (ib_rest rf2 inBufA2)"
    and st3: "ob_runStartOffset outBuf3 = ob_runStartOffset outBuf2" by blast
  have ok3: "rf_ok rf3" using e3 by (simp add: rf_ext_def)
  note fB = rf_ext_ib[OF e3 ok2(3)]
  from drain_loop_spec[OF ok3 fB(1) o3, of b2] obtain rf4 inBufB4 outBuf4 where
    dB: "drain_loop rf3 inBufB2 outBuf3 b2 = Inr (rf4, inBufB4, outBuf4)"
    and o4: "ob_inv rf4 outBuf4" and e4: "rf_ext rf3 rf4"
    and all4: "ob_all rf4 outBuf4 = ob_all rf3 outBuf3 @ cons_opt b2 (ib_rest rf3 inBufB2)"
    and st4: "ob_runStartOffset outBuf4 = ob_runStartOffset outBuf3" by blast
  have ok4: "rf_ok rf4" using e4 by (simp add: rf_ext_def)
  have all4': "ob_all rf4 outBuf4 = rf_data rf @ ?merged"
    using all4 all3 all2 fB(2) by simp
  from flush_spec[OF ok4 o4] obtain rf5 outBuf5 where
    fl: "flush rf4 outBuf4 = Inr (rf5, outBuf5)" and e5: "rf_ext rf4 rf5"
    and d5: "rf_data rf5 = rf_data rf @ ?merged"
    and cnt: "ob_runStartOffset outBuf4 + getElementCount outBuf5 * sizeof_T
             = rf_base rf4 + int (length (rf_data rf5)) * sizeof_T"
    and cpos: "0 \<le> getElementCount outBuf5"
    using all4' by auto
  have e15: "rf_ext rf1 rf5"
    using rf_ext_trans[OF e2 rf_ext_trans[OF e3 rf_ext_trans[OF e4 e5]]] .
  have ok5: "rf_ok rf5" and b5: "rf_base rf5 = rf_base rf" and h5: "maxRuns (header rf5) = maxRuns (header rf)"
    using e15 d1 by (simp_all add: rf_ext_def)
  have b4: "rf_base rf4 = rf_base rf"
    using rf_ext_trans[OF e2 rf_ext_trans[OF e3 e4]] d1 by (simp add: rf_ext_def)
  define total where "total = getElementCount outBuf5"
  have total: "total = int (length ?merged)"
    using cnt st4 st3 st2 start b4 d5 by (simp add: total_def sizeof_T_def)
  have irng5: "0 \<le> i" "i < maxRuns (header rf5)" using irng h5 by simp_all
  note up = updateRunMetadata_frame[OF ok5 irng5, of start total]
  define rf6 where "rf6 = snd (updateRunMetadata rf5 i start total)"
  define m where "m = (directory rf5 ! nat i)\<lparr>startOffset := start, elementCount := total\<rparr>"
  have u: "updateRunMetadata rf5 i start total = (None, rf6)"
    using up(1) by (simp add: rf6_def prod_eq_iff)
  have gm: "getRunMetadata rf6 i = Inr m" using up(6) by (simp add: rf6_def m_def)
  have res: "MergeInMem rf runA runB = Inr (m, rf6)"
    using assms(4) iA(1) iB(1) iO gA(1) gB(1) ml dA dB fl u gm
    by (simp add: MergeInMem_def i_def[symmetric] rf1_def[symmetric] start_def[symmetric]
          total_def[symmetric] Let_def)
  have d6: "rf_data rf6 = rf_data rf @ ?merged" "rf_base rf6 = rf_base rf"
    "maxRuns (header rf6) = maxRuns (header rf)" "rf_ok rf6"
    using up(2,3,4,5) d5 b5 h5 by (simp_all add: rf6_def)
  have rs: "run_start rf6 m = length (rf_data rf)"
    using start d6(2) by (simp add: run_start_def m_def sizeof_T_def)
  have v6: "run_valid rf6 m"
    using start d6 total rs by (simp add: run_valid_def m_def sizeof_T_def)
  have rd6: "run_data rf6 m = ?merged"
    using rs d6(1) total by (simp add: run_data_def m_def)
  have ec: "elementCount m = elementCount runA + elementCount runB"
    using total run_valid_length[OF assms(2)] run_valid_length[OF assms(3)] assms(2,3)
    by (simp add: m_def length_merge_ab run_valid_def)
  have so: "startOffset m = getAppendOffset rf"
    using start getAppendOffset_ok[OF assms(1)] by (simp add: m_def)
  have "length (directory rf6) = length (directory rf5)"
    using d6(4) ok5 up(5) by (simp add: rf_ok_def rf6_def)
  moreover have "length (directory rf5) = length (directory rf1)"
    using e15 by (simp add: rf_ext_def)
  ultimately have ld: "length (directory rf6) = length (directory rf)"
    using fr(5) by (simp add: rf1_def)
  show ?thesis using res d6 v6 rd6 ec so ld by blast
qed


text \<open>
  Claim C4 (pairwise merge). On an open run file with a free directory slot,
  \<open>MergeInMem\<close> of two runs that lie in the data area returns a new run whose elements,
  appended to the data area, are the two-way merge of the two runs in which the element of
  the first run goes out when it is strictly less and the element of the second run on a
  tie, followed by the tail of the run that is not used up; the count recorded in the
  metadata of the new run is the sum of the two counts. Reading the new run through an
  \<open>InputBuffer\<close> gives these elements.
\<close>

theorem MergeInMem_two_way_merge:
  assumes "rf_ok rf" "run_valid rf runA" "run_valid rf runB"
      and "sorted (run_data rf runA)" "sorted (run_data rf runB)"
      and "fst (allocateNewRun rf) \<noteq> - 1" "0 < bs"
  shows "\<exists>m rf'. MergeInMem rf runA runB = Inr (m, rf') \<and>
           rf_data rf' = rf_data rf @ merge_ab (run_data rf runA) (run_data rf runB) \<and>
           read_run rf' m bs = Inr (merge_ab (run_data rf runA) (run_data rf runB)) \<and>
           sorted (merge_ab (run_data rf runA) (run_data rf runB)) \<and>
           startOffset m = getAppendOffset rf \<and>
           elementCount m = elementCount runA + elementCount runB"
proof -
  from MergeInMem_spec[OF assms(1,2,3,6)] obtain m rf' where
    r: "MergeInMem rf runA runB = Inr (m, rf')" "rf_ok rf'"
       "rf_data rf' = rf_data rf @ merge_ab (run_data rf runA) (run_data rf runB)"
       "run_valid rf' m"
       "run_data rf' m = merge_ab (run_data rf runA) (run_data rf runB)"
       "elementCount m = elementCount runA + elementCount runB"
       "startOffset m = getAppendOffset rf" by blast
  have rd: "read_run rf' m bs = Inr (merge_ab (run_data rf runA) (run_data rf runB))"
    using read_run_spec[OF r(2) r(4) assms(7)] r(5) by simp
  show ?thesis
    using r rd sorted_merge_ab[OF assms(4,5)] by blast
qed


definition merge_example_file :: RunFile where
  "merge_example_file =
    \<lparr>disk = Some \<lparr>f_header = \<lparr>magic = ''RUNS'', maxRuns = 3, currentRunCount = 0\<rparr>,
                  f_directory = [\<lparr>startOffset = 84, elementCount = 3, isUsed = True\<rparr>,
                                 \<lparr>startOffset = 96, elementCount = 2, isUsed = True\<rparr>,
                                 \<lparr>startOffset = 0, elementCount = 0, isUsed = False\<rparr>],
                  f_data = [1, 3, 5, 3, 4]\<rparr>,
     stream = Good,
     header = \<lparr>magic = ''RUNS'', maxRuns = 3, currentRunCount = 2\<rparr>,
     directory = [\<lparr>startOffset = 84, elementCount = 3, isUsed = True\<rparr>,
                  \<lparr>startOffset = 96, elementCount = 2, isUsed = True\<rparr>,
                  \<lparr>startOffset = 0, elementCount = 0, isUsed = False\<rparr>]\<rparr>"

theorem MergeInMem_two_way_merge_witness:
  "rf_ok merge_example_file \<and>
   run_valid merge_example_file \<lparr>startOffset = 84, elementCount = 3, isUsed = True\<rparr> \<and>
   run_valid merge_example_file \<lparr>startOffset = 96, elementCount = 2, isUsed = True\<rparr> \<and>
   run_data merge_example_file \<lparr>startOffset = 84, elementCount = 3, isUsed = True\<rparr> = [1, 3, 5] \<and>
   run_data merge_example_file \<lparr>startOffset = 96, elementCount = 2, isUsed = True\<rparr> = [3, 4] \<and>
   fst (allocateNewRun merge_example_file) = 2 \<and>
   (\<exists>m rf'. MergeInMem merge_example_file \<lparr>startOffset = 84, elementCount = 3, isUsed = True\<rparr>
                \<lparr>startOffset = 96, elementCount = 2, isUsed = True\<rparr> = Inr (m, rf') \<and>
            rf_data rf' = [1, 3, 5, 3, 4, 1, 3, 3, 4, 5] \<and>
            read_run rf' m 2 = Inr [1, 3, 3, 4, 5] \<and>
            startOffset m = 104 \<and> elementCount m = 5)"
proof -
  let ?A = "\<lparr>startOffset = 84, elementCount = 3, isUsed = True\<rparr>"
  let ?B = "\<lparr>startOffset = 96, elementCount = 2, isUsed = True\<rparr>"
  have base: "rf_base merge_example_file = 84" "rf_data merge_example_file = [1, 3, 5, 3, 4]"
    by (simp_all add: rf_base_def rf_data_def merge_example_file_def data_base_def
          sizeof_RunFileHeader_def sizeof_RunMetadata_def)
  have h1: "rf_ok merge_example_file" by (simp add: rf_ok_def merge_example_file_def)
  have sA: "run_start merge_example_file ?A = 0" and sB: "run_start merge_example_file ?B = 3"
    by (simp_all add: run_start_def base sizeof_T_def)
  have h2: "run_valid merge_example_file ?A" by (simp add: run_valid_def base sA sizeof_T_def)
  have h3: "run_valid merge_example_file ?B" by (simp add: run_valid_def base sB sizeof_T_def)
  have dA: "run_data merge_example_file ?A = [1, 3, 5]" by (simp add: run_data_def base sA)
  have dB: "run_data merge_example_file ?B = [3, 4]" by (simp add: run_data_def base sB)
  have h4: "sorted (run_data merge_example_file ?A)" by (simp add: dA)
  have h5: "sorted (run_data merge_example_file ?B)" by (simp add: dB)
  have al: "fst (allocateNewRun merge_example_file) = 2" by code_simp
  have h6: "fst (allocateNewRun merge_example_file) \<noteq> - 1" by (simp add: al)
  have h7: "0 < (2::int)" by simp
  have ap: "getAppendOffset merge_example_file = 104"
    by (simp add: getAppendOffset_ok[OF h1] base sizeof_T_def)
  show ?thesis
    using MergeInMem_two_way_merge[OF h1 h2 h3 h4 h5 h6 h7] h1 h2 h3 dA dB al
    by (simp add: base ap)
qed


declare merge_heap_loop.simps [simp del]

subsection \<open>The merge phase\<close>

definition runs_ok :: "RunFile \<Rightarrow> RunMetadata list \<Rightarrow> bool" where
  "runs_ok rf rs = (\<forall>m \<in> set rs. run_valid rf m \<and> sorted (run_data rf m))"

definition runs_mset :: "RunFile \<Rightarrow> RunMetadata list \<Rightarrow> int multiset" where
  "runs_mset rf rs = (\<Sum>m\<in>#mset rs. mset (run_data rf m))"

definition runs_count :: "RunMetadata list \<Rightarrow> int" where
  "runs_count rs = (\<Sum>m\<in>#mset rs. elementCount m)"

lemma runs_count_sum_list: "runs_count rs = sum_list (map elementCount rs)"
  by (induction rs) (simp_all add: runs_count_def)

lemma runs_mset_concat: "runs_mset rf rs = mset (concat (map (run_data rf) rs))"
  by (induction rs) (simp_all add: runs_mset_def)

lemma mset_heap_push: "mset (heap_push r h) = add_mset r (mset h)"
  by (simp add: heap_push_def)

lemma mset_fold_heap_push: "mset (fold heap_push rs acc) = mset rs + mset acc"
  by (induction rs arbitrary: acc) (simp_all add: mset_heap_push)

text \<open>Whatever the decision on ties, \<open>top\<close> is a run of the queue and \<open>pop\<close> removes it.\<close>

lemma heap_top_pop:
  assumes "h \<noteq> []"
  shows "mset h = add_mset (heap_top tie h) (mset (heap_pop tie h))"
proof -
  have i: "top_position tie h < length h" by (rule top_position_less[OF assms])
  have "h = take (top_position tie h) h @ h ! top_position tie h # drop (Suc (top_position tie h)) h"
    using i by (rule id_take_nth_drop)
  then have "mset h = mset (take (top_position tie h) h @ h ! top_position tie h #
                             drop (Suc (top_position tie h)) h)" by simp
  then show ?thesis by (simp add: heap_top_def heap_pop_def)
qed

lemma runs_ok_mset: "mset rs = mset rs' \<Longrightarrow> runs_ok rf rs = runs_ok rf rs'"
  by (auto simp: runs_ok_def dest: mset_eq_setD)

lemma runs_ok_frame:
  assumes "runs_ok rf rs" "rf_data rf' = rf_data rf @ ys" "rf_base rf' = rf_base rf"
  shows "runs_ok rf' rs" "runs_mset rf' rs = runs_mset rf rs"
proof -
  have *: "run_valid rf' m \<and> run_data rf' m = run_data rf m" if "m \<in> set rs" for m
    using run_append_frame[OF _ assms(2,3), of m] assms(1) that by (simp add: runs_ok_def)
  show "runs_ok rf' rs" using assms(1) * by (simp add: runs_ok_def)
  have "image_mset (\<lambda>m. mset (run_data rf' m)) (mset rs) = image_mset (\<lambda>m. mset (run_data rf m)) (mset rs)"
    by (rule image_mset_cong) (simp add: *)
  then show "runs_mset rf' rs = runs_mset rf rs" by (simp add: runs_mset_def)
qed

lemma merge_heap_loop_spec:
  assumes "rf_ok rf" "runs_ok rf h" "merge_heap_loop ties n h rf = Inr (h', rf')"
  shows "rf_ok rf' \<and> runs_ok rf' h' \<and> runs_mset rf' h' = runs_mset rf h \<and>
         runs_count h' = runs_count h \<and> length h' \<le> 1 \<and> (h \<noteq> [] \<longrightarrow> h' \<noteq> []) \<and>
         (\<exists>ys. rf_data rf' = rf_data rf @ ys) \<and> rf_base rf' = rf_base rf"
  using assms
proof (induction ties n h rf arbitrary: h' rf' rule: merge_heap_loop.induct)
  case (1 ties n h rf)
  show ?case
  proof (cases "length h > 1")
    case False
    then have "h' = h" "rf' = rf" using "1.prems"(3) by (simp_all add: merge_heap_loop.simps)
    then show ?thesis using "1.prems"(1,2) False by simp
  next
    case True
    let ?A = "heap_top (ties n) h"
    let ?h1 = "heap_pop (ties n) h"
    let ?B = "heap_top (ties (n + 1)) ?h1"
    let ?h2 = "heap_pop (ties (n + 1)) ?h1"
    have ne: "h \<noteq> []" using True by auto
    have ne1: "?h1 \<noteq> []" using True length_heap_pop[OF ne, of "ties n"] by auto
    have m1: "mset h = add_mset ?A (mset ?h1)" by (rule heap_top_pop[OF ne])
    have m2: "mset ?h1 = add_mset ?B (mset ?h2)" by (rule heap_top_pop[OF ne1])
    have mh: "mset h = add_mset ?A (add_mset ?B (mset ?h2))" using m1 m2 by simp
    obtain merged rf1 where mm: "MergeInMem rf ?A ?B = Inr (merged, rf1)"
      and rec: "merge_heap_loop ties (n + 2) (heap_push merged ?h2) rf1 = Inr (h', rf')"
      using "1.prems"(3) True
      by (subst (asm) merge_heap_loop.simps) (auto split: sum.splits)
    have free: "fst (allocateNewRun rf) \<noteq> - 1"
      using mm MergeInMem_full[of rf ?A ?B] by auto
    have ok3: "runs_ok rf (?A # ?B # ?h2)"
      using runs_ok_mset[of h "?A # ?B # ?h2" rf] mh "1.prems"(2) by simp
    then have vA: "run_valid rf ?A" "sorted (run_data rf ?A)"
      and vB: "run_valid rf ?B" "sorted (run_data rf ?B)"
      and rok: "runs_ok rf ?h2"
      by (simp_all add: runs_ok_def)
    from MergeInMem_spec[OF "1.prems"(1) vA(1) vB(1) free] mm have
      s: "rf_ok rf1" "rf_data rf1 = rf_data rf @ merge_ab (run_data rf ?A) (run_data rf ?B)"
         "rf_base rf1 = rf_base rf" "run_valid rf1 merged"
         "run_data rf1 merged = merge_ab (run_data rf ?A) (run_data rf ?B)"
         "elementCount merged = elementCount ?A + elementCount ?B"
      by auto
    note fr = runs_ok_frame[OF rok s(2) s(3)]
    have ok1: "runs_ok rf1 (heap_push merged ?h2)"
      using fr(1) s(4,5) sorted_merge_ab[OF vA(2) vB(2)]
      by (auto simp: runs_ok_def heap_push_def)
    have ms1: "runs_mset rf1 (heap_push merged ?h2) = runs_mset rf h"
      using fr(2) s(5) by (simp add: runs_mset_def mset_heap_push mset_merge_ab mh)
    have c1: "runs_count (heap_push merged ?h2) = runs_count h"
      using s(6) by (simp add: runs_count_def mset_heap_push mh)
    have ne': "heap_push merged ?h2 \<noteq> []" by (simp add: heap_push_def)
    from "1.IH"[OF True mm refl s(1) ok1 rec]
    show ?thesis using ms1 c1 ne' s(2,3) by auto
  qed
qed

lemma externalMergeSort_spec:
  assumes "rf_ok rf" "runs_ok rf rs" "externalMergeSort ties rs rf = Inr (final, rf')"
  shows "rf_ok rf' \<and> run_valid rf' final \<and> sorted (run_data rf' final) \<and>
         mset (run_data rf' final) = runs_mset rf rs \<and>
         elementCount final = runs_count rs"
proof -
  let ?h = "fold heap_push rs []"
  have mh: "mset ?h = mset rs" by (simp add: mset_fold_heap_push)
  from assms(3) obtain h' where l: "merge_heap_loop ties 0 ?h rf = Inr (h', rf')" and ne: "h' \<noteq> []"
    and f: "final = hd h'"
    by (auto simp: externalMergeSort_def split: sum.splits list.splits)
  have ok: "runs_ok rf ?h" using runs_ok_mset[OF mh] assms(2) by simp
  from merge_heap_loop_spec[OF assms(1) ok l] have
    r: "rf_ok rf'" "runs_ok rf' h'" "runs_mset rf' h' = runs_mset rf ?h"
       "runs_count h' = runs_count ?h" "length h' \<le> 1" by auto
  from ne r(5) f have h': "h' = [final]" by (cases h') auto
  have "runs_mset rf ?h = runs_mset rf rs" using mh by (simp add: runs_mset_def)
  moreover have "runs_count ?h = runs_count rs" using mh by (simp add: runs_count_def)
  ultimately show ?thesis
    using r h' by (simp add: runs_ok_def runs_mset_def runs_count_def)
qed


subsection \<open>The output side of the generator\<close>

text \<open>
  The elements of the current run: those that are in the file already, the block that
  the output worker is still to write, and the block that is being filled.
\<close>

definition out_pending :: "RunGenerator \<Rightarrow> int list" where
  "out_pending g = (if standby_output_busy g then standbyOut g else []) @ activeOut g"

definition flushed :: "RunGenerator \<Rightarrow> int list" where
  "flushed g = drop (length (rf_data (runFile g)) - nat (totalElementsInRun g)) (rf_data (runFile g))"

definition cur_run :: "RunGenerator \<Rightarrow> int list" where
  "cur_run g = flushed g @ out_pending g"

definition sealed :: "RunGenerator \<Rightarrow> int list list" where
  "sealed g = map (run_data (runFile g)) (generatedRuns g)"

definition out_ok :: "RunGenerator \<Rightarrow> bool" where
  "out_ok g =
     (rf_ok (runFile g) \<and> 0 \<le> totalElementsInRun g \<and>
      nat (totalElementsInRun g) \<le> length (rf_data (runFile g)) \<and>
      currentRunStartOffset g =
        rf_base (runFile g) + (int (length (rf_data (runFile g))) - totalElementsInRun g) * sizeof_T \<and>
      (\<forall>m \<in> set (generatedRuns g). run_valid (runFile g) m))"

text \<open>What a step of the output side leaves alone, and what it keeps.\<close>

definition out_keeps :: "RunGenerator \<Rightarrow> RunGenerator \<Rightarrow> bool" where
  "out_keeps g g' =
     (out_ok g' \<and> sealed g' = sealed g \<and> generatedRuns g' = generatedRuns g \<and>
      currentRunId g' = currentRunId g \<and> bufSize g' = bufSize g)"

lemma out_keeps_trans: "out_keeps g g1 \<Longrightarrow> out_keeps g1 g2 \<Longrightarrow> out_keeps g g2"
  by (simp add: out_keeps_def)

lemma out_keeps_same:
  assumes "out_ok g" "runFile g' = runFile g" "totalElementsInRun g' = totalElementsInRun g"
    "currentRunStartOffset g' = currentRunStartOffset g" "generatedRuns g' = generatedRuns g"
    "currentRunId g' = currentRunId g" "bufSize g' = bufSize g"
  shows "out_keeps g g'"
  using assms by (simp add: out_keeps_def out_ok_def sealed_def)

lemma out_keeps_ok: "out_keeps g g' \<Longrightarrow> out_ok g'"
  by (simp add: out_keeps_def)

lemma length_flushed: "out_ok g \<Longrightarrow> int (length (flushed g)) = totalElementsInRun g"
  by (auto simp: out_ok_def flushed_def)

lemma sealed_frame:
  assumes "\<forall>m \<in> set rs. run_valid rf m" "rf_data rf' = rf_data rf @ ys" "rf_base rf' = rf_base rf"
  shows "\<forall>m \<in> set rs. run_valid rf' m" "map (run_data rf') rs = map (run_data rf) rs"
  using run_append_frame[OF _ assms(2,3)] assms(1) by auto

lemma outputWorker_view:
  assumes "out_ok g" "standby_output_busy g" "outputWorker g = Inr g'"
  shows "out_keeps g g' \<and> cur_run g' = cur_run g \<and> \<not> standby_output_busy g' \<and>
         activeOut g' = activeOut g"
proof -
  let ?rf = "runFile g"
  have ok: "rf_ok ?rf" and t0: "0 \<le> totalElementsInRun g"
    and tl: "nat (totalElementsInRun g) \<le> length (rf_data ?rf)"
    and st: "currentRunStartOffset g =
        rf_base ?rf + (int (length (rf_data ?rf)) - totalElementsInRun g) * sizeof_T"
    and rv: "\<forall>m \<in> set (generatedRuns g). run_valid ?rf m"
    using assms(1) by (simp_all add: out_ok_def)
  have off: "currentRunStartOffset g + totalElementsInRun g * sizeof_T
      = rf_base ?rf + int (length (rf_data ?rf)) * sizeof_T"
    using st by (simp add: algebra_simps)
  from write_elems_append[OF ok, of "standbyOut g"] obtain rf' where
    w: "write_elems ?rf (rf_base ?rf + int (length (rf_data ?rf)) * sizeof_T) (standbyOut g) = Inr rf'"
    and ok': "rf_ok rf'" and d': "rf_data rf' = rf_data ?rf @ standbyOut g"
    and b': "rf_base rf' = rf_base ?rf" by blast
  show ?thesis
  proof (cases "standbyOut g = []")
    case True
    then have e: "g' = g\<lparr>standby_output_busy := False\<rparr>"
      using assms(3) by (simp add: outputWorker_def)
    show ?thesis
      using assms(1,2) True
      by (simp add: e out_keeps_def out_ok_def cur_run_def flushed_def out_pending_def sealed_def)
  next
    case False
    then have e: "g' = g\<lparr>runFile := rf',
        totalElementsInRun := totalElementsInRun g + int (length (standbyOut g)),
        standby_output_busy := False\<rparr>"
      using assms(3) w by (simp add: outputWorker_def off)
    note fr = sealed_frame[OF rv d' b']
    have 1: "out_ok g'"
      using ok' d' b' t0 tl st fr(1) by (simp add: e out_ok_def algebra_simps)
    have "length (rf_data ?rf) + length (standbyOut g)
            - nat (totalElementsInRun g + int (length (standbyOut g)))
          = length (rf_data ?rf) - nat (totalElementsInRun g)"
      using t0 tl by simp
    then have 2: "cur_run g' = cur_run g"
      using assms(2) d' tl by (simp add: e cur_run_def flushed_def out_pending_def)
    have 3: "sealed g' = sealed g" using fr(2) by (simp add: e sealed_def)
    show ?thesis using 1 2 3 by (simp add: out_keeps_def) (simp add: e)
  qed
qed

lemma wait_output_view:
  assumes "out_ok g" "wait_output g = Inr g'"
  shows "out_keeps g g'" "cur_run g' = cur_run g" "\<not> standby_output_busy g'"
    "activeOut g' = activeOut g"
proof -
  have "out_keeps g g' \<and> cur_run g' = cur_run g \<and> \<not> standby_output_busy g' \<and>
         activeOut g' = activeOut g"
  proof (cases "standby_output_busy g")
    case True
    then have "outputWorker g = Inr g'" using assms(2) by (simp add: wait_output_def)
    from outputWorker_view[OF assms(1) True this] show ?thesis .
  next
    case False
    then have "g' = g" using assms(2) by (simp add: wait_output_def)
    then show ?thesis using assms(1) False by (simp add: out_keeps_def)
  qed
  then show "out_keeps g g'" "cur_run g' = cur_run g" "\<not> standby_output_busy g'"
    "activeOut g' = activeOut g" by simp_all
qed

text \<open>Handing over the active block: the current run is the same, the active block empty.\<close>

lemma hand_over_view:
  assumes "out_ok g" "wait_output g = Inr g1"
  shows "out_keeps g ((swap_out g1)\<lparr>activeOut := []\<rparr>)"
    "cur_run ((swap_out g1)\<lparr>activeOut := []\<rparr>) = cur_run g"
    "activeOut ((swap_out g1)\<lparr>activeOut := []\<rparr>) = []"
proof -
  note v = wait_output_view[OF assms]
  have "out_keeps g1 ((swap_out g1)\<lparr>activeOut := []\<rparr>)"
    by (rule out_keeps_same[OF out_keeps_ok[OF v(1)]]) (simp_all add: swap_out_def)
  then show "out_keeps g ((swap_out g1)\<lparr>activeOut := []\<rparr>)"
    using v(1) by (rule out_keeps_trans[rotated])
  have "cur_run ((swap_out g1)\<lparr>activeOut := []\<rparr>) = cur_run g1"
    using v(3) by (simp add: cur_run_def flushed_def out_pending_def swap_out_def)
  then show "cur_run ((swap_out g1)\<lparr>activeOut := []\<rparr>) = cur_run g" using v(2) by simp
  show "activeOut ((swap_out g1)\<lparr>activeOut := []\<rparr>) = []" by simp
qed

lemma emit_view:
  assumes "out_ok g" "emit g v = Inr g'"
  shows "out_keeps g g'" "cur_run g' = cur_run g @ [v]"
proof -
  let ?g1 = "g\<lparr>activeOut := activeOut g @ [v]\<rparr>"
  have o1: "out_ok ?g1" using assms(1) by (simp add: out_ok_def)
  have k1: "out_keeps g ?g1" by (rule out_keeps_same[OF assms(1)]) simp_all
  have c1: "cur_run ?g1 = cur_run g @ [v]"
    by (simp add: cur_run_def flushed_def out_pending_def)
  have "out_keeps g g' \<and> cur_run g' = cur_run g @ [v]"
  proof (cases "int (length (activeOut ?g1)) \<ge> bufSize ?g1")
    case True
    then obtain g2 where w: "wait_output ?g1 = Inr g2" and e: "g' = (swap_out g2)\<lparr>activeOut := []\<rparr>"
      using assms(2) by (auto simp: emit_def Let_def)
    from hand_over_view[OF o1 w] c1 out_keeps_trans[OF k1]
    show ?thesis unfolding e by simp
  next
    case False
    then have "g' = ?g1" using assms(2) by (auto simp: emit_def Let_def)
    then show ?thesis using k1 c1 by simp
  qed
  then show "out_keeps g g'" "cur_run g' = cur_run g @ [v]" by simp_all
qed

text \<open>Sealing: the elements in the file become a run, unless there are none.\<close>

lemma seal_run_view:
  assumes "out_ok g" "seal_run g = Inr g'"
  shows "rf_ok (runFile g') \<and> (\<forall>m \<in> set (generatedRuns g'). run_valid (runFile g') m) \<and>
    rf_data (runFile g') = rf_data (runFile g) \<and> rf_base (runFile g') = rf_base (runFile g) \<and>
    out_pending g' = out_pending g \<and>
    (if flushed g = [] then generatedRuns g' = generatedRuns g \<and> sealed g' = sealed g
     else \<exists>m. generatedRuns g' = generatedRuns g @ [m] \<and> sealed g' = sealed g @ [flushed g])"
proof -
  let ?rf = "runFile g"
  have ok: "rf_ok ?rf" and t0: "0 \<le> totalElementsInRun g"
    and tl: "nat (totalElementsInRun g) \<le> length (rf_data ?rf)"
    and st: "currentRunStartOffset g =
        rf_base ?rf + (int (length (rf_data ?rf)) - totalElementsInRun g) * sizeof_T"
    and rv: "\<forall>m \<in> set (generatedRuns g). run_valid ?rf m"
    using assms(1) by (simp_all add: out_ok_def)
  show ?thesis
  proof (cases "totalElementsInRun g > 0")
    case False
    then have "g' = g" using assms(2) by (simp add: seal_run_def)
    moreover have "flushed g = []" using False tl by (simp add: flushed_def)
    ultimately show ?thesis using ok rv by simp
  next
    case True
    let ?u = "updateRunMetadata ?rf (currentRunId g) (currentRunStartOffset g) (totalElementsInRun g)"
    obtain m where u: "fst ?u = None" and gm: "getRunMetadata (snd ?u) (currentRunId g) = Inr m"
      and e: "g' = g\<lparr>runFile := snd ?u, generatedRuns := generatedRuns g @ [m]\<rparr>"
      using assms(2) True
      by (auto simp: seal_run_def split: prod.splits option.splits)
    have rg: "0 \<le> currentRunId g" "currentRunId g < maxRuns (header ?rf)"
      using u by (auto simp: updateRunMetadata_def split: if_splits)
    note fr = updateRunMetadata_frame[OF ok rg, of "currentRunStartOffset g" "totalElementsInRun g"]
    have m: "m = (directory ?rf ! nat (currentRunId g))
                   \<lparr>startOffset := currentRunStartOffset g, elementCount := totalElementsInRun g\<rparr>"
      using gm fr(6) by simp
    have so: "startOffset m - rf_base ?rf
              = int (length (rf_data ?rf) - nat (totalElementsInRun g)) * sizeof_T"
      using st t0 tl by (simp add: m of_nat_diff)
    have rs: "run_start (snd ?u) m = length (rf_data ?rf) - nat (totalElementsInRun g)"
      unfolding run_start_def fr(4) so by (simp add: sizeof_T_def)
    have ge: "rf_base ?rf \<le> startOffset m" using so by (simp add: sizeof_T_def)
    have vm: "run_valid (snd ?u) m"
      unfolding run_valid_def rs fr(3,4) so using t0 tl ge
      by (simp add: sizeof_T_def) (simp add: m)
    have dm: "run_data (snd ?u) m = flushed g"
      unfolding run_data_def rs fr(3) by (simp add: flushed_def m)
    have old: "\<forall>x \<in> set (generatedRuns g). run_valid (snd ?u) x"
      "map (run_data (snd ?u)) (generatedRuns g) = map (run_data ?rf) (generatedRuns g)"
      using run_same_frame[OF fr(3) fr(4)] rv by simp_all
    have ne: "flushed g \<noteq> []" using True tl by (simp add: flushed_def)
    show ?thesis
      using fr(2,3,4) vm dm old ne by (simp add: e sealed_def out_pending_def)
  qed
qed

lemma end_run_view:
  assumes "out_ok g" "end_run g = Inr g'"
  shows "out_ok g' \<and> cur_run g' = [] \<and>
    (if cur_run g = [] then generatedRuns g' = generatedRuns g \<and> sealed g' = sealed g
     else \<exists>m. generatedRuns g' = generatedRuns g @ [m] \<and> sealed g' = sealed g @ [cur_run g])"
proof -
  from assms(2) obtain g2 g3 g4 where
    a: "(if activeOut g \<noteq> []
         then bind_err (wait_output g) (\<lambda>g1. Inr ((swap_out g1)\<lparr>activeOut := []\<rparr>))
         else Inr g) = Inr g2"
    and b: "wait_output g2 = Inr g3" and c: "seal_run g3 = Inr g4"
    and d: "g' = g4\<lparr>runFile := snd (allocateNewRun (runFile g4)),
              currentRunId := fst (allocateNewRun (runFile g4)),
              currentRunStartOffset := getAppendOffset (snd (allocateNewRun (runFile g4))),
              totalElementsInRun := 0\<rparr>"
    by (rule end_run_cases)
  have g2: "out_ok g2 \<and> cur_run g2 = cur_run g \<and> activeOut g2 = []"
  proof (cases "activeOut g = []")
    case True
    then show ?thesis using a assms(1) by simp
  next
    case False
    then obtain g1 where w: "wait_output g = Inr g1" and e: "g2 = (swap_out g1)\<lparr>activeOut := []\<rparr>"
      using a by auto
    from hand_over_view[OF assms(1) w] show ?thesis unfolding e by (simp add: out_keeps_def)
  qed
  note g3 = wait_output_view[OF g2[THEN conjunct1] b]
  have o3: "out_ok g3" using g3(1) by (rule out_keeps_ok)
  have p3: "out_pending g3 = []" using g3(3,4) g2 by (simp add: out_pending_def)
  then have "flushed g3 = cur_run g3" by (simp add: cur_run_def)
  then have f3: "flushed g3 = cur_run g" "out_pending g3 = []"
    using g3(2) g2 p3 by simp_all
  note g4 = seal_run_view[OF o3 c]
  let ?rf = "snd (allocateNewRun (runFile g4))"
  have ok4: "rf_ok (runFile g4)" using g4 by simp
  note al = allocateNewRun_frame[OF ok4] rf_ok_allocateNewRun[OF ok4]
  have 1: "out_ok g'"
    using al(1,2,6) g4 getAppendOffset_ok[OF al(6)] run_same_frame(1)[OF al(1) al(2)]
    by (simp add: d out_ok_def)
  have "out_pending g4 = []" using g4 f3(2) by simp
  moreover have "out_pending g' = out_pending g4" by (simp add: d out_pending_def)
  ultimately have p': "out_pending g' = []" by simp
  have 2: "cur_run g' = []" using p' by (simp add: cur_run_def) (simp add: d flushed_def)
  have s': "sealed g' = sealed g4" "generatedRuns g' = generatedRuns g4"
    using run_same_frame(2)[OF al(1) al(2)] by (simp_all add: d sealed_def)
  have k3: "sealed g3 = sealed g" "generatedRuns g3 = generatedRuns g"
  proof -
    have "out_keeps g g2"
    proof (cases "activeOut g = []")
      case True
      then show ?thesis using a assms(1) by (simp add: out_keeps_def)
    next
      case False
      then obtain g1 where w: "wait_output g = Inr g1" and e: "g2 = (swap_out g1)\<lparr>activeOut := []\<rparr>"
        using a by auto
      from hand_over_view(1)[OF assms(1) w] show ?thesis unfolding e .
    qed
    from out_keeps_trans[OF this g3(1)]
    show "sealed g3 = sealed g" "generatedRuns g3 = generatedRuns g"
      by (simp_all add: out_keeps_def)
  qed
  show ?thesis
    using 1 2 s' g4 f3(1) k3 by (auto split: if_splits)
qed

lemma finish_view:
  assumes "out_ok g" "finish g = Inr g'"
  shows "rf_ok (runFile g') \<and> (\<forall>m \<in> set (generatedRuns g'). run_valid (runFile g') m) \<and>
    (if cur_run g = [] then generatedRuns g' = generatedRuns g \<and> sealed g' = sealed g
     else \<exists>m. generatedRuns g' = generatedRuns g @ [m] \<and> sealed g' = sealed g @ [cur_run g])"
proof -
  from assms(2) obtain g1 g2 where a: "wait_output g = Inr g1"
    and b: "(if activeOut g1 \<noteq> [] then wait_output (swap_out g1) else Inr g1) = Inr g2"
    and c: "seal_run g2 = Inr g'"
    by (auto simp: finish_def)
  note g1 = wait_output_view[OF assms(1) a]
  have o1: "out_ok g1" using g1(1) by (rule out_keeps_ok)
  have c1: "cur_run g = flushed g1 @ activeOut g1"
    using g1(2,3) by (simp add: cur_run_def out_pending_def)
  have g2: "out_keeps g1 g2 \<and> flushed g2 = cur_run g"
  proof (cases "activeOut g1 = []")
    case True
    then show ?thesis using b c1 o1 by (auto simp: out_keeps_def)
  next
    case False
    let ?s = "swap_out g1"
    have ks: "out_keeps g1 ?s" by (rule out_keeps_same[OF o1]) (simp_all add: swap_out_def)
    have w: "wait_output ?s = Inr g2" using b False by simp
    note v = wait_output_view[OF out_keeps_ok[OF ks] w]
    have "cur_run ?s = flushed g1 @ activeOut g1 @ standbyOut g1"
      by (simp add: cur_run_def out_pending_def flushed_def swap_out_def)
    moreover have "cur_run g2 = flushed g2 @ standbyOut g1"
      using v(3,4) by (simp add: cur_run_def out_pending_def swap_out_def)
    ultimately have "flushed g2 = flushed g1 @ activeOut g1" using v(2) by simp
    then show ?thesis using out_keeps_trans[OF ks v(1)] c1 by simp
  qed
  have k: "out_keeps g g2" using out_keeps_trans[OF g1(1)] g2 by simp
  note s = seal_run_view[OF out_keeps_ok[OF k] c]
  show ?thesis using s g2 k by (auto simp: out_keeps_def split: if_splits)
qed


subsection \<open>The invariant of the main loop\<close>

text \<open>The nodes of the tree that hold an element: the leaves \<open>0 .. k-1\<close> that are not retired.\<close>

definition live :: "RunGenerator \<Rightarrow> RunNode multiset" where
  "live g = filter_mset (\<lambda>n. runID n \<noteq> INT_MAX)
              (mset (take (lt_k (loserTree g)) (leaves (loserTree g))))"

text \<open>
  \<open>loop_inv xs g cur\<close>: the state \<open>g\<close> with the run id \<open>cur\<close> is one that the main loop
  reaches on the input \<open>xs\<close>. Every element of the input is in exactly one place: a
  sealed run, the current run, the tree, or the input still to be read. The sealed runs
  and the current run are sorted. A node of the tree belongs to the current run and is
  then no smaller than what the run holds already, or it belongs to the next one.
\<close>

definition loop_inv :: "int list \<Rightarrow> RunGenerator \<Rightarrow> int \<Rightarrow> bool" where
  "loop_inv xs g cur =
     (in_inv g \<and> lt_wf (loserTree g) \<and> out_ok g \<and>
      (\<forall>r \<in> set (sealed g). sorted r \<and> r \<noteq> []) \<and>
      mset xs = mset (concat (sealed g)) + mset (cur_run g) + image_mset value (live g)
                 + mset (pending_input g) \<and>
      sorted (cur_run g) \<and>
      (\<forall>n \<in># live g. (runID n = cur \<and> (\<forall>x \<in> set (cur_run g). x \<le> value n)) \<or>
                        (runID n = cur + 1 \<and> cur_run g \<noteq> [])) \<and>
      (size (live g) < lt_k (loserTree g) \<longrightarrow> pending_input g = []) \<and>
      cur = 1 + int (length (generatedRuns g)) \<and>
      int (length xs) < INT_MAX - 1 \<and>
      lt_k (loserTree g) \<le> 1073741824)"

lemma filter_mset_update:
  assumes "i < kk" "kk \<le> length lv" "P (lv ! i)"
  shows "add_mset (lv ! i) (filter_mset P (mset (take kk (lv[i := x]))))
          = (if P x then {#x#} else {#}) + filter_mset P (mset (take kk lv))"
proof -
  define M where "M = mset (take kk lv) - {#lv ! i#}"
  have i: "i < length (take kk lv)" using assms(1,2) by simp
  have n: "take kk lv ! i = lv ! i" using assms(1) by simp
  have "take kk lv ! i \<in> set (take kk lv)" using i by (rule nth_mem)
  then have m: "lv ! i \<in># mset (take kk lv)" using n by simp
  have a: "mset (take kk (lv[i := x])) = add_mset x M"
    unfolding take_update_swap M_def using mset_update[OF i, of x] n by simp
  have b: "mset (take kk lv) = add_mset (lv ! i) M"
    unfolding M_def using insert_DiffM[OF m] by simp
  have r: "filter_mset P (mset (take kk lv)) = add_mset (lv ! i) (filter_mset P M)"
    by (subst b) (simp add: assms(3))
  show ?thesis unfolding a r by simp
qed

lemma length_le_concat: "(\<forall>r \<in> set rs. r \<noteq> []) \<Longrightarrow> length rs \<le> length (concat rs)"
proof (induction rs)
  case Nil
  then show ?case by simp
next
  case (Cons r rs)
  then show ?case by (cases r) auto
qed

lemma out_ok_loserTree [simp]: "out_ok (g\<lparr>loserTree := t\<rparr>) = out_ok g"
  by (simp add: out_ok_def)

lemma cur_run_loserTree [simp]: "cur_run (g\<lparr>loserTree := t\<rparr>) = cur_run g"
  by (simp add: cur_run_def flushed_def out_pending_def)

lemma sealed_loserTree [simp]: "sealed (g\<lparr>loserTree := t\<rparr>) = sealed g"
  by (simp add: sealed_def)

lemma same_but_input_out:
  assumes "same_but_input g g'"
  shows "out_ok g' = out_ok g" "cur_run g' = cur_run g" "sealed g' = sealed g"
    "generatedRuns g' = generatedRuns g"
  using assms
  by (simp_all add: same_but_input_def out_ok_def cur_run_def flushed_def out_pending_def sealed_def)

lemma same_but_output_live: "same_but_output g g' \<Longrightarrow> live g' = live g"
  by (simp add: same_but_output_def live_def)

text \<open>The winner is a live node when it is not the sentinel, and no live node beats it.\<close>

lemma winner_live:
  assumes "lt_wf (loserTree g)" "runID (getWinner (loserTree g)) \<noteq> INT_MAX"
  shows "getWinner (loserTree g) \<in># live g"
proof -
  let ?t = "loserTree g"
  have i: "tree ?t ! 0 < lt_k ?t" using assms(1) by (rule lt_wf_winner_range)
  have len: "length (leaves ?t) = lt_k ?t + 1" using assms(1) by (simp add: lt_wf_def)
  have "take (lt_k ?t) (leaves ?t) ! (tree ?t ! 0) = getWinner ?t"
    using i by (simp add: getWinner_def)
  moreover have "tree ?t ! 0 < length (take (lt_k ?t) (leaves ?t))" using i len by simp
  ultimately have "getWinner ?t \<in> set (take (lt_k ?t) (leaves ?t))"
    by (metis nth_mem)
  then show ?thesis using assms(2) by (simp add: live_def)
qed

lemma live_nle:
  assumes "lt_wf (loserTree g)" "n \<in># live g"
  shows "nle (getWinner (loserTree g)) n"
proof -
  let ?t = "loserTree g"
  from assms(2) have "n \<in> set (take (lt_k ?t) (leaves ?t))" by (simp add: live_def)
  then obtain i where "i < length (take (lt_k ?t) (leaves ?t))" "take (lt_k ?t) (leaves ?t) ! i = n"
    by (auto simp: in_set_conv_nth)
  then have "i < lt_k ?t" "leaves ?t ! i = n" by simp_all
  with lt_wf_winner_min[OF assms(1), of i] show ?thesis by simp
qed


lemma replace_step_lt_k:
  assumes "in_inv g"
  shows "lt_k (loserTree (replace_step g winnerNode cur)) = lt_k (loserTree g)"
proof -
  obtain r g1 where p: "pullNextInput g = (r, g1)" by (cases "pullNextInput g") auto
  have "same_but_input g g1" using pullNextInput_spec[OF assms] p by simp
  then have t: "loserTree g1 = loserTree g" by (simp add: same_but_input_def)
  show ?thesis
    using p t
    by (cases r) (simp_all add: replace_step_def Let_def replaceWinner_leaves setWinnerToSentinel_leaves)
qed

lemma loop_invD:
  assumes "loop_inv xs g cur"
  shows "in_inv g" "lt_wf (loserTree g)" "out_ok g"
    "\<forall>r \<in> set (sealed g). sorted r \<and> r \<noteq> []"
    "mset xs = mset (concat (sealed g)) + mset (cur_run g) + image_mset value (live g)
                 + mset (pending_input g)"
    "sorted (cur_run g)"
    "\<forall>n \<in># live g. (runID n = cur \<and> (\<forall>x \<in> set (cur_run g). x \<le> value n)) \<or>
                        (runID n = cur + 1 \<and> cur_run g \<noteq> [])"
    "size (live g) < lt_k (loserTree g) \<longrightarrow> pending_input g = []"
    "cur = 1 + int (length (generatedRuns g))"
    "int (length xs) < INT_MAX - 1"
    "lt_k (loserTree g) \<le> 1073741824"
  using assms unfolding loop_inv_def by blast+

lemma loop_invI:
  assumes "in_inv g" "lt_wf (loserTree g)" "out_ok g"
    "\<forall>r \<in> set (sealed g). sorted r \<and> r \<noteq> []"
    "mset xs = mset (concat (sealed g)) + mset (cur_run g) + image_mset value (live g)
                 + mset (pending_input g)"
    "sorted (cur_run g)"
    "\<forall>n \<in># live g. (runID n = cur \<and> (\<forall>x \<in> set (cur_run g). x \<le> value n)) \<or>
                        (runID n = cur + 1 \<and> cur_run g \<noteq> [])"
    "size (live g) < lt_k (loserTree g) \<longrightarrow> pending_input g = []"
    "cur = 1 + int (length (generatedRuns g))"
    "int (length xs) < INT_MAX - 1"
    "lt_k (loserTree g) \<le> 1073741824"
  shows "loop_inv xs g cur"
  using assms unfolding loop_inv_def by blast

text \<open>Step C: when the winner belongs to the next run, the current run is sealed.\<close>

lemma run_change:
  assumes inv: "loop_inv xs g cur0" and nz: "runID (getWinner (loserTree g)) \<noteq> INT_MAX"
    and st: "if runID (getWinner (loserTree g)) > cur0
             then end_run g = Inr g1 \<and> cur = runID (getWinner (loserTree g))
             else g1 = g \<and> cur = cur0"
  shows "loop_inv xs g1 cur \<and> loserTree g1 = loserTree g \<and> runID (getWinner (loserTree g)) = cur"
proof -
  let ?w = "getWinner (loserTree g)"
  note i = loop_invD[OF inv]
  have wl: "?w \<in># live g" using winner_live[OF i(2) nz] .
  from i(7) wl have wt: "runID ?w = cur0 \<or> (runID ?w = cur0 + 1 \<and> cur_run g \<noteq> [])" by blast
  show ?thesis
  proof (cases "runID ?w > cur0")
    case False
    then have "runID ?w = cur0" using wt by auto
    then show ?thesis using st False inv by simp
  next
    case True
    then have rw: "runID ?w = cur0 + 1" and ne: "cur_run g \<noteq> []" using wt by auto
    have e: "end_run g = Inr g1" and c: "cur = cur0 + 1" using st True rw by simp_all
    from end_run_view[OF i(3) e] ne obtain m where
      o1: "out_ok g1" and c1: "cur_run g1 = []"
      and gr: "generatedRuns g1 = generatedRuns g @ [m]" and se: "sealed g1 = sealed g @ [cur_run g]"
      by auto
    have so: "same_but_output g g1" using e by (rule end_run_same)
    have t1: "loserTree g1 = loserTree g" using so by (simp add: same_but_output_def)
    have l1: "live g1 = live g" using so by (rule same_but_output_live)
    have p1: "pending_input g1 = pending_input g" using so by (rule same_but_output_pending)
    have i1: "in_inv g1" using same_but_output_in_inv[OF so] i(1) by simp
    have tags: "runID n = cur" if "n \<in># live g" for n
    proof -
      from live_nle[OF i(2) that] have "runID ?w \<le> runID n"
        by (auto simp: nle_def isLoser_def split: if_splits)
      moreover from i(7) that have "runID n = cur0 \<or> runID n = cur0 + 1" by blast
      ultimately show ?thesis using rw c by auto
    qed
    have "loop_inv xs g1 cur"
    proof (rule loop_invI)
      show "in_inv g1" by (rule i1)
      show "lt_wf (loserTree g1)" using i(2) t1 by simp
      show "out_ok g1" by (rule o1)
      show "\<forall>r \<in> set (sealed g1). sorted r \<and> r \<noteq> []" using i(4,6) ne se by simp
      show "mset xs = mset (concat (sealed g1)) + mset (cur_run g1) + image_mset value (live g1)
                 + mset (pending_input g1)"
        using i(5) by (simp add: se c1 l1 p1)
      show "sorted (cur_run g1)" by (simp add: c1)
      show "\<forall>n \<in># live g1. (runID n = cur \<and> (\<forall>x \<in> set (cur_run g1). x \<le> value n)) \<or>
                        (runID n = cur + 1 \<and> cur_run g1 \<noteq> [])"
        using tags by (simp add: l1 c1)
      show "size (live g1) < lt_k (loserTree g1) \<longrightarrow> pending_input g1 = []"
        using i(8) by (simp add: l1 t1 p1)
      show "cur = 1 + int (length (generatedRuns g1))" using i(9) c by (simp add: gr)
      show "int (length xs) < INT_MAX - 1" by (rule i(10))
      show "lt_k (loserTree g1) \<le> 1073741824" using i(11) t1 by simp
    qed
    then show ?thesis using t1 rw c by simp
  qed
qed


text \<open>Steps D and E: the winner is emitted and replaced.\<close>

lemma emit_replace:
  assumes inv: "loop_inv xs g cur" and rw: "runID (getWinner (loserTree g)) = cur"
    and nz: "cur \<noteq> INT_MAX"
    and em: "emit g (value (getWinner (loserTree g))) = Inr g2"
  shows "loop_inv xs (replace_step g2 (getWinner (loserTree g)) cur) cur"
proof -
  let ?w = "getWinner (loserTree g)"
  let ?g' = "replace_step g2 ?w cur"
  let ?t = "loserTree g"
  note i = loop_invD[OF inv]
  have nzw: "runID ?w \<noteq> INT_MAX" using rw nz by simp
  have wl: "?w \<in># live g" using winner_live[OF i(2) nzw] .
  define L where "L = live g - {#?w#}"
  have lg: "live g = add_mset ?w L" unfolding L_def using insert_DiffM[OF wl] by simp
  have wx: "\<forall>x \<in> set (cur_run g). x \<le> value ?w" using i(7) wl rw by auto
  note ev = emit_view[OF i(3) em]
  have so: "same_but_output g g2" using em by (rule emit_same)
  have t2: "loserTree g2 = ?t" using so by (simp add: same_but_output_def)
  have p2: "pending_input g2 = pending_input g" using so by (rule same_but_output_pending)
  have i2: "in_inv g2" using same_but_output_in_inv[OF so] i(1) by simp
  have w2: "lt_wf (loserTree g2)" using i(2) t2 by simp
  have o2: "out_ok g2" "sealed g2 = sealed g" "generatedRuns g2 = generatedRuns g"
    using ev(1) by (simp_all add: out_keeps_def)
  have c2: "cur_run g2 = cur_run g @ [value ?w]" by (rule ev(2))
  have bound: "cur + 1 < INT_MAX"
  proof -
    have "length (sealed g) \<le> length (concat (sealed g))"
      using i(4) by (intro length_le_concat) simp
    moreover have "size (mset xs) = length (concat (sealed g)) + length (cur_run g)
        + size (live g) + length (pending_input g)"
      unfolding i(5) by simp
    moreover have "1 \<le> size (live g)" unfolding lg by simp
    ultimately have "length (generatedRuns g) + 1 \<le> length xs" by (simp add: sealed_def)
    then show ?thesis using i(9,10) by simp
  qed
  have k': "lt_k (loserTree ?g') = lt_k ?t" using replace_step_lt_k[OF i2] t2 by simp
  have b2: "lt_k (loserTree g2) \<le> 1073741824" using i(11) t2 by simp
  have wf': "lt_wf (loserTree ?g')" by (rule replace_step_wf[OF i2 w2 b2])
  have b': "lt_k (loserTree ?g') \<le> 1073741824" using k' i(11) by simp
  have idx: "tree ?t ! 0 < lt_k ?t" using i(2) by (rule lt_wf_winner_range)
  have len: "lt_k ?t \<le> length (leaves ?t)" using i(2) by (simp add: lt_wf_def)
  have upd: "add_mset ?w (live ?g') = (if runID x \<noteq> INT_MAX then {#x#} else {#}) + live g"
    if "leaves (loserTree ?g') = (leaves ?t)[tree ?t ! 0 := x]" for x
  proof -
    have a: "live ?g' = filter_mset (\<lambda>n. runID n \<noteq> INT_MAX)
               (mset (take (lt_k ?t) ((leaves ?t)[tree ?t ! 0 := x])))"
      by (simp add: live_def k' that)
    have b: "leaves ?t ! (tree ?t ! 0) = ?w" by (simp add: getWinner_def)
    have c: "live g = filter_mset (\<lambda>n. runID n \<noteq> INT_MAX) (mset (take (lt_k ?t) (leaves ?t)))"
      by (simp add: live_def)
    show ?thesis
      unfolding a c
      using filter_mset_update[OF idx len, of "\<lambda>n. runID n \<noteq> INT_MAX" x] nzw
      unfolding b by simp
  qed
  have out': "out_ok ?g'" "cur_run ?g' = cur_run g @ [value ?w]" "sealed ?g' = sealed g"
    "generatedRuns ?g' = generatedRuns g"
    if "same_but_input g2 (?g'\<lparr>loserTree := loserTree g2\<rparr>)"
    using same_but_input_out[OF that] o2 c2 by simp_all
  have old: "(runID n = cur \<and> (\<forall>x \<in> set (cur_run g @ [value ?w]). x \<le> value n)) \<or>
             (runID n = cur + 1 \<and> cur_run g @ [value ?w] \<noteq> [])" if "n \<in># L" for n
  proof -
    have nl: "n \<in># live g" using that unfolding L_def by (rule in_diffD)
    from i(7) nl consider "runID n = cur" "\<forall>x \<in> set (cur_run g). x \<le> value n"
      | "runID n = cur + 1" by blast
    then show ?thesis
    proof cases
      case 1
      from live_nle[OF i(2) nl] 1(1) rw have "value ?w \<le> value n"
        by (auto simp: nle_def isLoser_def split: if_splits)
      then show ?thesis using 1 by simp
    next
      case 2
      then show ?thesis by simp
    qed
  qed
  have srt: "sorted (cur_run g @ [value ?w])" using i(6) wx by (simp add: sorted_append)
  show ?thesis
  proof (cases "pending_input g2")
    case Nil
    note r = replace_step_Nil[OF i2 w2 Nil, of ?w cur]
    have "add_mset ?w (live ?g') = live g"
      using upd[of SENTINEL] r(1) t2 by (simp add: SENTINEL_def)
    then have l': "live ?g' = L" unfolding lg by simp
    note o = out'[OF r(5)]
    show ?thesis
    proof (rule loop_invI)
      show "in_inv ?g'" by (rule r(4))
      show "lt_wf (loserTree ?g')" by (rule wf')
      show "out_ok ?g'" by (rule o(1))
      show "\<forall>r \<in> set (sealed ?g'). sorted r \<and> r \<noteq> []" using i(4) by (simp add: o(3))
      show "mset xs = mset (concat (sealed ?g')) + mset (cur_run ?g') + image_mset value (live ?g')
                 + mset (pending_input ?g')"
        using i(5) Nil p2 by (simp add: o(2,3) l' r(2) lg)
      show "sorted (cur_run ?g')" using srt by (simp add: o(2))
      show "\<forall>n \<in># live ?g'. (runID n = cur \<and> (\<forall>x \<in> set (cur_run ?g'). x \<le> value n)) \<or>
                        (runID n = cur + 1 \<and> cur_run ?g' \<noteq> [])"
        unfolding l' o(2) using old by blast
      show "size (live ?g') < lt_k (loserTree ?g') \<longrightarrow> pending_input ?g' = []"
        by (simp add: r(2))
      show "cur = 1 + int (length (generatedRuns ?g'))" unfolding o(4) by (rule i(9))
      show "int (length xs) < INT_MAX - 1" by (rule i(10))
      show "lt_k (loserTree ?g') \<le> 1073741824" by (rule b')
    qed
  next
    case (Cons v rest)
    note r = replace_step_Cons[OF i2 w2 Cons, of ?w cur]
    let ?tag = "if v < value ?w then cur + 1 else cur"
    let ?new = "\<lparr>value = v, runID = ?tag\<rparr>"
    have tz: "?tag \<noteq> INT_MAX" using bound nz by simp
    have "add_mset ?w (live ?g') = add_mset ?new (live g)"
      using upd[of ?new] r(1) t2 tz by simp
    then have l': "live ?g' = add_mset ?new L" unfolding lg by simp
    note o = out'[OF r(5)]
    have newok: "(runID ?new = cur \<and> (\<forall>x \<in> set (cur_run g @ [value ?w]). x \<le> value ?new)) \<or>
             (runID ?new = cur + 1 \<and> cur_run g @ [value ?w] \<noteq> [])"
      using wx by (cases "v < value ?w") (auto simp: not_less)
    show ?thesis
    proof (rule loop_invI)
      show "in_inv ?g'" by (rule r(4))
      show "lt_wf (loserTree ?g')" by (rule wf')
      show "out_ok ?g'" by (rule o(1))
      show "\<forall>r \<in> set (sealed ?g'). sorted r \<and> r \<noteq> []" using i(4) by (simp add: o(3))
      show "mset xs = mset (concat (sealed ?g')) + mset (cur_run ?g') + image_mset value (live ?g')
                 + mset (pending_input ?g')"
        using i(5) Cons p2 by (simp add: o(2,3) l' r(2) lg)
      show "sorted (cur_run ?g')" using srt by (simp add: o(2))
      show "\<forall>n \<in># live ?g'. (runID n = cur \<and> (\<forall>x \<in> set (cur_run ?g'). x \<le> value n)) \<or>
                        (runID n = cur + 1 \<and> cur_run ?g' \<noteq> [])"
        unfolding l' o(2) using old newok by (metis insert_iff set_mset_add_mset_insert)
      have "size (live ?g') = size (live g)" by (simp add: l' lg)
      moreover have "\<not> size (live g) < lt_k ?t" using i(8) Cons p2 by auto
      ultimately show "size (live ?g') < lt_k (loserTree ?g') \<longrightarrow> pending_input ?g' = []"
        by (simp add: k')
      show "cur = 1 + int (length (generatedRuns ?g'))" unfolding o(4) by (rule i(9))
      show "int (length xs) < INT_MAX - 1" by (rule i(10))
      show "lt_k (loserTree ?g') \<le> 1073741824" by (rule b')
    qed
  qed
qed

lemma compute_step_inv:
  assumes "loop_inv xs g cur0" "compute_step g cur0 = Continue g' cur"
  shows "loop_inv xs g' cur"
proof -
  let ?w = "getWinner (loserTree g)"
  from compute_step_Continue[OF assms(2)] obtain g1 g2 where
    nz: "runID ?w \<noteq> INT_MAX"
    and s: "if runID ?w > cur0 then end_run g = Inr g1 \<and> cur = runID ?w else g1 = g \<and> cur = cur0"
    and em: "emit g1 (value ?w) = Inr g2" and g': "g' = replace_step g2 ?w cur" by blast
  from run_change[OF assms(1) nz s] have
    a: "loop_inv xs g1 cur" "loserTree g1 = loserTree g" "runID ?w = cur" by simp_all
  from emit_replace[OF a(1), of g2] a(2,3) nz em show ?thesis
    unfolding g' by simp
qed

text \<open>When the loop is left, every element is in a sealed run or in the current run.\<close>

lemma compute_step_Break:
  assumes "loop_inv xs g cur" "compute_step g cur = Break"
  shows "mset xs = mset (concat (sealed g)) + mset (cur_run g)"
proof -
  let ?w = "getWinner (loserTree g)"
  note i = loop_invD[OF assms(1)]
  have wz: "runID ?w = INT_MAX"
    using assms(2)
    by (auto simp: compute_step_def Let_def split: if_splits sum.splits prod.splits)
  have "length (sealed g) \<le> length (concat (sealed g))"
    using i(4) by (intro length_le_concat) simp
  moreover have "size (mset xs) = length (concat (sealed g)) + length (cur_run g)
      + size (live g) + length (pending_input g)"
    unfolding i(5) by simp
  ultimately have b: "length (generatedRuns g) + length (cur_run g) \<le> length xs"
    by (simp add: sealed_def)
  have "live g = {#}"
  proof (rule ccontr)
    assume "live g \<noteq> {#}"
    then obtain n where n: "n \<in># live g" by (auto simp: multiset_nonemptyE)
    from live_nle[OF i(2) n] wz have ge: "INT_MAX \<le> runID n"
      by (auto simp: nle_def isLoser_def split: if_splits)
    from i(7) n consider "runID n = cur" | "runID n = cur + 1" "cur_run g \<noteq> []" by blast
    then show False
    proof cases
      case 1
      then show False using ge i(9,10) b by simp
    next
      case 2
      then have "1 \<le> length (cur_run g)" by (cases "cur_run g") simp_all
      then show False using 2 ge i(9,10) b by simp
    qed
  qed
  moreover from this have "pending_input g = []" using i(8) lt_wf_k[OF i(2)] by simp
  ultimately show ?thesis using i(5) by simp
qed

definition loop_done :: "int list \<Rightarrow> RunGenerator \<Rightarrow> bool" where
  "loop_done xs g =
     ((\<exists>c. loop_inv xs g c) \<and> mset xs = mset (concat (sealed g)) + mset (cur_run g))"

lemma compute_loop_inv:
  assumes "compute_loop g cur = Some y"
  shows "loop_inv xs g cur \<longrightarrow> (\<forall>g'. y = Inr g' \<longrightarrow> loop_done xs g')"
proof (rule compute_loop.raw_induct[where P = "\<lambda>g cur y. loop_inv xs g cur \<longrightarrow>
          (\<forall>g'. y = Inr g' \<longrightarrow> loop_done xs g')", OF _ assms])
  fix loop :: "RunGenerator \<Rightarrow> int \<Rightarrow> (error + RunGenerator) option"
  fix g cur y
  assume IH: "\<And>g cur y. loop g cur = Some y \<Longrightarrow>
            loop_inv xs g cur \<longrightarrow> (\<forall>g'. y = Inr g' \<longrightarrow> loop_done xs g')"
    and st: "(case compute_step g cur of Break \<Rightarrow> Some (Inr g) | Throw e \<Rightarrow> Some (Inl e)
              | Continue g1 c1 \<Rightarrow> loop g1 c1) = Some y"
  show "loop_inv xs g cur \<longrightarrow> (\<forall>g'. y = Inr g' \<longrightarrow> loop_done xs g')"
  proof (intro impI allI)
    fix g'
    assume inv: "loop_inv xs g cur" and y: "y = Inr g'"
    show "loop_done xs g'"
    proof (cases "compute_step g cur")
      case Break
      then have "g' = g" using st y by simp
      then show ?thesis using compute_step_Break[OF inv Break] inv by (auto simp: loop_done_def)
    next
      case (Throw e)
      then show ?thesis using st y by simp
    next
      case (Continue g1 c1)
      then have "loop g1 c1 = Some y" using st by simp
      from IH[OF this] compute_step_inv[OF inv Continue] y show ?thesis by simp
    qed
  qed
qed


subsection \<open>Phase 1 as a whole\<close>

lemma initial_nodes:
  assumes "length d \<le> kk"
  shows "filter (\<lambda>n. runID n \<noteq> INT_MAX)
           (map (\<lambda>i. if i < length d then \<lparr>value = d ! i, runID = 1\<rparr> else SENTINEL) [0..<kk])
         = map (\<lambda>v. \<lparr>value = v, runID = 1\<rparr>) d"
proof -
  let ?f = "\<lambda>i. if i < length d then \<lparr>value = d ! i, runID = 1\<rparr> else SENTINEL"
  let ?P = "\<lambda>n. runID n \<noteq> INT_MAX"
  have s: "[0..<kk] = [0..<length d] @ [length d..<kk]"
    using assms by (metis le_add_diff_inverse upt_add_eq_append zero_le)
  have a: "map ?f [0..<length d] = map (\<lambda>v. \<lparr>value = v, runID = 1\<rparr>) d"
    by (rule nth_equalityI) simp_all
  have b: "filter ?P (map ?f [length d..<kk]) = []"
    by (simp add: filter_empty_conv SENTINEL_def)
  have c: "filter ?P (map (\<lambda>v. \<lparr>value = v, runID = 1\<rparr>) d) = map (\<lambda>v. \<lparr>value = v, runID = 1\<rparr>) d"
    by (simp add: INT_MAX_def filter_id_conv)
  show ?thesis by (subst s) (simp only: map_append filter_append a b c append_Nil2)
qed

lemma live_initialize:
  assumes "0 < lt_k (loserTree g)" "length d \<le> lt_k (loserTree g)"
  shows "live (g\<lparr>loserTree := initialize (loserTree g) d\<rparr>)
           = image_mset (\<lambda>v. \<lparr>value = v, runID = 1\<rparr>) (mset d)"
proof -
  let ?k = "lt_k (loserTree g)"
  note w = initialize_leaves[of "loserTree g" d]
  have "take ?k (leaves (initialize (loserTree g) d))
          = map (\<lambda>i. if i < length d then \<lparr>value = d ! i, runID = 1\<rparr> else SENTINEL) [0..<?k]"
    unfolding w(1) by simp
  then have "live (g\<lparr>loserTree := initialize (loserTree g) d\<rparr>)
      = mset (filter (\<lambda>n. runID n \<noteq> INT_MAX)
           (map (\<lambda>i. if i < length d then \<lparr>value = d ! i, runID = 1\<rparr> else SENTINEL) [0..<?k]))"
    by (simp add: live_def w(2))
  then show ?thesis unfolding initial_nodes[OF assms(2)] by simp
qed

text \<open>
  What \<open>generateRuns\<close> returns when it returns a vector: the run file is open and
  consistent, every run of the vector lies in the data area, is sorted and not empty, and
  the runs together hold the elements of the input.
\<close>

lemma generateRuns_spec:
  assumes init: "RunGenerator_init kk b = Inr g" and kb: "kk \<le> 1073741824"
    and b: "0 < b" and ok: "rf_ok rf"
    and n: "int (length xs) < INT_MAX - 1"
    and res: "generateRuns g (Some xs) rf = Some (Inr (runs, g'))"
  shows "rf_ok (runFile g')" "runs_ok (runFile g') runs" "runs_mset (runFile g') runs = mset xs"
    "\<forall>m \<in> set runs. run_data (runFile g') m \<noteq> []" "runs = generatedRuns g'"
proof -
  note gi = RunGenerator_init_Inr[OF init]
  define rf1 where "rf1 = snd (allocateNewRun rf)"
  define g0 where "g0 = g\<lparr>inputFile := xs, runFile := rf1, currentRunId := fst (allocateNewRun rf),
                            currentRunStartOffset := getAppendOffset rf1,
                            totalElementsInRun := 0, generatedRuns := []\<rparr>"
  have cw: "computeWorker g0 = Some (Inr g')" and rs: "runs = generatedRuns g'"
    using res
    by (auto simp: generateRuns_def Let_def g0_def rf1_def split: option.splits sum.splits)
  obtain d g1 where fi: "fill_initial g0 [] = (d, g1)" by (cases "fill_initial g0 []") auto
  define g1' where "g1' = g1\<lparr>loserTree := initialize (loserTree g1) d\<rparr>"
  from cw fi obtain g2 where cl: "compute_loop g1' 1 = Some (Inr g2)" and fin: "finish g2 = Inr g'"
    by (auto simp: computeWorker_def g1'_def split: option.splits sum.splits)
  have i0: "in_inv g0" using gi b by (simp add: in_inv_def g0_def)
  have p0: "pending_input g0 = xs" using gi by (simp add: pending_input_def g0_def)
  have k0: "rg_K g0 = kk" "lt_k (loserTree g0) = nat kk" using gi by (simp_all add: g0_def)
  from fill_initial_spec[OF i0 fi] have
    i1: "in_inv g1" and s1: "same_but_input g0 g1"
    and d: "d = take (nat kk) xs" and p1: "pending_input g1 = drop (nat kk) xs"
    by (simp_all add: p0 k0)
  have t1: "loserTree g1 = loserTree g0" using s1 by (simp add: same_but_input_def)
  have k1: "lt_k (loserTree g1) = nat kk" "0 < lt_k (loserTree g1)" using t1 k0 gi(7) by simp_all
  have k1b: "lt_k (loserTree g1) \<le> 1073741824" using k1(1) kb by simp
  have ok1: "rf_ok rf1" unfolding rf1_def by (rule rf_ok_allocateNewRun[OF ok])
  have o0: "out_ok g0" using ok1 getAppendOffset_ok[OF ok1] by (simp add: out_ok_def g0_def)
  have c0: "cur_run g0 = []" "sealed g0 = []" "generatedRuns g0 = []"
    using gi by (simp_all add: cur_run_def flushed_def out_pending_def sealed_def g0_def)
  note so = same_but_input_out[OF s1]
  have ld: "length d \<le> lt_k (loserTree g1)" using d k1 by simp
  have l1: "live g1' = image_mset (\<lambda>v. \<lparr>value = v, runID = 1\<rparr>) (mset d)"
    unfolding g1'_def by (rule live_initialize[OF k1(2) ld])
  have lv: "image_mset value (live g1') = mset d"
    by (simp add: l1 image_mset.compositionality comp_def)
  have c1: "cur_run g1' = []" "sealed g1' = []" "generatedRuns g1' = []"
    "pending_input g1' = drop (nat kk) xs"
    using so c0 p1 by (simp_all add: g1'_def)
  have inv: "loop_inv xs g1' 1"
  proof (rule loop_invI)
    show "in_inv g1'" using i1 by (simp add: g1'_def)
    show "lt_wf (loserTree g1')" using initialize_wf[OF k1(2) k1b] by (simp add: g1'_def)
    show "out_ok g1'" using so(1) o0 by (simp add: g1'_def)
    show "\<forall>r \<in> set (sealed g1'). sorted r \<and> r \<noteq> []" by (simp add: c1)
    have "mset xs = mset (take (nat kk) xs) + mset (drop (nat kk) xs)"
      by (metis append_take_drop_id mset_append)
    then show "mset xs = mset (concat (sealed g1')) + mset (cur_run g1') + image_mset value (live g1')
                 + mset (pending_input g1')"
      unfolding lv c1 d by simp
    show "sorted (cur_run g1')" by (simp add: c1)
    show "\<forall>n \<in># live g1'. (runID n = 1 \<and> (\<forall>x \<in> set (cur_run g1'). x \<le> value n)) \<or>
                        (runID n = 1 + 1 \<and> cur_run g1' \<noteq> [])"
      by (auto simp: l1 c1)
    have "size (live g1') = length d" by (simp add: l1)
    moreover have "lt_k (loserTree g1') = nat kk"
      using k1(1) by (simp add: g1'_def initialize_leaves)
    ultimately show "size (live g1') < lt_k (loserTree g1') \<longrightarrow> pending_input g1' = []"
      using d by (simp add: c1)
    show "1 = 1 + int (length (generatedRuns g1'))" by (simp add: c1)
    show "int (length xs) < INT_MAX - 1" by (rule n)
    show "lt_k (loserTree g1') \<le> 1073741824" using k1b by (simp add: g1'_def initialize_leaves)
  qed
  from compute_loop_inv[OF cl, of xs] inv have dn: "loop_done xs g2" by simp
  then obtain c where i2: "loop_inv xs g2 c"
    and m2: "mset xs = mset (concat (sealed g2)) + mset (cur_run g2)"
    by (auto simp: loop_done_def)
  note j = loop_invD[OF i2]
  from finish_view[OF j(3) fin] have
    f: "rf_ok (runFile g')" "\<forall>m \<in> set (generatedRuns g'). run_valid (runFile g') m"
       "sealed g' = (if cur_run g2 = [] then sealed g2 else sealed g2 @ [cur_run g2])"
    by (auto split: if_splits)
  have srt: "\<forall>r \<in> set (sealed g'). sorted r \<and> r \<noteq> []"
    using j(4,6) f(3) by (auto split: if_splits)
  have ms: "mset (concat (sealed g')) = mset xs"
    using m2 f(3) by (simp split: if_splits)
  show "rf_ok (runFile g')" by (rule f(1))
  show "runs_ok (runFile g') runs"
    using f(2) srt by (simp add: runs_ok_def rs sealed_def)
  show "runs_mset (runFile g') runs = mset xs"
    using ms by (simp add: runs_mset_concat rs sealed_def)
  show "\<forall>m \<in> set runs. run_data (runFile g') m \<noteq> []"
    using srt by (simp add: rs sealed_def)
  show "runs = generatedRuns g'" by (rule rs)
qed


subsection \<open>The main loop ends\<close>

text \<open>
  Every iteration that goes on consumes an input element or retires a leaf, so the
  number of live nodes plus the number of elements still to be read goes down.
\<close>

lemma compute_step_measure:
  assumes "in_inv g" "lt_wf (loserTree g)" "compute_step g cur0 = Continue g' cur"
    and "lt_k (loserTree g) \<le> 1073741824"
  shows "in_inv g' \<and> lt_wf (loserTree g') \<and> lt_k (loserTree g') \<le> 1073741824 \<and>
         size (live g') + length (pending_input g') < size (live g) + length (pending_input g)"
proof -
  let ?w = "getWinner (loserTree g)"
  let ?t = "loserTree g"
  from compute_step_Continue[OF assms(3)] obtain g1 g2 where
    nz: "runID ?w \<noteq> INT_MAX"
    and s: "if runID ?w > cur0 then end_run g = Inr g1 \<and> cur = runID ?w else g1 = g \<and> cur = cur0"
    and em: "emit g1 (value ?w) = Inr g2" and g': "g' = replace_step g2 ?w cur" by blast
  have s1: "same_but_output g g1"
    using s by (auto simp: same_but_output_refl dest: end_run_same split: if_splits)
  have so: "same_but_output g g2" using same_but_output_trans[OF s1 emit_same[OF em]] .
  have t2: "loserTree g2 = ?t" using so by (simp add: same_but_output_def)
  have p2: "pending_input g2 = pending_input g" using so by (rule same_but_output_pending)
  have i2: "in_inv g2" using same_but_output_in_inv[OF so] assms(1) by simp
  have w2: "lt_wf (loserTree g2)" using assms(2) t2 by simp
  have k': "lt_k (loserTree g') = lt_k ?t" unfolding g' using replace_step_lt_k[OF i2] t2 by simp
  have b2: "lt_k (loserTree g2) \<le> 1073741824" using assms(4) t2 by simp
  have wf': "lt_wf (loserTree g')" unfolding g' by (rule replace_step_wf[OF i2 w2 b2])
  have b': "lt_k (loserTree g') \<le> 1073741824" using k' assms(4) by simp
  have idx: "tree ?t ! 0 < lt_k ?t" using assms(2) by (rule lt_wf_winner_range)
  have len: "lt_k ?t \<le> length (leaves ?t)" using assms(2) by (simp add: lt_wf_def)
  have upd: "add_mset ?w (live g') = (if runID x \<noteq> INT_MAX then {#x#} else {#}) + live g"
    if "leaves (loserTree g') = (leaves ?t)[tree ?t ! 0 := x]" for x
  proof -
    have a: "live g' = filter_mset (\<lambda>n. runID n \<noteq> INT_MAX)
               (mset (take (lt_k ?t) ((leaves ?t)[tree ?t ! 0 := x])))"
      by (simp add: live_def k' that)
    have b: "leaves ?t ! (tree ?t ! 0) = ?w" by (simp add: getWinner_def)
    have c: "live g = filter_mset (\<lambda>n. runID n \<noteq> INT_MAX) (mset (take (lt_k ?t) (leaves ?t)))"
      by (simp add: live_def)
    show ?thesis
      unfolding a c
      using filter_mset_update[OF idx len, of "\<lambda>n. runID n \<noteq> INT_MAX" x] nz
      unfolding b by simp
  qed
  show ?thesis
  proof (cases "pending_input g2")
    case Nil
    note r = replace_step_Nil[OF i2 w2 Nil, of ?w cur]
    have "add_mset ?w (live g') = live g"
      using upd[of SENTINEL] r(1) t2 by (simp add: SENTINEL_def g')
    then have "Suc (size (live g')) = size (live g)" by (metis size_add_mset)
    then show ?thesis using r(2,4) wf' b' Nil p2 by (simp add: g')
  next
    case (Cons v rest)
    note r = replace_step_Cons[OF i2 w2 Cons, of ?w cur]
    let ?new = "\<lparr>value = v, runID = (if v < value ?w then cur + 1 else cur)\<rparr>"
    have "add_mset ?w (live g') = (if runID ?new \<noteq> INT_MAX then {#?new#} else {#}) + live g"
      using upd[of ?new] r(1) t2 by (simp add: g')
    then have "size (add_mset ?w (live g')) \<le> size (add_mset ?new (live g))"
      by (simp split: if_splits)
    then have "size (live g') \<le> size (live g)" by simp
    then show ?thesis using r(2,4) wf' b' Cons p2 by (simp add: g')
  qed
qed

lemma compute_loop_returns:
  "in_inv g \<Longrightarrow> lt_wf (loserTree g) \<Longrightarrow> lt_k (loserTree g) \<le> 1073741824 \<Longrightarrow>
   \<exists>y. compute_loop g cur = Some y"
proof (induction "size (live g) + length (pending_input g)" arbitrary: g cur rule: less_induct)
  case less
  show ?case
  proof (cases "compute_step g cur")
    case Break
    then show ?thesis by (subst compute_loop.simps) simp
  next
    case (Throw e)
    then show ?thesis by (subst compute_loop.simps) simp
  next
    case (Continue g1 c1)
    from compute_step_measure[OF less.prems(1,2) Continue less.prems(3)] have
      m: "size (live g1) + length (pending_input g1) < size (live g) + length (pending_input g)"
      and i1: "in_inv g1" and w1: "lt_wf (loserTree g1)"
      and b1: "lt_k (loserTree g1) \<le> 1073741824" by simp_all
    from less.hyps[OF m i1 w1 b1] obtain y where "compute_loop g1 c1 = Some y" by blast
    then show ?thesis using Continue by (subst compute_loop.simps) simp
  qed
qed

text \<open>\<open>generateRuns\<close> returns, with a vector or with an exception.\<close>

lemma generateRuns_returns:
  assumes "RunGenerator_init kk b = Inr g" "kk \<le> 1073741824" "0 < b"
  shows "\<exists>r. generateRuns g (Some xs) rf = Some r"
proof -
  note gi = RunGenerator_init_Inr[OF assms(1)]
  define g0 where "g0 = g\<lparr>inputFile := xs, runFile := snd (allocateNewRun rf),
                            currentRunId := fst (allocateNewRun rf),
                            currentRunStartOffset := getAppendOffset (snd (allocateNewRun rf)),
                            totalElementsInRun := 0, generatedRuns := []\<rparr>"
  obtain d g1 where fi: "fill_initial g0 [] = (d, g1)" by (cases "fill_initial g0 []") auto
  have i0: "in_inv g0" using gi assms(3) by (simp add: in_inv_def g0_def)
  from fill_initial_spec[OF i0 fi] have i1: "in_inv g1" and s1: "same_but_input g0 g1" by simp_all
  have k1: "0 < lt_k (loserTree g1)" using s1 gi by (simp add: same_but_input_def g0_def)
  have k1b: "lt_k (loserTree g1) \<le> 1073741824"
    using s1 gi assms(2) by (simp add: same_but_input_def g0_def)
  let ?g = "g1\<lparr>loserTree := initialize (loserTree g1) d\<rparr>"
  have "in_inv ?g" using i1 by simp
  moreover have "lt_wf (loserTree ?g)" using initialize_wf[OF k1 k1b] by simp
  moreover have "lt_k (loserTree ?g) \<le> 1073741824" using k1b by (simp add: initialize_leaves)
  ultimately obtain y where "compute_loop ?g 1 = Some y"
    using compute_loop_returns by blast
  then have "\<exists>r. computeWorker g0 = Some r"
    using fi by (cases y) (simp_all add: computeWorker_def)
  then obtain r where "computeWorker g0 = Some r" ..
  then show ?thesis
    by (cases r) (simp_all add: generateRuns_def Let_def g0_def)
qed


subsection \<open>The two phases together\<close>

lemma runs_count_size:
  "\<forall>m \<in> set rs. run_valid rf m \<Longrightarrow> runs_count rs = int (size (runs_mset rf rs))"
proof (induction rs)
  case Nil
  then show ?case by (simp add: runs_count_def runs_mset_def)
next
  case (Cons m rs)
  have "run_valid rf m" using Cons.prems by simp
  then have "int (length (run_data rf m)) = elementCount m"
    using run_valid_length[of rf m] by (simp add: run_valid_def)
  then show ?case using Cons by (simp add: runs_count_def runs_mset_def)
qed

definition sort_example_gen :: RunGenerator where
  "sort_example_gen =
     \<lparr>rg_K = 2, bufSize = 2,
      loserTree = \<lparr>tree = [0, 0], leaves = [SENTINEL, SENTINEL, SENTINEL], lt_k = 2\<rparr>,
      activeIn = [], standbyIn = [0, 0], activeOut = [], standbyOut = [0, 0],
      activeInIdx = 0, standby_input_ready = False, standby_output_busy = False,
      input_eof = False, inputFile = [], runFile = RunFile_init None,
      currentRunStartOffset = 0, totalElementsInRun = 0, currentRunId = 0,
      generatedRuns = []\<rparr>"

definition sort_example_file :: RunFile where
  "sort_example_file = snd (open_rf (snd (create (RunFile_init None) 4)))"

definition sort_example_runs :: "RunMetadata list" where
  "sort_example_runs =
     (case generateRuns sort_example_gen (Some [3, 1, 2, 0]) sort_example_file of
        Some (Inr (runs, g')) \<Rightarrow> runs | _ \<Rightarrow> [])"

definition sort_example_after :: RunGenerator where
  "sort_example_after =
     (case generateRuns sort_example_gen (Some [3, 1, 2, 0]) sort_example_file of
        Some (Inr (runs, g')) \<Rightarrow> g' | _ \<Rightarrow> sort_example_gen)"

text \<open>In the example the queue takes the first of the runs of least count.\<close>

definition sort_example_final :: RunMetadata where
  "sort_example_final =
     (case externalMergeSort (\<lambda>n. 0) sort_example_runs (runFile sort_example_after) of
        Inr (final, rf2) \<Rightarrow> final | _ \<Rightarrow> RunMetadata_init)"

definition sort_example_merged :: RunFile where
  "sort_example_merged =
     (case externalMergeSort (\<lambda>n. 0) sort_example_runs (runFile sort_example_after) of
        Inr (final, rf2) \<Rightarrow> rf2 | _ \<Rightarrow> sort_example_file)"

lemma sort_example_init: "RunGenerator_init 2 2 = Inr sort_example_gen"
  by (simp add: RunGenerator_init_def LoserTree_init_def sort_example_gen_def numeral_3_eq_3
        numeral_2_eq_2)

lemma sort_example_size: "(2 :: int) \<le> 1073741824"
  by simp

lemma sort_example_file_ok: "rf_ok sort_example_file"
  by (simp add: sort_example_file_def create_def open_rf_def RunFile_init_def
      RunFileHeader_init_def RunMetadata_init_def Let_def rf_ok_def)

lemma sort_example_phase1:
  "generateRuns sort_example_gen (Some [3, 1, 2, 0]) sort_example_file
     = Some (Inr (sort_example_runs, sort_example_after))"
  by code_simp

lemma sort_example_runs_eq:
  "sort_example_runs = [\<lparr>startOffset = 108, elementCount = 3, isUsed = True\<rparr>,
                        \<lparr>startOffset = 120, elementCount = 1, isUsed = True\<rparr>]"
  by code_simp

lemma sort_example_phase2:
  "externalMergeSort (\<lambda>n. 0) sort_example_runs (runFile sort_example_after)
     = Inr (sort_example_final, sort_example_merged)"
  by code_simp

lemma sort_example_final_eq:
  "sort_example_final = \<lparr>startOffset = 124, elementCount = 4, isUsed = True\<rparr>"
  by code_simp

lemma sort_example_bound: "int (length [3, 1, 2, 0 :: int]) < INT_MAX - 1"
  by (simp add: INT_MAX_def)

text \<open>
  Claim C1 (per-run monotonicity). Let the generator be constructed with a tree of at
  most \<open>2^30\<close> leaves (so that the index arithmetic of the loser tree stays within
  \<^verbatim>\<open>int\<close>) and a positive block size, the run file be open, and the input have fewer
  than \<open>INT_MAX - 1\<close> elements. Then \<open>generateRuns\<close> returns; when it returns a vector of
  runs (and not an exception), reading any of the runs through an \<open>InputBuffer\<close> of any
  positive block size gives a sorted (non-decreasing) list, and when \<open>externalMergeSort\<close>
  on that vector returns a final run, whatever the queue does with runs of equal count,
  reading that run gives a sorted list as well.
\<close>

theorem runs_are_sorted:
  assumes "RunGenerator_init kk b = Inr g" "kk \<le> 1073741824" "0 < b" "rf_ok rf"
    and "int (length xs) < INT_MAX - 1" and "0 < bs"
  shows "\<exists>r. generateRuns g (Some xs) rf = Some r \<and>
           (\<forall>runs g'. r = Inr (runs, g') \<longrightarrow>
              (\<forall>m \<in> set runs. \<exists>ys. read_run (runFile g') m bs = Inr ys \<and> sorted ys) \<and>
              (\<forall>ties final rf2.
                 externalMergeSort ties runs (runFile g') = Inr (final, rf2) \<longrightarrow>
                 (\<exists>ys. read_run rf2 final bs = Inr ys \<and> sorted ys)))"
proof -
  from generateRuns_returns[OF assms(1,2,3)] obtain r where
    r: "generateRuns g (Some xs) rf = Some r" ..
  have "(\<forall>m \<in> set runs. \<exists>ys. read_run (runFile g') m bs = Inr ys \<and> sorted ys) \<and>
        (\<forall>ties final rf2.
           externalMergeSort ties runs (runFile g') = Inr (final, rf2) \<longrightarrow>
           (\<exists>ys. read_run rf2 final bs = Inr ys \<and> sorted ys))"
    if "r = Inr (runs, g')" for runs g'
  proof -
    have res: "generateRuns g (Some xs) rf = Some (Inr (runs, g'))" using r that by simp
    note p1 = generateRuns_spec[OF assms(1,2,3,4,5) res]
    have a: "\<exists>ys. read_run (runFile g') m bs = Inr ys \<and> sorted ys" if "m \<in> set runs" for m
      using read_run_spec[OF p1(1) _ assms(6), of m] p1(2) that by (simp add: runs_ok_def)
    have b: "\<exists>ys. read_run rf2 final bs = Inr ys \<and> sorted ys"
      if "externalMergeSort ties runs (runFile g') = Inr (final, rf2)" for ties final rf2
      using externalMergeSort_spec[OF p1(1) p1(2) that]
        read_run_spec[of rf2 final bs] assms(6) by simp
    show ?thesis using a b by blast
  qed
  then show ?thesis using r by blast
qed

theorem runs_are_sorted_witness:
  "RunGenerator_init 2 2 = Inr sort_example_gen \<and> (2 :: int) \<le> 1073741824 \<and>
   rf_ok sort_example_file \<and>
   generateRuns sort_example_gen (Some [3, 1, 2, 0]) sort_example_file
     = Some (Inr (sort_example_runs, sort_example_after)) \<and>
   sort_example_runs = [\<lparr>startOffset = 108, elementCount = 3, isUsed = True\<rparr>,
                        \<lparr>startOffset = 120, elementCount = 1, isUsed = True\<rparr>] \<and>
   (\<exists>ys. read_run (runFile sort_example_after)
           \<lparr>startOffset = 108, elementCount = 3, isUsed = True\<rparr> 2 = Inr ys \<and> sorted ys) \<and>
   (\<exists>ys. read_run (runFile sort_example_after)
           \<lparr>startOffset = 120, elementCount = 1, isUsed = True\<rparr> 2 = Inr ys \<and> sorted ys) \<and>
   externalMergeSort (\<lambda>n. 0) sort_example_runs (runFile sort_example_after)
     = Inr (sort_example_final, sort_example_merged) \<and>
   (\<exists>ys. read_run sort_example_merged sort_example_final 2 = Inr ys \<and> sorted ys)"
proof -
  have h5: "0 < (2::int)" by simp
  from runs_are_sorted[OF sort_example_init sort_example_size h5 sort_example_file_ok
      sort_example_bound h5]
  have "(\<forall>m \<in> set sort_example_runs.
           \<exists>ys. read_run (runFile sort_example_after) m 2 = Inr ys \<and> sorted ys) \<and>
        (\<forall>ties final rf2.
           externalMergeSort ties sort_example_runs (runFile sort_example_after) = Inr (final, rf2) \<longrightarrow>
           (\<exists>ys. read_run rf2 final 2 = Inr ys \<and> sorted ys))"
    unfolding sort_example_phase1 by simp
  then show ?thesis
    using sort_example_init sort_example_file_ok sort_example_phase1 sort_example_phase2
    by (simp add: sort_example_runs_eq)
qed

text \<open>
  Claim C2 (permutation). Under the same conditions on the generator, the run file and
  the input, \<open>generateRuns\<close> returns, and when it returns a vector of runs on which
  \<open>externalMergeSort\<close> returns a final run, the elements read from the final run through
  an \<open>InputBuffer\<close> are, as a multiset, the elements of the input file.
\<close>

theorem final_run_is_permutation:
  assumes "RunGenerator_init kk b = Inr g" "kk \<le> 1073741824" "0 < b" "rf_ok rf"
    and "int (length xs) < INT_MAX - 1" and "0 < bs"
  shows "\<exists>r. generateRuns g (Some xs) rf = Some r \<and>
           (\<forall>runs g' ties final rf2.
              r = Inr (runs, g') \<longrightarrow>
              externalMergeSort ties runs (runFile g') = Inr (final, rf2) \<longrightarrow>
              (\<exists>ys. read_run rf2 final bs = Inr ys \<and> mset ys = mset xs))"
proof -
  from generateRuns_returns[OF assms(1,2,3)] obtain r where
    r: "generateRuns g (Some xs) rf = Some r" ..
  have "\<exists>ys. read_run rf2 final bs = Inr ys \<and> mset ys = mset xs"
    if "r = Inr (runs, g')" "externalMergeSort ties runs (runFile g') = Inr (final, rf2)"
    for runs g' ties final rf2
  proof -
    have res: "generateRuns g (Some xs) rf = Some (Inr (runs, g'))" using r that(1) by simp
    note p1 = generateRuns_spec[OF assms(1,2,3,4,5) res]
    from externalMergeSort_spec[OF p1(1) p1(2) that(2)] p1(3)
    have "rf_ok rf2" "run_valid rf2 final" "mset (run_data rf2 final) = mset xs" by simp_all
    then show ?thesis using read_run_spec[of rf2 final bs] assms(6) by simp
  qed
  then show ?thesis using r by blast
qed

theorem final_run_is_permutation_witness:
  "RunGenerator_init 2 2 = Inr sort_example_gen \<and> (2 :: int) \<le> 1073741824 \<and>
   rf_ok sort_example_file \<and>
   int (length [3, 1, 2, 0 :: int]) < INT_MAX - 1 \<and>
   generateRuns sort_example_gen (Some [3, 1, 2, 0]) sort_example_file
     = Some (Inr (sort_example_runs, sort_example_after)) \<and>
   externalMergeSort (\<lambda>n. 0) sort_example_runs (runFile sort_example_after)
     = Inr (sort_example_final, sort_example_merged) \<and>
   read_run sort_example_merged sort_example_final 3 = Inr [0, 1, 2, 3] \<and>
   (\<exists>ys. read_run sort_example_merged sort_example_final 3 = Inr ys \<and>
         mset ys = mset [3, 1, 2, 0])"
proof -
  have h2: "0 < (2::int)" and h5: "0 < (3::int)" by simp_all
  have rd: "read_run sort_example_merged sort_example_final 3 = Inr [0, 1, 2, 3]" by code_simp
  from final_run_is_permutation[OF sort_example_init sort_example_size h2 sort_example_file_ok
      sort_example_bound h5]
  have "\<exists>ys. read_run sort_example_merged sort_example_final 3 = Inr ys \<and>
         mset ys = mset [3, 1, 2, 0]"
    unfolding sort_example_phase1 using sort_example_phase2 by simp
  then show ?thesis
    using sort_example_init sort_example_file_ok sort_example_bound sort_example_phase1
      sort_example_phase2 rd
    by simp
qed

text \<open>
  Claim C3 (total count conservation). Under the same conditions, \<open>generateRuns\<close>
  returns, and when it returns a vector of runs, the \<open>elementCount\<close> fields of the runs
  add up to the number of elements of the input file; when \<open>externalMergeSort\<close> on that
  vector returns a final run, its \<open>elementCount\<close> is the number of elements of the input
  file.
\<close>

theorem element_count_conserved:
  assumes "RunGenerator_init kk b = Inr g" "kk \<le> 1073741824" "0 < b" "rf_ok rf"
    and "int (length xs) < INT_MAX - 1"
  shows "\<exists>r. generateRuns g (Some xs) rf = Some r \<and>
           (\<forall>runs g'. r = Inr (runs, g') \<longrightarrow>
              sum_list (map elementCount runs) = int (length xs) \<and>
              (\<forall>ties final rf2.
                 externalMergeSort ties runs (runFile g') = Inr (final, rf2) \<longrightarrow>
                 elementCount final = int (length xs)))"
proof -
  from generateRuns_returns[OF assms(1,2,3)] obtain r where
    r: "generateRuns g (Some xs) rf = Some r" ..
  have "sum_list (map elementCount runs) = int (length xs) \<and>
        (\<forall>ties final rf2.
           externalMergeSort ties runs (runFile g') = Inr (final, rf2) \<longrightarrow>
           elementCount final = int (length xs))"
    if "r = Inr (runs, g')" for runs g'
  proof -
    have res: "generateRuns g (Some xs) rf = Some (Inr (runs, g'))" using r that by simp
    note p1 = generateRuns_spec[OF assms(1,2,3,4,5) res]
    have "\<forall>m \<in> set runs. run_valid (runFile g') m" using p1(2) by (simp add: runs_ok_def)
    from runs_count_size[OF this] p1(3)
    have c: "runs_count runs = int (length xs)" by simp
    then have a: "sum_list (map elementCount runs) = int (length xs)"
      by (simp add: runs_count_sum_list)
    have b: "elementCount final = int (length xs)"
      if "externalMergeSort ties runs (runFile g') = Inr (final, rf2)" for ties final rf2
      using externalMergeSort_spec[OF p1(1) p1(2) that] c by simp
    show ?thesis using a b by blast
  qed
  then show ?thesis using r by blast
qed

theorem element_count_conserved_witness:
  "RunGenerator_init 2 2 = Inr sort_example_gen \<and> (2 :: int) \<le> 1073741824 \<and>
   rf_ok sort_example_file \<and>
   int (length [3, 1, 2, 0 :: int]) < INT_MAX - 1 \<and>
   generateRuns sort_example_gen (Some [3, 1, 2, 0]) sort_example_file
     = Some (Inr (sort_example_runs, sort_example_after)) \<and>
   map elementCount sort_example_runs = [3, 1] \<and>
   sum_list (map elementCount sort_example_runs) = int (length [3, 1, 2, 0 :: int]) \<and>
   externalMergeSort (\<lambda>n. 0) sort_example_runs (runFile sort_example_after)
     = Inr (sort_example_final, sort_example_merged) \<and>
   elementCount sort_example_final = 4"
proof -
  have h2: "0 < (2::int)" by simp
  from element_count_conserved[OF sort_example_init sort_example_size h2 sort_example_file_ok
      sort_example_bound]
  have "sum_list (map elementCount sort_example_runs) = int (length [3, 1, 2, 0 :: int]) \<and>
        (\<forall>ties final rf2.
           externalMergeSort ties sort_example_runs (runFile sort_example_after) = Inr (final, rf2) \<longrightarrow>
           elementCount final = int (length [3, 1, 2, 0 :: int]))"
    unfolding sort_example_phase1 by simp
  then have "sum_list (map elementCount sort_example_runs) = int (length [3, 1, 2, 0 :: int])"
    and "elementCount sort_example_final = int (length [3, 1, 2, 0 :: int])"
    using sort_example_phase2 by blast+
  then show ?thesis
    using sort_example_init sort_example_file_ok sort_example_bound sort_example_phase1
      sort_example_phase2
    by (simp add: sort_example_runs_eq)
qed

end
